(* ===== verification/State_System.thy ===== *)
theory State_System
  imports Main
begin

text \<open>
  Reachability and invariants of a step relation, shared by the concurrent components. The locale
  \<open>invariant_system\<close> is the contract of a state machine with an inductive invariant; it is
  interpreted for the dispatcher and for the actor runner on their own step relations.
\<close>

inductive reach :: "('s \<Rightarrow> bool) \<Rightarrow> ('s \<Rightarrow> 's \<Rightarrow> bool) \<Rightarrow> 's \<Rightarrow> bool" for init step where
  reach_init: "init s \<Longrightarrow> reach init step s"
| reach_step: "reach init step s \<Longrightarrow> step s s' \<Longrightarrow> reach init step s'"

lemma reach_rtranclp: "reach init step s \<Longrightarrow> step\<^sup>*\<^sup>* s s' \<Longrightarrow> reach init step s'"
  by (rotate_tac 1, induction rule: rtranclp.induct) (auto intro: reach.intros)

lemma reach_funpow:
  assumes "reach init step s" "\<And>s. f s = s \<or> step s (f s)"
  shows "reach init step ((f ^^ n) s)"
proof (induction n)
  case (Suc n)
  then show ?case using assms(2) [of "(f ^^ n) s"] by (auto intro: reach_step)
qed (simp add: assms(1))

text \<open>A deterministic thread whose every step decreases a measure runs until it is blocked.\<close>

definition advance :: "('s \<Rightarrow> 's option) \<Rightarrow> 's \<Rightarrow> 's" where
  "advance f s = (case f s of None \<Rightarrow> s | Some s' \<Rightarrow> s')"

lemma advance_until_blocked:
  fixes \<mu> :: "'s \<Rightarrow> nat"
  assumes "P s" "\<And>s s'. P s \<Longrightarrow> f s = Some s' \<Longrightarrow> P s' \<and> \<mu> s' < \<mu> s"
  shows "\<exists>n. P ((advance f ^^ n) s) \<and> f ((advance f ^^ n) s) = None"
  using assms(1)
proof (induction "\<mu> s" arbitrary: s rule: less_induct)
  case less
  show ?case
  proof (cases "f s")
    case None
    then show ?thesis using less.prems by (intro exI [of _ 0]) simp
  next
    case (Some s')
    then obtain n where "P ((advance f ^^ n) s')" "f ((advance f ^^ n) s') = None"
      using less assms(2) by blast
    then show ?thesis
      using Some by (intro exI [of _ "Suc n"]) (simp add: advance_def funpow_Suc_right del: funpow.simps)
  qed
qed

text \<open>Some thread of a thread table is at a program point of the given kind.\<close>

definition some_at :: "('c \<Rightarrow> bool) \<Rightarrow> (nat \<Rightarrow> 'c) \<Rightarrow> bool" where
  "some_at P c \<longleftrightarrow> (\<exists>t. P (c t))"

lemma some_at_here: "P pc \<Longrightarrow> some_at P (c(t := pc))"
  by (auto simp: some_at_def)

lemma some_at_upd: "\<not> P (c t) \<Longrightarrow> some_at P (c(t := pc)) \<longleftrightarrow> P pc \<or> some_at P c"
  unfolding some_at_def by (metis fun_upd_apply)

locale invariant_system =
  fixes init :: "'s \<Rightarrow> bool" and step :: "'s \<Rightarrow> 's \<Rightarrow> bool" and inv :: "'s \<Rightarrow> bool"
  assumes inv_init: "init s \<Longrightarrow> inv s"
    and inv_step: "inv s \<Longrightarrow> step s s' \<Longrightarrow> inv s'"
begin

lemma reach_inv: "reach init step s \<Longrightarrow> inv s"
  by (induction rule: reach.induct) (auto intro: inv_init inv_step)

lemma inv_star: "inv s \<Longrightarrow> step\<^sup>*\<^sup>* s s' \<Longrightarrow> inv s'"
  by (rotate_tac 1, induction rule: rtranclp.induct) (auto intro: inv_step)

end

end
