(* ===== verification/Prelude.thy ===== *)
theory Prelude
  imports Main "HOL-Library.Word"
begin

text \<open>
  Shared vocabulary of the development: the machine integer types of the Rust sources, the
  panics the code can raise, the collections of simplification rules the component proofs use,
  and generic facts on words, masks and lists.

  A Rust function that can panic is a HOL function into \<open>panic + 'a\<close>; \<open>Inl\<close> is the panic.
  \<open>i64\<close>, \<open>usize\<close> and \<open>u64\<close> are 64-bit words with the wrap-around arithmetic of a release
  build; a signed reading is taken with \<open>sint\<close> where the code compares signed values.
\<close>

unbundle bit_operations_syntax

section \<open>Machine integers and panics\<close>

type_synonym u8 = "8 word"
type_synonym u32 = "32 word"
type_synonym u64 = "64 word"
type_synonym i64 = "64 word"
type_synonym usize = "64 word"

datatype panic =
    Capacity_Too_Small
  | Capacity_Overflow
  | Index_Out_Of_Bounds
  | Uninit_Read
  | Unwrap_None
  | Registry_Capacity_Exceeded u32
  | Dispatcher_Count_Zero
  | Dispatcher_Index_Out_Of_Range
  | Duplicate_Actor_Alias string
  | Actor_System_Disposed
  | Ask_System_Stopped
  | Ask_Response_Consumed
  | Context_Already_Initialized
  | Context_Not_Initialized
  | Context_Wrong_Dispatcher
  | Lock_Poisoned

type_synonym 'a result = "panic + 'a"

named_theorems word_idx \<open>facts that turn masked word positions into natural-number indices\<close>
named_theorems inv_simps \<open>definitions of component invariants\<close>

section \<open>Words as positions in a ring of a power-of-two size\<close>

lemma unat_and_mask [word_idx]:
  "unat (w AND (2 ^ k - 1) :: 'a::len word) = unat w mod 2 ^ k"
proof -
  have "unat (w AND (2 ^ k - 1)) = unat (take_bit k w)"
    by (simp only: take_bit_eq_mask mask_eq_exp_minus_1)
  also have "\<dots> = take_bit k (unat w)"
    by (rule unsigned_take_bit_eq)
  finally show ?thesis
    by (simp only: take_bit_eq_mod)
qed

lemma unat_add_of_nat_mod [word_idx]:
  fixes c :: u64
  assumes "k \<le> 64"
  shows "unat (c + of_nat j) mod 2 ^ k = (unat c + j) mod 2 ^ k"
proof -
  have dvd: "(2::nat) ^ k dvd 2 ^ 64"
    using assms by (rule le_imp_power_dvd)
  have "unat (c + of_nat j) = (unat c + j) mod 2 ^ 64"
    by (simp add: unat_word_ariths unat_of_nat mod_add_right_eq)
  then show ?thesis
    using dvd by (simp add: mod_mod_cancel)
qed

lemma ring_index_inj [word_idx]:
  fixes a :: nat
  assumes "i < m" "j < m"
  shows "(a + i) mod m = (a + j) mod m \<longleftrightarrow> i = j"
proof
  assume "(a + i) mod m = (a + j) mod m"
  then have "i mod m = j mod m"
    by (simp add: nat_mod_eq_iff)
  then show "i = j"
    using assms by simp
qed simp

lemma ring_index_surj [word_idx]:
  fixes a :: nat
  assumes "i < m"
  shows "\<exists>j<m. (a + j) mod m = i"
proof -
  have m: "a mod m \<le> i + m"
    using assms mod_less_divisor [of m a] by linarith
  have "(a + (i + m - a mod m) mod m) mod m = (a mod m + (i + m - a mod m)) mod m"
    by (simp add: mod_add_left_eq mod_add_right_eq)
  also have "\<dots> = i"
    using m assms by simp
  finally show ?thesis
    using assms by (intro exI [of _ "(i + m - a mod m) mod m"]) simp
qed

lemma ring_window_inj:
  fixes a :: nat
  assumes "a \<le> p" "p < a + m" "a \<le> p'" "p' < a + m"
  shows "p mod m = p' mod m \<longleftrightarrow> p = p'"
  using ring_index_inj [of "p - a" m "p' - a" a] assms by auto

lemma unat_of_nat_small: "p < 2 ^ 64 \<Longrightarrow> unat (of_nat p :: u64) = p"
  by (simp add: unat_of_nat)

lemma of_nat_eq_small:
  "p < 2 ^ 64 \<Longrightarrow> p' < 2 ^ 64 \<Longrightarrow> (of_nat p :: u64) = of_nat p' \<longleftrightarrow> p = p'"
  by (metis unat_of_nat_small)

lemma sint_of_int_small:
  assumes "- (2 ^ 63) \<le> i" "i < 2 ^ 63"
  shows "sint (of_int i :: i64) = i"
  using assms by (simp add: signed_of_int signed_take_bit_int_eq_self)

lemma sint_ucast_u32: "sint (ucast (x :: u32) :: i64) = int (unat x)"
proof -
  have bound: "uint x < 4294967296" using uint_bounded [of x] by simp
  moreover have "- (2 ^ 63) \<le> uint x" by (rule order_trans [of _ 0]) simp_all
  ultimately have "sint (of_int (uint x) :: i64) = uint x" by (intro sint_of_int_small) simp_all
  then show ?thesis unfolding ucast_eq [symmetric] by simp
qed
end
