(* ===== verification/Actor_Dispatcher.thy ===== *)
theory Actor_Dispatcher
  imports State_System Prelude
begin

text \<open>
  The dispatcher of \<^verbatim>\<open>dispatcher/actor_dispatcher.rs\<close> with its \<open>Signal\<close>
  (\<^verbatim>\<open>dispatcher/signal.rs\<close>), as one worker thread and any number of threads that call \<open>schedule\<close>
  or \<open>dispose\<close>. Every lock region and every atomic access is one step. An entry of the queue is
  opaque here (type \<open>'a\<close>): running it is one step, and what it schedules while it runs is done by
  some caller. \<open>pushed\<close> and \<open>executed\<close> are history variables.
\<close>

section \<open>State\<close>

datatype 'a worker_pc =
    Wk_Wait
  | Wk_CheckStop
  | Wk_Clear
  | Wk_Take
  | Wk_Run "'a list"
  | Wk_AfterRun "'a list"
  | Wk_Outer
  | Wk_Exit

datatype 'a caller_pc =
    Idle
  | Sc_Check 'a
  | Sc_Push 'a
  | Sc_Cas
  | Sc_Release
  | Ds_Store bool
  | Ds_Release bool
  | Ds_TakeHandle bool
  | Ds_Join

record 'a dispatcher =
  scheduled_actors :: "'a list"
  is_stopped :: bool
  has_worker_handle :: bool
  is_signaled :: bool
  signal_pending :: int
  worker :: "'a worker_pc"
  callers :: "nat \<Rightarrow> 'a caller_pc"
  pushed :: "'a list"
  executed :: "'a list"

definition set_caller :: "nat \<Rightarrow> 'a caller_pc \<Rightarrow> 'a dispatcher \<Rightarrow> 'a dispatcher" where
  "set_caller t pc s = s\<lparr>callers := (callers s)(t := pc)\<rparr>"

text \<open>The dispatcher after \<open>new\<close> and \<open>start\<close>: the worker waits for the first signal.\<close>

definition new_dispatcher :: "'a dispatcher" where
  "new_dispatcher =
     \<lparr>scheduled_actors = [], is_stopped = False, has_worker_handle = True, is_signaled = False,
      signal_pending = 0, worker = Wk_Wait, callers = (\<lambda>_. Idle), pushed = [], executed = []\<rparr>"

section \<open>The signal\<close>

definition signal_release :: "'a dispatcher \<Rightarrow> 'a dispatcher" where
  "signal_release s = s\<lparr>is_signaled := True\<rparr>"

definition signal_wait :: "'a dispatcher \<Rightarrow> 'a dispatcher option" where
  "signal_wait s = (if is_signaled s then Some (s\<lparr>is_signaled := False\<rparr>) else None)"

section \<open>The worker loop\<close>

text \<open>One step of \<open>process_scheduled_actors\<close>; \<open>None\<close> when the worker is blocked or has ended.\<close>

fun worker_step :: "'a worker_pc \<Rightarrow> 'a dispatcher \<Rightarrow> 'a dispatcher option" where
  "worker_step Wk_Wait s = map_option (\<lambda>s. s\<lparr>worker := Wk_CheckStop\<rparr>) (signal_wait s)"
| "worker_step Wk_CheckStop s = Some (s\<lparr>worker := (if is_stopped s then Wk_Exit else Wk_Clear)\<rparr>)"
| "worker_step Wk_Clear s = Some (s\<lparr>signal_pending := 0, worker := Wk_Take\<rparr>)"
| "worker_step Wk_Take s =
     (if scheduled_actors s = [] then Some (s\<lparr>worker := Wk_Outer\<rparr>)
      else Some (s\<lparr>scheduled_actors := [], worker := Wk_Run (scheduled_actors s)\<rparr>))"
| "worker_step (Wk_Run []) s = Some (s\<lparr>worker := Wk_Take\<rparr>)"
| "worker_step (Wk_Run (x # batch)) s = Some (s\<lparr>executed := executed s @ [x], worker := Wk_AfterRun batch\<rparr>)"
| "worker_step (Wk_AfterRun batch) s = Some (s\<lparr>worker := (if is_stopped s then Wk_Outer else Wk_Run batch)\<rparr>)"
| "worker_step Wk_Outer s = Some (s\<lparr>worker := (if is_stopped s then Wk_Exit else Wk_Wait)\<rparr>)"
| "worker_step Wk_Exit s = None"

section \<open>Callers\<close>

text \<open>
  One step of a thread inside \<open>schedule\<close> or \<open>dispose\<close>. The flag of the disposing steps says whether
  the caller is the worker thread itself, which does not join itself; joining waits for the exit.
\<close>

fun caller_step :: "nat \<Rightarrow> 'a caller_pc \<Rightarrow> 'a dispatcher \<Rightarrow> 'a dispatcher option" where
  "caller_step t Idle s = None"
| "caller_step t (Sc_Check x) s = Some (set_caller t (if is_stopped s then Idle else Sc_Push x) s)"
| "caller_step t (Sc_Push x) s =
     Some (set_caller t Sc_Cas (s\<lparr>scheduled_actors := scheduled_actors s @ [x], pushed := pushed s @ [x]\<rparr>))"
| "caller_step t Sc_Cas s =
     Some (if signal_pending s = 0 then set_caller t Sc_Release (s\<lparr>signal_pending := 1\<rparr>)
           else set_caller t Idle s)"
| "caller_step t Sc_Release s = Some (set_caller t Idle (signal_release s))"
| "caller_step t (Ds_Store self) s = Some (set_caller t (Ds_Release self) (s\<lparr>is_stopped := True\<rparr>))"
| "caller_step t (Ds_Release self) s = Some (set_caller t (Ds_TakeHandle self) (signal_release s))"
| "caller_step t (Ds_TakeHandle self) s =
     Some (set_caller t (if has_worker_handle s \<and> \<not> self then Ds_Join else Idle)
             (s\<lparr>has_worker_handle := False\<rparr>))"
| "caller_step t Ds_Join s = (if worker s = Wk_Exit then Some (set_caller t Idle s) else None)"

inductive dispatcher_step :: "'a dispatcher \<Rightarrow> 'a dispatcher \<Rightarrow> bool" where
  schedule: "callers s t = Idle \<Longrightarrow> dispatcher_step s (set_caller t (Sc_Check x) s)"
| dispose: "callers s t = Idle \<Longrightarrow> dispatcher_step s (set_caller t (Ds_Store self) s)"
| caller: "caller_step t (callers s t) s = Some s' \<Longrightarrow> dispatcher_step s s'"
| worker: "worker_step (worker s) s = Some s' \<Longrightarrow> dispatcher_step s s'"

abbreviation dispatcher_reach :: "'a dispatcher \<Rightarrow> bool" where
  "dispatcher_reach \<equiv> reach (\<lambda>s. s = new_dispatcher) dispatcher_step"

section \<open>Invariant\<close>

fun batch_of :: "'a worker_pc \<Rightarrow> 'a list" where
  "batch_of (Wk_Run batch) = batch"
| "batch_of (Wk_AfterRun batch) = batch"
| "batch_of _ = []"

abbreviation releasing :: "(nat \<Rightarrow> 'a caller_pc) \<Rightarrow> bool" where
  "releasing \<equiv> some_at (\<lambda>pc. pc = Sc_Release)"

abbreviation signalling :: "(nat \<Rightarrow> 'a caller_pc) \<Rightarrow> bool" where
  "signalling \<equiv> some_at (\<lambda>pc. pc = Sc_Cas \<or> pc = Sc_Release)"

abbreviation stopping :: "(nat \<Rightarrow> 'a caller_pc) \<Rightarrow> bool" where
  "stopping \<equiv> some_at (\<lambda>pc. pc = Ds_Release True \<or> pc = Ds_Release False)"

definition pending_inv :: "'a dispatcher \<Rightarrow> bool" where
  "pending_inv s \<longleftrightarrow> (signal_pending s \<noteq> 0 \<longrightarrow>
     is_signaled s \<or> worker s = Wk_CheckStop \<or> worker s = Wk_Clear \<or> worker s = Wk_Exit
     \<or> releasing (callers s))"

definition wakeup_inv :: "'a dispatcher \<Rightarrow> bool" where
  "wakeup_inv s \<longleftrightarrow> (scheduled_actors s \<noteq> [] \<and> (worker s = Wk_Wait \<or> worker s = Wk_Outer \<and> \<not> is_stopped s)
     \<longrightarrow> is_signaled s \<or> signalling (callers s))"

definition stop_inv :: "'a dispatcher \<Rightarrow> bool" where
  "stop_inv s \<longleftrightarrow> (is_stopped s \<and> worker s = Wk_Wait \<longrightarrow> is_signaled s \<or> stopping (callers s))
     \<and> (worker s = Wk_Exit \<longrightarrow> is_stopped s)"

definition order_inv :: "'a dispatcher \<Rightarrow> bool" where
  "order_inv s \<longleftrightarrow>
     ((worker s \<noteq> Wk_Outer \<and> worker s \<noteq> Wk_Exit) \<or> \<not> is_stopped s \<longrightarrow>
        pushed s = executed s @ batch_of (worker s) @ scheduled_actors s)
     \<and> (\<exists>dropped. pushed s = executed s @ batch_of (worker s) @ dropped)"

definition dispatcher_inv :: "'a dispatcher \<Rightarrow> bool" where
  "dispatcher_inv s \<longleftrightarrow> pending_inv s \<and> wakeup_inv s \<and> stop_inv s \<and> order_inv s"

lemmas dispatcher_parts = pending_inv_def wakeup_inv_def stop_inv_def order_inv_def

section \<open>Preservation\<close>

lemma set_caller_simps [simp]:
  "scheduled_actors (set_caller t pc s) = scheduled_actors s" "is_stopped (set_caller t pc s) = is_stopped s"
  "is_signaled (set_caller t pc s) = is_signaled s" "signal_pending (set_caller t pc s) = signal_pending s"
  "worker (set_caller t pc s) = worker s" "pushed (set_caller t pc s) = pushed s"
  "executed (set_caller t pc s) = executed s" "callers (set_caller t pc s) = (callers s)(t := pc)"
  "has_worker_handle (set_caller t pc s) = has_worker_handle s"
  by (simp_all add: set_caller_def)

lemma dispatcher_inv_idle:
  assumes "dispatcher_inv s" "callers s t = Idle"
  shows "dispatcher_inv (set_caller t pc s)"
  using assms unfolding dispatcher_inv_def
  by (simp add: dispatcher_parts some_at_upd del: fun_upd_apply) blast

lemma worker_pending: "pending_inv s \<Longrightarrow> worker_step (worker s) s = Some s' \<Longrightarrow> pending_inv s'"
  by (cases "worker s" rule: batch_of.cases; cases "batch_of (worker s)")
     (auto simp: pending_inv_def signal_wait_def split: if_splits)

lemma worker_wakeup: "wakeup_inv s \<Longrightarrow> worker_step (worker s) s = Some s' \<Longrightarrow> wakeup_inv s'"
  by (cases "worker s" rule: batch_of.cases; cases "batch_of (worker s)")
     (auto simp: wakeup_inv_def signal_wait_def split: if_splits)

lemma worker_stop: "stop_inv s \<Longrightarrow> worker_step (worker s) s = Some s' \<Longrightarrow> stop_inv s'"
  by (cases "worker s" rule: batch_of.cases; cases "batch_of (worker s)")
     (auto simp: stop_inv_def signal_wait_def split: if_splits)

lemma worker_order: "order_inv s \<Longrightarrow> worker_step (worker s) s = Some s' \<Longrightarrow> order_inv s'"
  by (cases "worker s" rule: batch_of.cases; cases "batch_of (worker s)")
     (auto simp: order_inv_def signal_wait_def split: if_splits)

lemma caller_pending:
  "pending_inv s \<Longrightarrow> caller_step t (callers s t) s = Some s' \<Longrightarrow> pending_inv s'"
  by (cases "callers s t")
     (auto simp: pending_inv_def signal_release_def some_at_here some_at_upd simp del: fun_upd_apply split: if_splits)

lemma caller_wakeup:
  assumes "wakeup_inv s" "pending_inv s" "caller_step t (callers s t) s = Some s'"
  shows "wakeup_inv s'"
proof (cases "callers s t")
  case Sc_Cas
  have rel: "releasing (callers s) \<Longrightarrow> signalling ((callers s)(t := Idle))"
    using Sc_Cas unfolding some_at_def by (metis caller_pc.distinct(43) fun_upd_other)
  show ?thesis
    using assms Sc_Cas rel
    by (auto simp: wakeup_inv_def pending_inv_def some_at_here simp del: fun_upd_apply split: if_splits)
qed (use assms in \<open>auto simp: wakeup_inv_def signal_release_def some_at_here some_at_upd simp del: fun_upd_apply
      split: if_splits\<close>)

lemma caller_stop:
  "stop_inv s \<Longrightarrow> caller_step t (callers s t) s = Some s' \<Longrightarrow> stop_inv s'"
  by (cases "callers s t")
     (auto simp: stop_inv_def signal_release_def some_at_here some_at_upd simp del: fun_upd_apply split: if_splits)

lemma caller_order:
  "order_inv s \<Longrightarrow> caller_step t (callers s t) s = Some s' \<Longrightarrow> order_inv s'"
  by (cases "callers s t") (auto simp: order_inv_def signal_release_def split: if_splits)

lemma dispatcher_inv_step:
  assumes "dispatcher_inv s" "dispatcher_step s s'"
  shows "dispatcher_inv s'"
  using assms(2)
proof cases
  case (schedule t x)
  then show ?thesis using assms(1) by (simp add: dispatcher_inv_idle)
next
  case (dispose t self)
  then show ?thesis using assms(1) by (simp add: dispatcher_inv_idle)
next
  case (caller t)
  then show ?thesis
    using assms(1) caller_pending caller_wakeup caller_stop caller_order
    unfolding dispatcher_inv_def by blast
next
  case worker
  then show ?thesis
    using assms(1) worker_pending worker_wakeup worker_stop worker_order
    unfolding dispatcher_inv_def by blast
qed

lemma dispatcher_inv_init: "dispatcher_inv new_dispatcher"
  by (simp add: dispatcher_inv_def dispatcher_parts new_dispatcher_def)

interpretation dispatcher: invariant_system "\<lambda>s. s = new_dispatcher" dispatcher_step dispatcher_inv
  by unfold_locales (auto simp: dispatcher_inv_init intro: dispatcher_inv_step)

section \<open>Properties\<close>

definition worker_next :: "'a dispatcher \<Rightarrow> 'a dispatcher" where
  "worker_next = advance (\<lambda>s. worker_step (worker s) s)"

lemma worker_next_step: "worker_next s = s \<or> dispatcher_step s (worker_next s)"
  by (auto simp: worker_next_def advance_def split: option.splits intro: dispatcher_step.worker)

lemma worker_frame:
  "worker_step (worker s) s = Some s' \<Longrightarrow>
     callers s' = callers s \<and> pushed s' = pushed s \<and> is_stopped s' = is_stopped s"
  by (cases "worker s" rule: batch_of.cases; cases "batch_of (worker s)")
     (auto simp: signal_wait_def split: if_splits)

fun pc_rank :: "'a worker_pc \<Rightarrow> nat" where
  "pc_rank Wk_Wait = 0" | "pc_rank Wk_Outer = 1" | "pc_rank Wk_Take = 2" | "pc_rank (Wk_Run b) = 3"
| "pc_rank (Wk_AfterRun b) = 5" | "pc_rank Wk_Clear = 6" | "pc_rank Wk_CheckStop = 7" | "pc_rank Wk_Exit = 0"

definition work_left :: "'a dispatcher \<Rightarrow> nat" where
  "work_left s = (if is_signaled s then 10 else 0) + 5 * length (scheduled_actors s)
     + 3 * length (batch_of (worker s)) + pc_rank (worker s)"

lemma worker_decreases:
  assumes "worker_step (worker s) s = Some s'" "\<not> is_stopped s"
  shows "work_left s' < work_left s"
  using assms
  by (cases "worker s" rule: batch_of.cases; cases "batch_of (worker s)")
     (auto simp: work_left_def signal_wait_def neq_Nil_conv split: if_splits)

lemma worker_blocked:
  "worker_step (worker s) s = None \<longleftrightarrow> worker s = Wk_Exit \<or> (worker s = Wk_Wait \<and> \<not> is_signaled s)"
  by (cases "worker s" rule: batch_of.cases; cases "batch_of (worker s)")
     (auto simp: signal_wait_def split: if_splits)

text \<open>
  C16: the dispatcher never loses a wake-up. Whenever its worker sleeps without a signal and no call
  to \<open>schedule\<close> or \<open>dispose\<close> is under way, nothing is left in the queue and everything that was
  scheduled has been run.
\<close>

theorem dispatcher_no_lost_wakeup:
  assumes "dispatcher_reach s" "\<forall>t. callers s t = Idle" "worker s = Wk_Wait" "\<not> is_signaled s"
  shows "scheduled_actors s = [] \<and> \<not> is_stopped s \<and> executed s = pushed s"
  using dispatcher.reach_inv [OF assms(1)] assms(2-4)
  by (auto simp: dispatcher_inv_def dispatcher_parts some_at_def)

text \<open>
  C18: entries are run in the order in which they were scheduled, each at most once: the run entries
  are always a prefix of the scheduled ones, and as long as the dispatcher is not stopped the rest
  is exactly the current batch followed by the queue.
\<close>

theorem dispatcher_runs_in_order:
  assumes "dispatcher_reach s"
  shows "(\<exists>rest. pushed s = executed s @ rest) \<and>
    (\<not> is_stopped s \<longrightarrow> pushed s = executed s @ batch_of (worker s) @ scheduled_actors s)"
  using dispatcher.reach_inv [OF assms] by (auto simp: dispatcher_inv_def order_inv_def)

text \<open>
  C17: when no further call is under way and the dispatcher is not stopped, its worker alone runs
  everything that was scheduled, in finitely many steps, and then sleeps.
\<close>

theorem dispatcher_drains:
  assumes "dispatcher_reach s" "\<forall>t. callers s t = Idle" "\<not> is_stopped s"
  shows "\<exists>n. executed ((worker_next ^^ n) s) = pushed s \<and> worker ((worker_next ^^ n) s) = Wk_Wait"
proof -
  let ?P = "\<lambda>u. dispatcher_reach u \<and> callers u = callers s \<and> pushed u = pushed s \<and> \<not> is_stopped u"
  have "\<exists>n. ?P ((worker_next ^^ n) s) \<and> worker_step (worker ((worker_next ^^ n) s)) ((worker_next ^^ n) s) = None"
    unfolding worker_next_def
    using assms worker_frame worker_decreases
    by (intro advance_until_blocked [where \<mu> = work_left])
       (fastforce intro: reach_step dispatcher_step.worker)+
  then obtain n where n: "?P ((worker_next ^^ n) s)"
    "worker_step (worker ((worker_next ^^ n) s)) ((worker_next ^^ n) s) = None" by blast
  then have inv: "dispatcher_inv ((worker_next ^^ n) s)"
    using dispatcher.reach_inv by blast
  then have "worker ((worker_next ^^ n) s) = Wk_Wait" "\<not> is_signaled ((worker_next ^^ n) s)"
    using n by (auto simp: worker_blocked dispatcher_inv_def stop_inv_def)
  moreover from this have "executed ((worker_next ^^ n) s) = pushed s"
    using n(1) assms(2) inv by (auto simp: dispatcher_inv_def dispatcher_parts some_at_def)
  ultimately show ?thesis by blast
qed

text \<open>
  C38: stopping is effective: once the stop flag is set and the disposing thread has released the
  signal, the worker leaves its loop within six of its own steps and runs at most one more entry.
\<close>

theorem dispatcher_stop_ends_worker:
  assumes "dispatcher_reach s" "is_stopped s" "\<not> stopping (callers s)"
  shows "worker ((worker_next ^^ 6) s) = Wk_Exit \<and>
     length (executed ((worker_next ^^ 6) s)) \<le> length (executed s) + 1"
proof -
  have wait: "worker s = Wk_Wait \<Longrightarrow> is_signaled s"
    using dispatcher.reach_inv [OF assms(1)] assms(2,3) by (auto simp: dispatcher_inv_def stop_inv_def)
  show ?thesis
    using assms(2) wait
    by (cases "worker s" rule: batch_of.cases; cases "batch_of (worker s)"; cases "scheduled_actors s")
       (simp_all add: numeral_eq_Suc worker_next_def advance_def signal_wait_def)
qed

text \<open>Concrete runs: caller 0 schedules the entries 7 and 8, then caller 1 disposes.\<close>

definition schedule_run :: "nat \<Rightarrow> 'a \<Rightarrow> 'a dispatcher \<Rightarrow> 'a dispatcher" where
  "schedule_run t x s =
     (advance (\<lambda>s. caller_step t (callers s t) s) ^^ 4) (set_caller t (Sc_Check x) s)"

lemma reach_call:
  assumes "dispatcher_reach s" "callers s t = Idle"
  shows "dispatcher_reach ((advance (\<lambda>s. caller_step t (callers s t) s) ^^ n) (set_caller t (Sc_Check x) s))"
    and "dispatcher_reach ((advance (\<lambda>s. caller_step t (callers s t) s) ^^ n) (set_caller t (Ds_Store b) s))"
  by (rule reach_funpow, blast intro: reach_step assms dispatcher_step.schedule dispatcher_step.dispose,
      auto simp: advance_def split: option.splits intro: dispatcher_step.caller)+

definition two_scheduled :: "nat dispatcher" where
  "two_scheduled = schedule_run 0 8 (schedule_run 0 7 new_dispatcher)"

lemma two_scheduled_eq:
  "two_scheduled = new_dispatcher\<lparr>scheduled_actors := [7, 8], is_signaled := True, signal_pending := 1, pushed := [7, 8]\<rparr>"
  by (simp add: two_scheduled_def schedule_run_def new_dispatcher_def set_caller_def advance_def
      numeral_eq_Suc signal_release_def fun_eq_iff)

lemma two_scheduled_reach: "dispatcher_reach two_scheduled"
proof -
  have "dispatcher_reach (schedule_run 0 7 new_dispatcher)"
    unfolding schedule_run_def by (intro reach_call reach_init) (simp_all add: new_dispatcher_def)
  moreover have "callers (schedule_run 0 7 new_dispatcher) 0 = Idle"
    by (simp add: schedule_run_def new_dispatcher_def advance_def numeral_eq_Suc signal_release_def)
  ultimately show ?thesis
    unfolding two_scheduled_def by (subst schedule_run_def) (rule reach_call)
qed

lemma two_scheduled_idle: "callers two_scheduled t = Idle" "\<not> is_stopped two_scheduled" "pushed two_scheduled = [7, 8]"
  by (simp_all add: two_scheduled_eq new_dispatcher_def)

lemma two_drained_reach: "dispatcher_reach ((worker_next ^^ n) two_scheduled)"
  by (rule reach_funpow [OF two_scheduled_reach]) (rule worker_next_step)

theorem dispatcher_no_lost_wakeup_witness:
  "executed ((worker_next ^^ 11) two_scheduled) = [7, 8]"
proof -
  let ?s = "(worker_next ^^ 11) two_scheduled"
  have "callers ?s = callers two_scheduled" "worker ?s = Wk_Wait" "\<not> is_signaled ?s" "pushed ?s = [7, 8]"
    by (simp_all add: two_scheduled_eq new_dispatcher_def numeral_eq_Suc worker_next_def advance_def signal_wait_def)
  then show ?thesis
    using dispatcher_no_lost_wakeup [OF two_drained_reach] two_scheduled_idle(1) by metis
qed

theorem dispatcher_runs_in_order_witness:
  "pushed ((worker_next ^^ 5) two_scheduled) = [7, 8] \<and>
   pushed ((worker_next ^^ 5) two_scheduled) = executed ((worker_next ^^ 5) two_scheduled)
     @ batch_of (worker ((worker_next ^^ 5) two_scheduled)) @ scheduled_actors ((worker_next ^^ 5) two_scheduled)"
proof -
  have "\<not> is_stopped ((worker_next ^^ 5) two_scheduled)" "pushed ((worker_next ^^ 5) two_scheduled) = [7, 8]"
    by (simp_all add: two_scheduled_eq new_dispatcher_def numeral_eq_Suc worker_next_def advance_def signal_wait_def)
  then show ?thesis
    using dispatcher_runs_in_order [OF two_drained_reach, of 5] by simp
qed

theorem dispatcher_drains_witness:
  "\<exists>n. executed ((worker_next ^^ n) two_scheduled) = [7, 8] \<and> worker ((worker_next ^^ n) two_scheduled) = Wk_Wait"
  using dispatcher_drains [OF two_scheduled_reach] two_scheduled_idle by simp

theorem dispatcher_stop_ends_worker_witness:
  "worker ((worker_next ^^ 6) ((advance (\<lambda>s. caller_step 1 (callers s 1) s) ^^ 2)
     (set_caller 1 (Ds_Store False) two_scheduled))) = Wk_Exit"
proof -
  let ?s = "(advance (\<lambda>s. caller_step 1 (callers s 1) s) ^^ 2) (set_caller 1 (Ds_Store False) two_scheduled)"
  have "dispatcher_reach ?s"
    by (rule reach_call(2)) (simp_all add: two_scheduled_reach two_scheduled_idle)
  moreover have "is_stopped ?s" "\<not> stopping (callers ?s)"
    by (simp_all add: two_scheduled_eq new_dispatcher_def numeral_eq_Suc advance_def signal_release_def some_at_def)
  ultimately show ?thesis
    using dispatcher_stop_ends_worker by blast
qed

end
