(* ===== verification/Yield_Tasks.thy ===== *)
theory Yield_Tasks
  imports Actor_Dispatcher
begin

text \<open>
  The continuations of a dispatcher: \<open>ActorDispatcher::enqueue_continuation\<close>, the yield task
  (\<^verbatim>\<open>dispatcher/actor_yield_task.rs\<close>) and the pool that recycles it (\<^verbatim>\<open>object_pool/actor_yield_task_pool.rs\<close>), on top of the dispatcher
  of \<open>Actor_Dispatcher\<close>. A task is named by the number of its allocation; \<open>callbacks\<close> is the contents of its mutex. An entry of the dispatcher's
  queue is a task or some runner. A thread inside \<open>enqueue_continuation\<close> pops a task, sets its callback and then is a caller of \<open>schedule\<close>;
  the worker executes a task in four steps: take the callback, call it, clear the task, push it back. Callbacks are wakers; they
  are assumed to return. \<open>submitted\<close> and \<open>called\<close> are history variables: the callbacks whose task has been put into the queue, and those that were called.
\<close>

section \<open>State\<close>

datatype 'r entry = Yield_Task nat | Runner_Entry 'r

datatype 'k enqueue_pc = Q_None | Q_Pop 'k | Q_Set nat 'k

datatype 'k task_pc = X_None | X_Call nat 'k | X_Clear nat | X_Push nat

record ('k, 'r) yield_state =
  disp :: "'r entry dispatcher"
  inner_pool :: "nat list"
  callbacks :: "nat \<Rightarrow> 'k option"
  next_task :: nat
  enqueuers :: "nat \<Rightarrow> 'k enqueue_pc"
  running :: "'k task_pc"
  submitted :: "'k list"
  called :: "'k list"

definition new_pool :: "nat list" where "new_pool = []"

definition new_yield_state :: "('k, 'r) yield_state" where
  "new_yield_state = \<lparr>disp = new_dispatcher, inner_pool = new_pool, callbacks = (\<lambda>_. None), next_task = 0,
     enqueuers = (\<lambda>_. Q_None), running = X_None, submitted = [], called = []\<rparr>"

section \<open>Pool and task\<close>

text \<open>\<open>ActorYieldTaskPool::pop\<close> takes the last task of the pool or makes one without a callback.\<close>

definition pool_pop :: "('k, 'r) yield_state \<Rightarrow> nat \<times> ('k, 'r) yield_state" where
  "pool_pop s =
     (if inner_pool s = [] then (next_task s, s\<lparr>next_task := next_task s + 1, callbacks := (callbacks s)(next_task s := None)\<rparr>)
      else (last (inner_pool s), s\<lparr>inner_pool := butlast (inner_pool s)\<rparr>))"

definition pool_push :: "nat \<Rightarrow> ('k, 'r) yield_state \<Rightarrow> ('k, 'r) yield_state" where
  "pool_push i s = s\<lparr>inner_pool := inner_pool s @ [i]\<rparr>"

definition task_set :: "nat \<Rightarrow> 'k \<Rightarrow> ('k, 'r) yield_state \<Rightarrow> ('k, 'r) yield_state" where
  "task_set i k s = s\<lparr>callbacks := (callbacks s)(i := Some k)\<rparr>"

text \<open>The first half of \<open>recycle\<close>.\<close>

definition task_clear :: "nat \<Rightarrow> ('k, 'r) yield_state \<Rightarrow> ('k, 'r) yield_state" where
  "task_clear i s = s\<lparr>callbacks := (callbacks s)(i := None)\<rparr>"

text \<open>\<open>take\<close> of the callback, with which \<open>execute\<close> begins.\<close>

definition task_take :: "nat \<Rightarrow> ('k, 'r) yield_state \<Rightarrow> ('k, 'r) yield_state" where
  "task_take i s = (case callbacks s i of None \<Rightarrow> s\<lparr>running := X_Clear i\<rparr>
     | Some k \<Rightarrow> s\<lparr>callbacks := (callbacks s)(i := None), running := X_Call i k\<rparr>)"

section \<open>Threads\<close>

fun enqueue_step :: "nat \<Rightarrow> 'k enqueue_pc \<Rightarrow> ('k, 'r) yield_state \<Rightarrow> ('k, 'r) yield_state option" where
  "enqueue_step t Q_None s = None"
| "enqueue_step t (Q_Pop k) s = (case pool_pop s of (i, s') \<Rightarrow> Some (s'\<lparr>enqueuers := (enqueuers s)(t := Q_Set i k)\<rparr>))"
| "enqueue_step t (Q_Set i k) s =
     Some ((task_set i k s)\<lparr>enqueuers := (enqueuers s)(t := Q_None), disp := set_caller t (Sc_Check (Yield_Task i)) (disp s)\<rparr>)"

fun task_step :: "'k task_pc \<Rightarrow> ('k, 'r) yield_state \<Rightarrow> ('k, 'r) yield_state option" where
  "task_step X_None s = None"
| "task_step (X_Call i k) s = Some (s\<lparr>called := called s @ [k], running := X_Clear i\<rparr>)"
| "task_step (X_Clear i) s = Some ((task_clear i s)\<lparr>running := X_Push i\<rparr>)"
| "task_step (X_Push i) s = Some ((pool_push i s)\<lparr>running := X_None\<rparr>)"

text \<open>What a step of \<open>schedule\<close> puts into the queue, as a callback, and the task with which a worker step begins.\<close>

fun pushed_callback :: "(nat \<Rightarrow> 'k option) \<Rightarrow> 'r entry caller_pc \<Rightarrow> 'k list" where
  "pushed_callback cb (Sc_Push (Yield_Task i)) = (case cb i of None \<Rightarrow> [] | Some k \<Rightarrow> [k])"
| "pushed_callback cb _ = []"

fun next_run :: "'r entry worker_pc \<Rightarrow> nat option" where
  "next_run (Wk_Run (Yield_Task i # batch)) = Some i"
| "next_run _ = None"

inductive yield_step :: "('k, 'r) yield_state \<Rightarrow> ('k, 'r) yield_state \<Rightarrow> bool" where
  enqueue_continuation: "enqueuers s t = Q_None \<Longrightarrow> callers (disp s) t = Idle \<Longrightarrow>
     yield_step s (s\<lparr>enqueuers := (enqueuers s)(t := Q_Pop k)\<rparr>)"
| enqueuer: "enqueue_step t (enqueuers s t) s = Some s' \<Longrightarrow> yield_step s s'"
| schedule_runner: "enqueuers s t = Q_None \<Longrightarrow> callers (disp s) t = Idle \<Longrightarrow>
     yield_step s (s\<lparr>disp := set_caller t (Sc_Check (Runner_Entry r)) (disp s)\<rparr>)"
| dispose: "enqueuers s t = Q_None \<Longrightarrow> callers (disp s) t = Idle \<Longrightarrow>
     yield_step s (s\<lparr>disp := set_caller t (Ds_Store self) (disp s)\<rparr>)"
| caller: "caller_step t (callers (disp s) t) (disp s) = Some d \<Longrightarrow>
     yield_step s (s\<lparr>disp := d, submitted := submitted s @ pushed_callback (callbacks s) (callers (disp s) t)\<rparr>)"
| worker: "running s = X_None \<Longrightarrow> worker_step (worker (disp s)) (disp s) = Some d \<Longrightarrow> next_run (worker (disp s)) = None \<Longrightarrow>
     yield_step s (s\<lparr>disp := d\<rparr>)"
| execute: "running s = X_None \<Longrightarrow> worker_step (worker (disp s)) (disp s) = Some d \<Longrightarrow> next_run (worker (disp s)) = Some i \<Longrightarrow>
     yield_step s (task_take i (s\<lparr>disp := d\<rparr>))"
| task: "task_step (running s) s = Some s' \<Longrightarrow> yield_step s s'"

abbreviation yield_reach :: "('k, 'r) yield_state \<Rightarrow> bool" where
  "yield_reach \<equiv> reach (\<lambda>s. s = new_yield_state) yield_step"

section \<open>The dispatcher underneath\<close>

text \<open>Every step is a step of the dispatcher or leaves it alone.\<close>

lemma yield_refines_dispatcher:
  assumes "yield_step s s'" "\<And>t. enqueuers s t \<noteq> Q_None \<Longrightarrow> callers (disp s) t = Idle"
  shows "disp s' = disp s \<or> dispatcher_step (disp s) (disp s')"
  using assms(1)
proof cases
  case (enqueuer t)
  then show ?thesis
    using assms(2) [of t]
    by (cases "enqueuers s t") (auto simp: pool_pop_def task_set_def intro: dispatcher_step.schedule split: if_splits)
next
  case (task)
  then show ?thesis by (cases "running s") (auto simp: task_clear_def pool_push_def)
qed (auto simp: task_take_def intro: dispatcher_step.intros split: option.splits)

section \<open>Where a task is\<close>

fun tasks_of :: "'r entry list \<Rightarrow> nat list" where
  "tasks_of [] = []"
| "tasks_of (Yield_Task i # es) = i # tasks_of es"
| "tasks_of (Runner_Entry r # es) = tasks_of es"

lemma tasks_of_append [simp]: "tasks_of (xs @ ys) = tasks_of xs @ tasks_of ys"
  by (induction xs rule: tasks_of.induct) auto

definition queue_tasks :: "'r entry dispatcher \<Rightarrow> nat list" where
  "queue_tasks d = tasks_of (batch_of (worker d) @ scheduled_actors d)"

fun run_tasks :: "'k task_pc \<Rightarrow> nat list" where
  "run_tasks X_None = []"
| "run_tasks (X_Call i k) = [i]"
| "run_tasks (X_Clear i) = [i]"
| "run_tasks (X_Push i) = [i]"

fun current :: "'k task_pc \<Rightarrow> 'k list" where
  "current (X_Call i k) = [k]"
| "current _ = []"

fun ready_task :: "'r entry caller_pc \<Rightarrow> nat option" where
  "ready_task (Sc_Check (Yield_Task i)) = Some i"
| "ready_task (Sc_Push (Yield_Task i)) = Some i"
| "ready_task _ = None"

fun popped_task :: "'k enqueue_pc \<Rightarrow> nat option" where
  "popped_task (Q_Set i k) = Some i"
| "popped_task _ = None"

text \<open>The task that a thread holds between \<open>pop\<close> and the queue.\<close>

definition holding :: "('k, 'r) yield_state \<Rightarrow> nat \<Rightarrow> nat option" where
  "holding s t = (case popped_task (enqueuers s t) of Some i \<Rightarrow> Some i | None \<Rightarrow> ready_task (callers (disp s) t))"

definition owned :: "('k, 'r) yield_state \<Rightarrow> nat list" where
  "owned s = inner_pool s @ run_tasks (running s) @ queue_tasks (disp s)"

definition owned_inv :: "('k, 'r) yield_state \<Rightarrow> bool" where
  "owned_inv s \<longleftrightarrow> distinct (owned s) \<and> (\<forall>i \<in> set (owned s). i < next_task s) \<and>
     (\<forall>t i. holding s t = Some i \<longrightarrow> i < next_task s \<and> i \<notin> set (owned s)) \<and>
     (\<forall>t t' i. holding s t = Some i \<longrightarrow> holding s t' = Some i \<longrightarrow> t = t') \<and>
     (\<forall>t. enqueuers s t \<noteq> Q_None \<longrightarrow> callers (disp s) t = Idle)"

definition callback_inv :: "('k, 'r) yield_state \<Rightarrow> bool" where
  "callback_inv s \<longleftrightarrow> (\<forall>i \<in> set (queue_tasks (disp s)). callbacks s i \<noteq> None) \<and>
     (\<forall>i \<in> set (inner_pool s @ run_tasks (running s)). callbacks s i = None) \<and>
     (\<forall>t i. ready_task (callers (disp s) t) = Some i \<longrightarrow> callbacks s i \<noteq> None) \<and>
     (running s = X_None \<or> (\<exists>batch. worker (disp s) = Wk_AfterRun batch)) \<and>
     (worker (disp s) = Wk_Exit \<longrightarrow> is_stopped (disp s))"

definition conts :: "('k, 'r) yield_state \<Rightarrow> 'k list" where
  "conts s = map (\<lambda>i. the (callbacks s i)) (queue_tasks (disp s))"

text \<open>The callbacks that the worker has taken out of their tasks.\<close>

definition started :: "('k, 'r) yield_state \<Rightarrow> 'k list" where
  "started s = called s @ current (running s)"

definition cont_inv :: "('k, 'r) yield_state \<Rightarrow> bool" where
  "cont_inv s \<longleftrightarrow>
     (worker (disp s) \<noteq> Wk_Outer \<and> worker (disp s) \<noteq> Wk_Exit \<or> \<not> is_stopped (disp s) \<longrightarrow>
        submitted s = started s @ conts s) \<and>
     (\<exists>dropped. submitted s = started s @ dropped)"

definition yield_inv :: "('k, 'r) yield_state \<Rightarrow> bool" where
  "yield_inv s \<longleftrightarrow> owned_inv s \<and> callback_inv s \<and> cont_inv s"

section \<open>Steps of the dispatcher on the tasks\<close>

lemma worker_step_next:
  assumes "worker_step (worker d) d = Some d'" "next_run (worker d) = Some i"
  shows "queue_tasks d = i # queue_tasks d'" "\<exists>batch. worker d' = Wk_AfterRun batch" "callers d' = callers d"
    "is_stopped d' = is_stopped d"
  by (use assms in \<open>cases "worker d" rule: next_run.cases; auto simp: queue_tasks_def\<close>)+

lemma worker_step_other:
  assumes "worker_step (worker d) d = Some d'" "next_run (worker d) = None"
  shows "queue_tasks d' = queue_tasks d \<or> is_stopped d \<and> worker d' = Wk_Outer \<and> (\<exists>xs. queue_tasks d = xs @ queue_tasks d')"
    "callers d' = callers d" "is_stopped d' = is_stopped d"
  by (use assms in \<open>cases "(worker d, d)" rule: worker_step.cases;
      auto simp: queue_tasks_def signal_wait_def elim!: next_run.elims split: if_splits\<close>)+

lemma caller_step_tasks:
  assumes "caller_step t (callers d t) d = Some d'"
  obtains (push) i pc' where "callers d t = Sc_Push (Yield_Task i)" "callers d' = (callers d)(t := pc')" "worker d' = worker d"
      "queue_tasks d' = queue_tasks d @ [i]" "ready_task pc' = None" "is_stopped d' = is_stopped d"
  | (other) pc' where "callers d' = (callers d)(t := pc')" "worker d' = worker d" "queue_tasks d' = queue_tasks d"
      "ready_task pc' = None \<or> ready_task pc' = ready_task (callers d t)" "is_stopped d \<Longrightarrow> is_stopped d'"
      "\<forall>i. callers d t \<noteq> Sc_Push (Yield_Task i)" "callers d t \<noteq> Idle"
proof (cases "\<exists>i. callers d t = Sc_Push (Yield_Task i)")
  case True
  then show ?thesis using assms push by (auto simp: queue_tasks_def)
next
  case False
  have entry: "ready_task (Sc_Push x) = ready_task (Sc_Check x)" "(\<forall>i. x \<noteq> Yield_Task i) \<Longrightarrow> tasks_of [x] = []" for x :: "'a entry"
    by (cases x; simp)+
  have "callers d' = (callers d)(t := callers d' t) \<and> worker d' = worker d \<and> queue_tasks d' = queue_tasks d \<and>
      (ready_task (callers d' t) = None \<or> ready_task (callers d' t) = ready_task (callers d t)) \<and>
      (is_stopped d \<longrightarrow> is_stopped d') \<and> callers d t \<noteq> Idle"
    using assms False
    by (cases "(t, callers d t, d)" rule: caller_step.cases)
       (auto simp: queue_tasks_def signal_release_def entry split: if_splits)
  then show ?thesis using other False by blast
qed

lemma pushed_callback_other: "\<forall>i. pc \<noteq> Sc_Push (Yield_Task i) \<Longrightarrow> pushed_callback cb pc = []"
  by (cases "(cb, pc)" rule: pushed_callback.cases) auto

section \<open>Preservation\<close>

lemma owned_inv_enqueuer:
  assumes "owned_inv s" "enqueue_step t (enqueuers s t) s = Some s'"
  shows "owned_inv s'"
proof (cases "enqueuers s t")
  case (Q_Pop k)
  have idle: "callers (disp s) t = Idle" using assms(1) Q_Pop by (simp add: owned_inv_def)
  have none: "holding s t = None" using Q_Pop idle by (simp add: holding_def)
  show ?thesis
  proof (cases "inner_pool s = []")
    case True
    then have s': "s' = s\<lparr>next_task := next_task s + 1, callbacks := (callbacks s)(next_task s := None),
        enqueuers := (enqueuers s)(t := Q_Set (next_task s) k)\<rparr>" using assms(2) Q_Pop by (simp add: pool_pop_def)
    have "holding s' u = (if u = t then Some (next_task s) else holding s u)" for u by (simp add: s' holding_def cong: option.case_cong)
    then show ?thesis using assms(1) idle by (auto simp: owned_inv_def s' owned_def less_Suc_eq)
  next
    case False
    then obtain xs i where pool: "inner_pool s = xs @ [i]" by (metis rev_exhaust)
    then have s': "s' = s\<lparr>inner_pool := xs, enqueuers := (enqueuers s)(t := Q_Set i k)\<rparr>" using assms(2) Q_Pop by (simp add: pool_pop_def)
    have "holding s' u = (if u = t then Some i else holding s u)" for u by (simp add: s' holding_def cong: option.case_cong)
    then show ?thesis using assms(1) idle pool by (auto simp: owned_inv_def s' owned_def)
  qed
next
  case (Q_Set i k)
  then have s': "s' = s\<lparr>callbacks := (callbacks s)(i := Some k), enqueuers := (enqueuers s)(t := Q_None),
      disp := set_caller t (Sc_Check (Yield_Task i)) (disp s)\<rparr>" using assms(2) by (simp add: task_set_def)
  have "holding s' u = holding s u" for u using Q_Set by (simp add: s' holding_def cong: option.case_cong)
  then show ?thesis using assms(1) by (auto simp: owned_inv_def s' owned_def queue_tasks_def)
qed (use assms(2) in simp)

lemma owned_inv_caller:
  assumes "owned_inv s" "caller_step t (callers (disp s) t) (disp s) = Some d"
  shows "owned_inv (s\<lparr>disp := d, submitted := x\<rparr>)"
  using assms(2)
proof (cases rule: caller_step_tasks)
  case (push i pc')
  let ?s = "s\<lparr>disp := d, submitted := x\<rparr>"
  have none: "enqueuers s t = Q_None" using assms(1) push(1) by (auto simp: owned_inv_def)
  then have "holding s t = Some i" using push(1) by (simp add: holding_def)
  moreover have "holding ?s u = (if u = t then None else holding s u)" for u
    using none push(2,5) by (simp add: holding_def cong: option.case_cong)
  moreover have "owned ?s = owned s @ [i]" using push(4) by (simp add: owned_def)
  ultimately show ?thesis using assms(1) push(2) none by (auto simp: owned_inv_def split: if_splits)
next
  case (other pc')
  let ?s = "s\<lparr>disp := d, submitted := x\<rparr>"
  have none: "enqueuers s t = Q_None" using assms(1) other(7) by (auto simp: owned_inv_def)
  have "holding ?s u = holding s u \<or> holding ?s u = None" for u
    using none other(1,4) by (cases "u = t") (auto simp: holding_def cong: option.case_cong)
  moreover have "owned ?s = owned s" using other(3) by (simp add: owned_def)
  ultimately show ?thesis using assms(1) other(1) none unfolding owned_inv_def
    by (auto split: if_splits) (metis option.distinct(1))+
qed

lemma owned_inv_shrink:
  assumes "owned_inv s" "enqueuers s' = enqueuers s" "callers (disp s') = callers (disp s)" "next_task s' = next_task s"
    "distinct (owned s')" "set (owned s') \<subseteq> set (owned s)"
  shows "owned_inv s'"
proof -
  have "holding s' u = holding s u" for u using assms(2,3) by (simp add: holding_def cong: option.case_cong)
  then show ?thesis using assms unfolding owned_inv_def by (metis subsetD)
qed

lemma owned_inv_step:
  assumes "owned_inv s" "callback_inv s" "yield_step s s'"
  shows "owned_inv s'"
  using assms(3)
proof cases
  case (enqueue_continuation t k)
  have "holding s' u = holding s u" for u
    using enqueue_continuation by (simp add: holding_def cong: option.case_cong)
  then show ?thesis using assms(1) enqueue_continuation by (auto simp: owned_inv_def owned_def)
next
  case (enqueuer t)
  then show ?thesis using assms(1) owned_inv_enqueuer by blast
next
  case (schedule_runner t r)
  then have "holding s' u = holding s u" for u by (simp add: holding_def cong: option.case_cong)
  then show ?thesis using assms(1) schedule_runner by (auto simp: owned_inv_def owned_def queue_tasks_def)
next
  case (dispose t self)
  then have "holding s' u = holding s u" for u by (simp add: holding_def cong: option.case_cong)
  then show ?thesis using assms(1) dispose by (auto simp: owned_inv_def owned_def queue_tasks_def)
next
  case (caller t d)
  then show ?thesis using owned_inv_caller [OF assms(1)] by simp
next
  case (worker d)
  have "distinct (owned s)" using assms(1) by (simp add: owned_inv_def)
  then have "distinct (owned s') \<and> set (owned s') \<subseteq> set (owned s)"
    using worker_step_other(1) [OF worker(3,4)] worker(1) by (auto simp: owned_def)
  then show ?thesis using worker worker_step_other(2) [OF worker(3,4)] by (intro owned_inv_shrink [OF assms(1)]) auto
next
  case (execute d i)
  then have "owned s' = inner_pool s @ i # queue_tasks d" "owned s = inner_pool s @ i # queue_tasks d"
    using worker_step_next(1) [OF execute(3,4)] by (auto simp: owned_def task_take_def split: option.splits)
  then show ?thesis
    using execute worker_step_next(3) [OF execute(3,4)] assms(1)
    by (intro owned_inv_shrink [OF assms(1)]) (auto simp: task_take_def owned_inv_def split: option.splits)
next
  case task
  then show ?thesis
    using assms(1)
    by (intro owned_inv_shrink [OF assms(1)]; cases "running s") (auto simp: owned_def task_clear_def pool_push_def owned_inv_def)
qed

lemma holding_ready:
  assumes "owned_inv s" "ready_task (callers (disp s) t) = Some i"
  shows "holding s t = Some i"
proof -
  have "callers (disp s) t \<noteq> Idle" using assms(2) by auto
  then have "enqueuers s t = Q_None" using assms(1) by (auto simp: owned_inv_def)
  then show ?thesis using assms(2) by (simp add: holding_def)
qed

lemma ready_not_owned:
  assumes "owned_inv s" "ready_task (callers (disp s) t) = Some i"
  shows "i < next_task s" "i \<notin> set (owned s)"
  using holding_ready [OF assms] assms(1) by (auto simp: owned_inv_def)

lemma worker_exit:
  "worker_step (worker d) d = Some d' \<Longrightarrow> worker d' = Wk_Exit \<Longrightarrow> is_stopped d'"
  by (cases "(worker d, d)" rule: worker_step.cases) (auto simp: signal_wait_def split: if_splits)

lemma ready_set: "callback_inv s \<Longrightarrow> ready_task (callers (disp s) t) = Some i \<Longrightarrow> \<exists>k. callbacks s i = Some k"
  by (auto simp: callback_inv_def)

lemma callback_inv_step:
  assumes "owned_inv s" "callback_inv s" "yield_step s s'"
  shows "callback_inv s'"
  using assms(3)
proof cases
  case (enqueuer t)
  show ?thesis
  proof (cases "enqueuers s t")
    case (Q_Pop k)
    have fresh: "next_task s \<notin> set (owned s)" "ready_task (callers (disp s) u) \<noteq> Some (next_task s)" for u
      using assms(1) ready_not_owned(1) [OF assms(1), of u] by (auto simp: owned_inv_def)
    show ?thesis
      using assms(2) enqueuer Q_Pop fresh in_set_butlastD [of _ "inner_pool s"]
      by (auto simp: callback_inv_def pool_pop_def owned_def split: if_splits)
  next
    case (Q_Set i k)
    then have "holding s t = Some i" by (simp add: holding_def)
    then have "i \<notin> set (owned s)" using assms(1) by (simp add: owned_inv_def)
    then show ?thesis
      using assms(2) enqueuer Q_Set by (auto simp: callback_inv_def task_set_def owned_def queue_tasks_def split: if_splits)
  qed (use enqueuer in simp)
next
  case (caller t d)
  from caller(2) show ?thesis
  proof (cases rule: caller_step_tasks)
    case (push i pc')
    then have "\<exists>k. callbacks s i = Some k" using ready_set [OF assms(2), of t i] by simp
    moreover have "ready_task (callers d u) = Some j \<Longrightarrow> \<exists>k. callbacks s j = Some k" for u j
      using push(2,5) ready_set [OF assms(2), of u j] by (auto split: if_splits)
    ultimately show ?thesis using assms(2) caller(1) push(3,4,6) unfolding callback_inv_def by auto
  next
    case (other pc')
    have "ready_task (callers d u) = Some j \<Longrightarrow> \<exists>k. callbacks s j = Some k" for u j
      using other(1,4) ready_set [OF assms(2), of u j] by (auto split: if_splits)
    then show ?thesis using assms(2) caller(1) other(2,3,5) unfolding callback_inv_def by auto
  qed
next
  case (worker d)
  then show ?thesis
    using assms(2) worker_step_other [OF worker(3,4)] by (auto simp: callback_inv_def dest: worker_exit)
next
  case (execute d i)
  have "i \<in> set (owned s)" "i \<notin> set (queue_tasks d)" "i \<notin> set (inner_pool s)"
    using assms(1) worker_step_next(1) [OF execute(3,4)] by (auto simp: owned_def owned_inv_def)
  moreover have "ready_task (callers (disp s) t) \<noteq> Some i" for t
    using ready_not_owned(2) [OF assms(1), of t i] \<open>i \<in> set (owned s)\<close> by blast
  ultimately show ?thesis
    using assms(2) execute worker_step_next [OF execute(3,4)] by (auto simp: callback_inv_def task_take_def split: option.splits)
next
  case task
  show ?thesis
  proof (cases "running s")
    case (X_Clear i)
    have "i \<in> set (owned s)" "i \<notin> set (queue_tasks (disp s))" using assms(1) X_Clear by (auto simp: owned_def owned_inv_def)
    moreover have "ready_task (callers (disp s) t) \<noteq> Some i" for t
      using ready_not_owned(2) [OF assms(1), of t i] \<open>i \<in> set (owned s)\<close> by blast
    ultimately show ?thesis using assms(2) task X_Clear by (auto simp: callback_inv_def task_clear_def)
  next
    case (X_Push i)
    then show ?thesis using assms(2) task by (auto simp: callback_inv_def pool_push_def)
  qed (use assms(2) task in \<open>auto simp: callback_inv_def\<close>)
qed (use assms(2) in \<open>auto simp: callback_inv_def queue_tasks_def\<close>)

lemma conts_cong:
  assumes "queue_tasks (disp s') = queue_tasks (disp s)" "\<And>i. i \<in> set (queue_tasks (disp s)) \<Longrightarrow> callbacks s' i = callbacks s i"
  shows "conts s' = conts s"
  using assms by (simp add: conts_def)

lemma cont_inv_same:
  assumes "cont_inv s" "submitted s' = submitted s" "started s' = started s" "conts s' = conts s"
    "worker (disp s') = worker (disp s)" "is_stopped (disp s') = is_stopped (disp s)"
  shows "cont_inv s'"
  using assms unfolding cont_inv_def by simp

lemma cont_inv_step:
  assumes "owned_inv s" "callback_inv s" "cont_inv s" "yield_step s s'"
  shows "cont_inv s'"
  using assms(4)
proof cases
  case (enqueuer t)
  have other: "i \<notin> set (queue_tasks (disp s))" if "holding s t = Some i \<or> i = next_task s" for i
    using assms(1) that by (auto simp: owned_inv_def owned_def)
  have "conts s' = conts s"
  proof (cases "enqueuers s t")
    case (Q_Pop k)
    then show ?thesis using enqueuer other [of "next_task s"] by (intro conts_cong) (auto simp: pool_pop_def split: if_splits)
  next
    case (Q_Set i k)
    then have "holding s t = Some i" by (simp add: holding_def)
    then show ?thesis
      using Q_Set enqueuer other [of i] by (intro conts_cong) (auto simp: task_set_def queue_tasks_def)
  qed (use enqueuer in simp)
  then show ?thesis
    using enqueuer
    by (intro cont_inv_same [OF assms(3)]; cases "enqueuers s t") (auto simp: pool_pop_def task_set_def started_def split: if_splits)
next
  case (caller t d)
  then have started: "started s' = started s" by (simp add: started_def)
  from caller(2) show ?thesis
  proof (cases rule: caller_step_tasks)
    case (push i pc')
    obtain k where k: "callbacks s i = Some k" using ready_set [OF assms(2), of t i] push(1) by auto
    have "conts s' = conts s @ [k]" using caller(1) push(4) k by (simp add: conts_def)
    then show ?thesis
      using assms(3) caller(1) push(1,3,6) k started unfolding cont_inv_def by auto
  next
    case (other pc')
    then have "conts s' = conts s" using caller(1) by (intro conts_cong) auto
    then show ?thesis
      using assms(3) caller(1) other(2,5) pushed_callback_other [OF other(6)] started unfolding cont_inv_def by auto
  qed
next
  case (worker d)
  have before: "worker (disp s) = Wk_Outer \<or> worker (disp s) = Wk_Exit \<Longrightarrow> is_stopped d \<Longrightarrow> worker d = Wk_Exit"
    using worker(3) worker_step_other(3) [OF worker(3,4)] by auto
  have started: "started s' = started s" using worker(1) by (simp add: started_def)
  from worker_step_other(1) [OF worker(3,4)] show ?thesis
  proof
    assume "queue_tasks d = queue_tasks (disp s)"
    then have "conts s' = conts s" using worker(1) by (intro conts_cong) auto
    then show ?thesis
      using assms(3) worker(1) before worker_step_other(3) [OF worker(3,4)] started unfolding cont_inv_def by auto
  next
    assume "is_stopped (disp s) \<and> worker d = Wk_Outer \<and> (\<exists>xs. queue_tasks (disp s) = xs @ queue_tasks d)"
    then show ?thesis
      using assms(3) worker(1) worker_step_other(3) [OF worker(3,4)] started unfolding cont_inv_def by auto
  qed
next
  case (execute d i)
  note next_run = worker_step_next [OF execute(3,4)]
  obtain k where k: "callbacks s i = Some k"
    using assms(2) next_run(1) by (fastforce simp: callback_inv_def)
  have "i \<notin> set (queue_tasks d)" using assms(1) next_run(1) by (auto simp: owned_def owned_inv_def)
  then have "conts s = k # conts s'" using next_run(1) k execute(1) by (auto simp: conts_def task_take_def)
  moreover have "worker (disp s) \<noteq> Wk_Outer \<and> worker (disp s) \<noteq> Wk_Exit" using execute(4) by auto
  ultimately show ?thesis
    using assms(3) execute(1,2) k unfolding cont_inv_def by (simp add: task_take_def started_def)
next
  case task
  show ?thesis
  proof (cases "running s")
    case (X_Clear i)
    have "i \<notin> set (queue_tasks (disp s))" using assms(1) X_Clear by (auto simp: owned_def owned_inv_def)
    then show ?thesis
      using task X_Clear by (intro cont_inv_same [OF assms(3)] conts_cong) (auto simp: task_clear_def started_def)
  qed (use task in \<open>auto simp: pool_push_def started_def intro!: cont_inv_same [OF assms(3)] conts_cong\<close>)
qed (rule cont_inv_same [OF assms(3)]; auto intro: conts_cong simp: queue_tasks_def started_def)+

lemma yield_inv_init: "yield_inv new_yield_state"
  by (simp add: yield_inv_def owned_inv_def callback_inv_def cont_inv_def started_def conts_def new_yield_state_def new_pool_def
      owned_def queue_tasks_def holding_def new_dispatcher_def)

lemma yield_inv_step: "yield_inv s \<Longrightarrow> yield_step s s' \<Longrightarrow> yield_inv s'"
  using owned_inv_step callback_inv_step cont_inv_step unfolding yield_inv_def by blast

interpretation yield: invariant_system "\<lambda>s. s = new_yield_state" yield_step yield_inv
  by unfold_locales (auto simp: yield_inv_init intro: yield_inv_step)

lemma yield_dispatcher_reach:
  assumes "yield_reach s"
  shows "dispatcher_reach (disp s)"
  using assms
proof (induction rule: reach.induct)
  case (reach_init s)
  then show ?case by (simp add: new_yield_state_def reach.reach_init)
next
  case (reach_step s s')
  have "enqueuers s t \<noteq> Q_None \<Longrightarrow> callers (disp s) t = Idle" for t
    using yield.reach_inv [OF reach_step.hyps(1)] by (auto simp: yield_inv_def owned_inv_def)
  from yield_refines_dispatcher [OF reach_step.hyps(2) this] show ?case
    using reach_step.IH by (auto intro: reach.reach_step)
qed

section \<open>Properties\<close>

text \<open>
  C19: a continuation is called exactly once and in order. The callbacks called or being called are always a
  prefix of the submitted ones, and the rest, as long as the dispatcher is not stopped, are those of the tasks
  in its batch and its queue. When the worker sleeps without a signal and no call is under way, every
  submitted callback has been called.
\<close>

theorem continuations_run_once_in_order:
  assumes "yield_reach s"
  shows "(\<exists>rest. submitted s = called s @ current (running s) @ rest) \<and>
    (\<not> is_stopped (disp s) \<longrightarrow> submitted s = called s @ current (running s) @ map (\<lambda>i. the (callbacks s i)) (queue_tasks (disp s))) \<and>
    ((\<forall>t. callers (disp s) t = Idle) \<and> worker (disp s) = Wk_Wait \<and> \<not> is_signaled (disp s) \<longrightarrow> called s = submitted s)"
proof -
  have inv: "cont_inv s" "callback_inv s" using yield.reach_inv [OF assms] by (simp_all add: yield_inv_def)
  have "called s = submitted s" if "\<forall>t. callers (disp s) t = Idle" "worker (disp s) = Wk_Wait" "\<not> is_signaled (disp s)"
  proof -
    have "scheduled_actors (disp s) = [] \<and> \<not> is_stopped (disp s)"
      using dispatcher.reach_inv [OF yield_dispatcher_reach [OF assms]] that
      by (auto simp: dispatcher_inv_def dispatcher_parts some_at_def)
    moreover have "running s = X_None" using inv(2) that(2) by (auto simp: callback_inv_def)
    ultimately show ?thesis using inv(1) that(2) by (simp add: cont_inv_def started_def conts_def queue_tasks_def)
  qed
  then show ?thesis using inv(1) by (auto simp: cont_inv_def started_def conts_def)
qed

text \<open>
  A yield task has one owner. At every moment each task is at most once in the pool, in the hands
  of the worker, in the dispatcher's queue or with a thread that is enqueueing it, and never in two of these
  places; a task in the pool has no callback left, and a task in the queue has one.
\<close>

theorem yield_task_has_one_owner:
  assumes "yield_reach s"
  shows "distinct (inner_pool s @ run_tasks (running s) @ queue_tasks (disp s)) \<and>
    (\<forall>t i. holding s t = Some i \<longrightarrow> i \<notin> set (inner_pool s @ run_tasks (running s) @ queue_tasks (disp s))) \<and>
    (\<forall>t t' i. holding s t = Some i \<and> holding s t' = Some i \<longrightarrow> t = t') \<and>
    (\<forall>i \<in> set (inner_pool s). callbacks s i = None) \<and> (\<forall>i \<in> set (queue_tasks (disp s)). callbacks s i \<noteq> None)"
  using yield.reach_inv [OF assms] unfolding yield_inv_def owned_inv_def callback_inv_def owned_def by auto

text \<open>Two threads enqueue a continuation each; the worker runs both; a third one reuses a task.\<close>

definition act :: "(('k, 'r) yield_state \<Rightarrow> ('k, 'r) yield_state option) \<Rightarrow> nat \<Rightarrow> ('k, 'r) yield_state \<Rightarrow> ('k, 'r) yield_state" where
  "act f n s = (advance f ^^ n) s"

definition yield_call :: "nat \<Rightarrow> ('k, 'r) yield_state \<Rightarrow> ('k, 'r) yield_state option" where
  "yield_call t s = (if enqueuers s t \<noteq> Q_None then enqueue_step t (enqueuers s t) s
     else map_option (\<lambda>d. s\<lparr>disp := d, submitted := submitted s @ pushed_callback (callbacks s) (callers (disp s) t)\<rparr>)
       (caller_step t (callers (disp s) t) (disp s)))"

definition yield_work :: "('k, 'r) yield_state \<Rightarrow> ('k, 'r) yield_state option" where
  "yield_work s = (if running s \<noteq> X_None then task_step (running s) s
     else map_option (\<lambda>d. case next_run (worker (disp s)) of None \<Rightarrow> s\<lparr>disp := d\<rparr> | Some i \<Rightarrow> task_take i (s\<lparr>disp := d\<rparr>))
       (worker_step (worker (disp s)) (disp s)))"

definition continuation :: "nat \<Rightarrow> 'k \<Rightarrow> ('k, 'r) yield_state \<Rightarrow> ('k, 'r) yield_state" where
  "continuation t k s = act (yield_call t) 6 (s\<lparr>enqueuers := (enqueuers s)(t := Q_Pop k)\<rparr>)"

lemma act_reach:
  "yield_reach s \<Longrightarrow> yield_reach (act (yield_call t) n s)" "yield_reach s \<Longrightarrow> yield_reach (act yield_work n s)"
  unfolding act_def
  by (rule reach_funpow, assumption, auto simp: advance_def yield_call_def yield_work_def split: option.splits if_splits intro: yield_step.intros)+

lemma continuation_reach:
  "yield_reach s \<Longrightarrow> enqueuers s t = Q_None \<Longrightarrow> callers (disp s) t = Idle \<Longrightarrow> yield_reach (continuation t k s)"
  unfolding continuation_def by (rule act_reach(1), erule reach_step, rule yield_step.enqueue_continuation)

lemma act_simps: "act f 0 s = s" "act f (Suc n) s = act f n (advance f s)"
  by (simp_all add: act_def funpow_Suc_right del: funpow.simps)

lemmas yield_simps = continuation_def act_simps yield_call_def yield_work_def advance_def numeral_eq_Suc signal_release_def signal_wait_def
  task_set_def pool_pop_def task_take_def task_clear_def pool_push_def set_caller_def fun_upd_idem_iff

definition two_continuations :: "(nat, unit) yield_state" where
  "two_continuations = continuation 1 8 (continuation 0 7 new_yield_state)"

lemma two_continuations_eq:
  "two_continuations = \<lparr>disp = new_dispatcher\<lparr>scheduled_actors := [Yield_Task 0, Yield_Task 1], is_signaled := True, signal_pending := 1,
       pushed := [Yield_Task 0, Yield_Task 1]\<rparr>, inner_pool = [], callbacks = (\<lambda>_. None)(0 := Some 7, 1 := Some 8), next_task = 2,
     enqueuers = (\<lambda>_. Q_None), running = X_None, submitted = [7, 8], called = []\<rparr>"
proof -
  have one: "continuation 0 7 new_yield_state = \<lparr>disp = new_dispatcher\<lparr>scheduled_actors := [Yield_Task 0], is_signaled := True, signal_pending := 1,
       pushed := [Yield_Task 0 :: unit entry]\<rparr>, inner_pool = [], callbacks = (\<lambda>_. None)(0 := Some (7 :: nat)), next_task = 1,
     enqueuers = (\<lambda>_. Q_None), running = X_None, submitted = [7], called = []\<rparr>"
    by (simp add: yield_simps new_yield_state_def new_pool_def new_dispatcher_def)
  show ?thesis unfolding two_continuations_def one by (simp add: yield_simps new_dispatcher_def)
qed

lemma two_continuations_reach: "yield_reach two_continuations"
  unfolding two_continuations_def
  by (intro continuation_reach reach_init) (simp_all add: yield_simps new_yield_state_def new_pool_def new_dispatcher_def)

text \<open>The worker has called the first callback and not yet recycled its task, and later has run both tasks.\<close>

theorem continuations_run_once_in_order_witness:
  "called (act yield_work 17 two_continuations) = [7, 8] \<and> inner_pool (act yield_work 17 two_continuations) = [0, 1]"
proof -
  let ?s = "act yield_work 17 two_continuations"
  have "callers (disp ?s) t = Idle \<and> worker (disp ?s) = Wk_Wait \<and> \<not> is_signaled (disp ?s) \<and> submitted ?s = [7, 8] \<and> inner_pool ?s = [0, 1]" for t
    by (simp add: two_continuations_eq yield_simps new_dispatcher_def)
  then show ?thesis
    using continuations_run_once_in_order [OF act_reach(2) [OF two_continuations_reach], of 17] by simp
qed

theorem yield_task_has_one_owner_witness:
  "distinct (inner_pool (act yield_work 6 two_continuations) @ run_tasks (running (act yield_work 6 two_continuations)) @
     queue_tasks (disp (act yield_work 6 two_continuations))) \<and> run_tasks (running (act yield_work 6 two_continuations)) = [0]"
proof -
  have "run_tasks (running (act yield_work 6 two_continuations)) = [0]"
    by (simp add: two_continuations_eq yield_simps new_dispatcher_def)
  then show ?thesis using yield_task_has_one_owner [OF act_reach(2) [OF two_continuations_reach], of 6] by simp
qed

end
