(* ===== verification/Poll_Driver.thy ===== *)
theory Poll_Driver
  imports Prelude
begin

text \<open>
  The future driver of \<^verbatim>\<open>poll_driver.rs\<close>: the slot with the stored future and its completion
  callback, and the two flags. Each operation is a composition of its atomic accesses, which the
  interleaved model of the actor runner uses one at a time. The future itself is user code: \<open>poll\<close>
  takes what it does as a parameter, which says for a future whether it woke its waker during the
  call and how the call ended.
\<close>

section \<open>Data\<close>

datatype poll_outcome = Poll_Ready | Poll_Pending | Poll_Failed | Poll_Idle

record ('f, 'c) poll_driver =
  is_active :: bool
  is_poll_scheduled :: bool
  driver_slot :: "('f \<times> 'c option) option"

datatype 'f future_result = Future_Pending 'f | Future_Ready | Future_Panicked

definition new_driver :: "('f, 'c) poll_driver" where
  "new_driver = \<lparr>is_active = False, is_poll_scheduled = False, driver_slot = None\<rparr>"

section \<open>Atomic accesses\<close>

definition pd_store_active :: "bool \<Rightarrow> ('f, 'c) poll_driver \<Rightarrow> ('f, 'c) poll_driver" where
  "pd_store_active b d = d\<lparr>is_active := b\<rparr>"

definition pd_store_scheduled :: "bool \<Rightarrow> ('f, 'c) poll_driver \<Rightarrow> ('f, 'c) poll_driver" where
  "pd_store_scheduled b d = d\<lparr>is_poll_scheduled := b\<rparr>"

definition pd_store_slot :: "('f \<times> 'c option) option \<Rightarrow> ('f, 'c) poll_driver \<Rightarrow> ('f, 'c) poll_driver" where
  "pd_store_slot x d = d\<lparr>driver_slot := x\<rparr>"

text \<open>The compare-and-exchange of \<open>try_mark_poll_scheduled\<close>.\<close>

definition pd_mark :: "('f, 'c) poll_driver \<Rightarrow> bool \<times> ('f, 'c) poll_driver" where
  "pd_mark d = (if is_poll_scheduled d then (False, d) else (True, pd_store_scheduled True d))"

section \<open>Operations\<close>

definition arm :: "'f \<Rightarrow> 'c option \<Rightarrow> ('f, 'c) poll_driver \<Rightarrow> ('f, 'c) poll_driver" where
  "arm future on_complete d =
     pd_store_scheduled False (pd_store_active True (pd_store_slot (Some (future, on_complete)) d))"

definition clear_driver :: "('f, 'c) poll_driver \<Rightarrow> ('f, 'c) poll_driver" where
  "clear_driver d = pd_store_scheduled False (pd_store_active False (pd_store_slot None d))"

definition try_mark_poll_scheduled :: "('f, 'c) poll_driver \<Rightarrow> bool \<times> ('f, 'c) poll_driver" where
  "try_mark_poll_scheduled d = (if \<not> is_active d then (False, d) else pd_mark d)"

text \<open>
  \<open>poll\<close> returns the outcome, the completion callback it calls, and whether a wake during the call
  marked the driver as scheduled (in which case the waker has put an entry into a dispatcher).
\<close>

definition poll ::
    "('f \<Rightarrow> bool \<times> 'f future_result) \<Rightarrow> ('f, 'c) poll_driver
     \<Rightarrow> poll_outcome \<times> 'c option \<times> bool \<times> ('f, 'c) poll_driver" where
  "poll run_future d0 =
     (let d1 = pd_store_scheduled False d0 in
      case driver_slot d1 of
        None \<Rightarrow> (Poll_Idle, None, False, pd_store_active False d1)
      | Some (future, on_complete) \<Rightarrow>
          (let (woken, r) = run_future future;
               (marked, d2) = (if woken then try_mark_poll_scheduled d1 else (False, d1)) in
           case r of
             Future_Pending future' \<Rightarrow>
               (Poll_Pending, None, marked, pd_store_slot (Some (future', on_complete)) d2)
           | Future_Ready \<Rightarrow>
               (Poll_Ready, on_complete, marked,
                pd_store_scheduled False (pd_store_active False (pd_store_slot None d2)))
           | Future_Panicked \<Rightarrow>
               (Poll_Failed, None, marked,
                pd_store_scheduled False (pd_store_active False (pd_store_slot None d2)))))"

lemmas pd_defs = pd_store_active_def pd_store_scheduled_def pd_store_slot_def pd_mark_def
  arm_def clear_driver_def try_mark_poll_scheduled_def

section \<open>Invariant and behaviour\<close>

text \<open>Between operations the driver is active exactly when a future is stored.\<close>

definition driver_ok :: "('f, 'c) poll_driver \<Rightarrow> bool" where
  "driver_ok d \<longleftrightarrow> (is_active d \<longleftrightarrow> driver_slot d \<noteq> None)"

fun poll_times ::
    "('f \<Rightarrow> bool \<times> 'f future_result) \<Rightarrow> nat \<Rightarrow> ('f, 'c) poll_driver \<Rightarrow> (poll_outcome \<times> 'c option) list" where
  "poll_times run_future 0 d = []"
| "poll_times run_future (Suc n) d =
     (let (outcome, callback, marked, d') = poll run_future d
      in (outcome, callback) # poll_times run_future n d')"

lemma driver_ok_ops:
  "driver_ok new_driver" "driver_ok (arm future on_complete d)" "driver_ok (clear_driver d)"
  "driver_ok d \<Longrightarrow> driver_ok (snd (try_mark_poll_scheduled d))"
  by (auto simp: driver_ok_def new_driver_def pd_defs)

lemma driver_ok_poll: "driver_ok d \<Longrightarrow> poll run_future d = (o', cb, mk, d') \<Longrightarrow> driver_ok d'"
  by (auto simp: poll_def driver_ok_def pd_defs Let_def split: option.splits prod.splits future_result.splits if_splits)

lemma poll_idle:
  assumes "driver_slot d = None"
  shows "poll run_future d = (Poll_Idle, None, False, d\<lparr>is_active := False, is_poll_scheduled := False\<rparr>)"
  using assms by (simp add: poll_def pd_defs Let_def)

lemma poll_times_idle:
  assumes "driver_slot d = None"
  shows "poll_times run_future n d = replicate n (Poll_Idle, None)"
  using assms by (induction n arbitrary: d) (simp_all add: poll_idle)

lemma poll_finished_slot:
  assumes "poll run_future d = (outcome, cb, mk, d')" "outcome \<noteq> Poll_Pending"
  shows "driver_slot d' = None"
  using assms
  by (auto simp: poll_def pd_defs Let_def split: option.splits prod.splits future_result.splits if_splits)

text \<open>
  However often a stored future is polled, the polls return \<open>Pending\<close> until the future ends,
  then once \<open>Ready\<close> with the completion callback or once \<open>Failed\<close> without it, and after that only
  \<open>Idle\<close>: the callback is never called twice and a finished future is never polled again.
\<close>

theorem poll_completes_once:
  assumes "driver_slot d = Some (future, Some callback)"
  shows "\<exists>k. poll_times run_future n d = replicate n (Poll_Pending, None) \<or>
     (k < n \<and> (poll_times run_future n d =
          replicate k (Poll_Pending, None) @ (Poll_Ready, Some callback) # replicate (n - Suc k) (Poll_Idle, None)
        \<or> poll_times run_future n d =
          replicate k (Poll_Pending, None) @ (Poll_Failed, None) # replicate (n - Suc k) (Poll_Idle, None)))"
  using assms
proof (induction n arbitrary: d future)
  case (Suc n)
  obtain outcome cb mk d' where p: "poll run_future d = (outcome, cb, mk, d')"
    by (metis prod_cases4)
  consider (pending) future' where "outcome = Poll_Pending" "cb = None" "driver_slot d' = Some (future', Some callback)"
    | (ready) "outcome = Poll_Ready" "cb = Some callback" "driver_slot d' = None"
    | (failed) "outcome = Poll_Failed" "cb = None" "driver_slot d' = None"
    using p Suc.prems
    by (auto simp: poll_def pd_defs Let_def split: prod.splits future_result.splits if_splits)
  then show ?case
  proof cases
    case pending
    from Suc.IH [OF pending(3)] obtain k where
      "poll_times run_future n d' = replicate n (Poll_Pending, None) \<or>
     (k < n \<and> (poll_times run_future n d' =
          replicate k (Poll_Pending, None) @ (Poll_Ready, Some callback) # replicate (n - Suc k) (Poll_Idle, None)
        \<or> poll_times run_future n d' =
          replicate k (Poll_Pending, None) @ (Poll_Failed, None) # replicate (n - Suc k) (Poll_Idle, None)))"
      by blast
    then show ?thesis
      using p pending by (intro exI [of _ "Suc k"]) auto
  next
    case ready
    then show ?thesis
      using p by (intro exI [of _ 0]) (simp add: poll_times_idle)
  next
    case failed
    then show ?thesis
      using p by (intro exI [of _ 0]) (simp add: poll_times_idle)
  qed
qed simp

definition countdown :: "nat \<Rightarrow> bool \<times> nat future_result" where
  "countdown n = (False, if n = 0 then Future_Ready else Future_Pending (n - 1))"

theorem poll_completes_once_witness:
  "poll_times countdown 4 (arm 2 (Some ''done'') new_driver) =
     [(Poll_Pending, None), (Poll_Pending, None), (Poll_Ready, Some ''done''), (Poll_Idle, None)] \<and>
   (\<exists>k. k < 4 \<and> poll_times countdown 4 (arm 2 (Some ''done'') new_driver) =
      replicate k (Poll_Pending, None) @ (Poll_Ready, Some ''done'') # replicate (4 - Suc k) (Poll_Idle, None))"
proof -
  have run: "poll_times countdown 4 (arm 2 (Some ''done'') new_driver) =
     [(Poll_Pending, None), (Poll_Pending, None), (Poll_Ready, Some ''done''), (Poll_Idle, None)]"
    by (simp add: numeral_eq_Suc poll_def pd_defs new_driver_def countdown_def Let_def)
  have "driver_slot (arm 2 (Some ''done'') new_driver) = Some (2::nat, Some ''done'')"
    by (simp add: pd_defs)
  from poll_completes_once [OF this, of countdown 4] show ?thesis
    using run by (auto simp: numeral_eq_Suc Cons_eq_append_conv)
qed

end
