(* ===== verification/Fifo_Spec.thy ===== *)
theory Fifo_Spec
  imports Prelude
begin

text \<open>
  What a bounded first-in-first-out queue promises to its clients: an abstract list of items, a
  bound on its length, and the result of every operation in terms of that list. The locale is
  interpreted in \<open>Mpsc_Queue\<close> on the ring queue of the repository. \<open>run_ops\<close> runs any sequence of
  operations against an implementation and \<open>spec_ops\<close> the same sequence against the list; the
  locale shows that their observable results agree.
\<close>

datatype 'a fifo_op = Enq 'a | Deq | Peek

datatype 'a fifo_out = Enq_Out bool | Deq_Out "'a option" | Peek_Out bool

fun run_ops ::
    "('q \<Rightarrow> 'a \<Rightarrow> (bool \<times> 'q) result option) \<Rightarrow> ('q \<Rightarrow> ('a option \<times> 'q) result) \<Rightarrow> ('q \<Rightarrow> bool result)
     \<Rightarrow> 'q \<Rightarrow> 'a fifo_op list \<Rightarrow> 'a fifo_out list result option" where
  "run_ops enq deq peek q [] = Some (Inr [])"
| "run_ops enq deq peek q (Enq x # ops) =
     (case enq q x of
        None \<Rightarrow> None
      | Some (Inl e) \<Rightarrow> Some (Inl e)
      | Some (Inr (b, q')) \<Rightarrow>
          map_option (map_sum id (\<lambda>outs. Enq_Out b # outs)) (run_ops enq deq peek q' ops))"
| "run_ops enq deq peek q (Deq # ops) =
     (case deq q of
        Inl e \<Rightarrow> Some (Inl e)
      | Inr (r, q') \<Rightarrow>
          map_option (map_sum id (\<lambda>outs. Deq_Out r # outs)) (run_ops enq deq peek q' ops))"
| "run_ops enq deq peek q (Peek # ops) =
     (case peek q of
        Inl e \<Rightarrow> Some (Inl e)
      | Inr b \<Rightarrow> map_option (map_sum id (\<lambda>outs. Peek_Out b # outs)) (run_ops enq deq peek q ops))"

fun spec_ops :: "nat \<Rightarrow> 'a list \<Rightarrow> 'a fifo_op list \<Rightarrow> 'a fifo_out list" where
  "spec_ops n xs [] = []"
| "spec_ops n xs (Enq x # ops) =
     (if length xs < n then Enq_Out True # spec_ops n (xs @ [x]) ops
      else Enq_Out False # spec_ops n xs ops)"
| "spec_ops n [] (Deq # ops) = Deq_Out None # spec_ops n [] ops"
| "spec_ops n (y # ys) (Deq # ops) = Deq_Out (Some y) # spec_ops n ys ops"
| "spec_ops n xs (Peek # ops) = Peek_Out (xs \<noteq> []) # spec_ops n xs ops"

locale bounded_fifo =
  fixes invar :: "'q \<Rightarrow> bool"
    and items :: "'q \<Rightarrow> 'a list"
    and bound :: "'q \<Rightarrow> nat"
    and enq :: "'q \<Rightarrow> 'a \<Rightarrow> (bool \<times> 'q) result option"
    and deq :: "'q \<Rightarrow> ('a option \<times> 'q) result"
    and peek :: "'q \<Rightarrow> bool result"
  assumes within_bound: "invar q \<Longrightarrow> length (items q) \<le> bound q"
    and enq_space: "invar q \<Longrightarrow> length (items q) < bound q \<Longrightarrow>
      \<exists>q'. enq q x = Some (Inr (True, q')) \<and> invar q' \<and> items q' = items q @ [x] \<and> bound q' = bound q"
    and enq_full: "invar q \<Longrightarrow> length (items q) = bound q \<Longrightarrow> enq q x = Some (Inr (False, q))"
    and deq_empty: "invar q \<Longrightarrow> items q = [] \<Longrightarrow> deq q = Inr (None, q)"
    and deq_cons: "invar q \<Longrightarrow> items q = y # ys \<Longrightarrow>
      \<exists>q'. deq q = Inr (Some y, q') \<and> invar q' \<and> items q' = ys \<and> bound q' = bound q"
    and peek_nonempty: "invar q \<Longrightarrow> peek q = Inr (items q \<noteq> [])"
begin

lemma run_ops_spec:
  assumes "invar q"
  shows "run_ops enq deq peek q ops = Some (Inr (spec_ops (bound q) (items q) ops))"
  using assms
proof (induction ops arbitrary: q)
  case Nil
  then show ?case by simp
next
  case (Cons op ops)
  show ?case
  proof (cases op)
    case (Enq x)
    show ?thesis
    proof (cases "length (items q) < bound q")
      case True
      with enq_space [OF Cons.prems, of x] Cons.IH Enq show ?thesis by auto
    next
      case False
      then have "length (items q) = bound q"
        using within_bound [OF Cons.prems] by simp
      with enq_full [OF Cons.prems] Cons.IH [OF Cons.prems] Enq show ?thesis by simp
    qed
  next
    case Deq
    then show ?thesis
      using Cons.IH Cons.prems deq_empty [OF Cons.prems] deq_cons [OF Cons.prems]
      by (cases "items q") auto
  next
    case Peek
    then show ?thesis
      using Cons.IH [OF Cons.prems] peek_nonempty [OF Cons.prems] by (cases "items q") auto
  qed
qed

end

end
