(* ===== verification/Mpsc_Queue.thy ===== *)
theory Mpsc_Queue
  imports Fifo_Spec
begin

text \<open>
  The bounded ring queue of \<^verbatim>\<open>queues/mpsc_bounded_queue.rs\<close>, one call at a time: the record of
  the queue, the constructor with its normalisation loop, and the operations as a single caller
  runs them. Positions and sequence numbers are 64-bit words with wrap-around, so every theorem
  of this theory also covers the wrap of the counters. A read of uninitialised slot data and a
  slot index outside the buffer are the results \<open>Uninit_Read\<close> and \<open>Index_Out_Of_Bounds\<close>. The
  interleaving of several producers is the subject of the theory \<open>Mpsc_Concurrent\<close>.
\<close>

section \<open>Data\<close>

record 'a slot =
  slot_sequence :: i64
  slot_data :: "'a option"

record 'a mpsc_queue =
  buffer :: "'a slot list"
  queue_capacity :: usize
  producer_index :: i64
  consumer_index :: i64
  index_mask :: usize

section \<open>Construction\<close>

definition checked_mul_usize :: "usize \<Rightarrow> usize \<Rightarrow> usize option" where
  "checked_mul_usize a b = (if unat a * unat b < 2 ^ 64 then Some (a * b) else None)"

partial_function (option) normalize_loop :: "usize \<Rightarrow> usize \<Rightarrow> usize result option" where
  "normalize_loop capacity normalized =
     (if normalized < capacity
      then (case checked_mul_usize normalized 2 of
              None \<Rightarrow> Some (Inl Capacity_Overflow)
            | Some doubled \<Rightarrow> normalize_loop capacity doubled)
      else Some (Inr normalized))"

definition normalize_to_power_of_two :: "usize \<Rightarrow> usize result option" where
  "normalize_to_power_of_two capacity = normalize_loop capacity 1"

definition init_slots :: "usize \<Rightarrow> 'a slot list" where
  "init_slots n = map (\<lambda>i. \<lparr>slot_sequence = of_nat i, slot_data = None\<rparr>) [0..<unat n]"

definition new_queue :: "usize \<Rightarrow> 'a mpsc_queue result option" where
  "new_queue capacity =
     (if capacity < 2 then Some (Inl Capacity_Too_Small)
      else (case normalize_to_power_of_two capacity of
              None \<Rightarrow> None
            | Some (Inl e) \<Rightarrow> Some (Inl e)
            | Some (Inr n) \<Rightarrow>
                Some (Inr \<lparr>buffer = init_slots n, queue_capacity = n, producer_index = 0,
                           consumer_index = 0, index_mask = n - 1\<rparr>)))"

section \<open>Operations\<close>

definition slot_index :: "'a mpsc_queue \<Rightarrow> i64 \<Rightarrow> nat" where
  "slot_index q position = unat (position AND index_mask q)"

text \<open>
  One pass of the loop of \<open>try_enqueue\<close>. \<open>Inr None\<close> is \<open>continue\<close> (a failed exchange, or a
  slot whose sequence is ahead of the position); \<open>Inr (Some (b, q'))\<close> returns \<open>b\<close>. With a single
  caller the exchange compares the producer index with itself.
\<close>

definition enqueue_iteration ::
    "'a mpsc_queue \<Rightarrow> 'a \<Rightarrow> (bool \<times> 'a mpsc_queue) option result" where
  "enqueue_iteration q item =
     (let position = producer_index q; i = slot_index q position in
      if length (buffer q) \<le> i then Inl Index_Out_Of_Bounds
      else
        let difference = slot_sequence (buffer q ! i) - position in
        if difference = 0 then
          (if producer_index q \<noteq> position then Inr None
           else Inr (Some (True,
             q\<lparr>producer_index := position + 1,
               buffer := (buffer q)[i := \<lparr>slot_sequence = position + 1, slot_data = Some item\<rparr>]\<rparr>)))
        else if sint difference < 0 then Inr (Some (False, q))
        else Inr None)"

partial_function (option) try_enqueue ::
    "'a mpsc_queue \<Rightarrow> 'a \<Rightarrow> (bool \<times> 'a mpsc_queue) result option" where
  "try_enqueue q item =
     (case enqueue_iteration q item of
        Inl e \<Rightarrow> Some (Inl e)
      | Inr r \<Rightarrow> (case r of Some out \<Rightarrow> Some (Inr out) | None \<Rightarrow> try_enqueue q item))"

definition try_dequeue :: "'a mpsc_queue \<Rightarrow> ('a option \<times> 'a mpsc_queue) result" where
  "try_dequeue q =
     (let position = consumer_index q; i = slot_index q position in
      if length (buffer q) \<le> i then Inl Index_Out_Of_Bounds
      else
        let slot = buffer q ! i;
            difference = slot_sequence slot - (position + 1) in
        if difference = 0 then
          (case slot_data slot of
             None \<Rightarrow> Inl Uninit_Read
           | Some item \<Rightarrow> Inr (Some item,
               q\<lparr>buffer := (buffer q)[i := \<lparr>slot_sequence = position + queue_capacity q,
                                            slot_data = None\<rparr>],
                 consumer_index := position + 1\<rparr>))
        else Inr (None, q))"

definition try_peek :: "'a mpsc_queue \<Rightarrow> bool result" where
  "try_peek q =
     (let position = consumer_index q; i = slot_index q position in
      if length (buffer q) \<le> i then Inl Index_Out_Of_Bounds
      else Inr (slot_sequence (buffer q ! i) - (position + 1) = 0))"

text \<open>The loop \<open>while self.try_dequeue().is_some() {}\<close> of the destructor.\<close>

partial_function (option) drop_queue :: "'a mpsc_queue \<Rightarrow> 'a mpsc_queue result option" where
  "drop_queue q =
     (case try_dequeue q of
        Inl e \<Rightarrow> Some (Inl e)
      | Inr (item, q') \<Rightarrow> (case item of None \<Rightarrow> Some (Inr q') | Some _ \<Rightarrow> drop_queue q'))"

section \<open>Contents and invariant\<close>

definition pending_count :: "'a mpsc_queue \<Rightarrow> nat" where
  "pending_count q = unat (producer_index q - consumer_index q)"

definition slot_at :: "'a mpsc_queue \<Rightarrow> nat \<Rightarrow> 'a slot" where
  "slot_at q j = buffer q ! ((unat (consumer_index q) + j) mod length (buffer q))"

definition contents :: "'a mpsc_queue \<Rightarrow> 'a list" where
  "contents q = map (\<lambda>j. the (slot_data (slot_at q j))) [0..<pending_count q]"

definition ring_shape :: "nat \<Rightarrow> 'a mpsc_queue \<Rightarrow> bool" where
  "ring_shape k q \<longleftrightarrow> 1 \<le> k \<and> k \<le> 63 \<and> queue_capacity q = 2 ^ k \<and> index_mask q = 2 ^ k - 1
     \<and> length (buffer q) = 2 ^ k"

definition slots_ok :: "'a mpsc_queue \<Rightarrow> bool" where
  "slots_ok q \<longleftrightarrow> (\<forall>j<length (buffer q).
     let p = consumer_index q + of_nat j in
     if j < pending_count q
     then slot_sequence (slot_at q j) = p + 1 \<and> slot_data (slot_at q j) \<noteq> None
     else slot_sequence (slot_at q j) = p \<and> slot_data (slot_at q j) = None)"

definition queue_inv :: "'a mpsc_queue \<Rightarrow> bool" where
  "queue_inv q \<longleftrightarrow> (\<exists>k\<in>{1..63}. ring_shape k q) \<and> pending_count q \<le> length (buffer q) \<and> slots_ok q"

section \<open>The constructor\<close>

lemma unat_two_power [word_idx]: "i < 64 \<Longrightarrow> unat ((2::u64) ^ i) = 2 ^ i"
  using unat_of_nat [of "2 ^ i", where ?'a = 64] power_strict_increasing [of i 64 "2::nat"] by simp

lemma checked_mul_two_power:
  assumes "i \<le> 63"
  shows "checked_mul_usize (2 ^ i) 2 = (if i < 63 then Some (2 ^ Suc i) else None)"
proof -
  have "unat ((2::u64) ^ i) * unat (2::u64) = 2 ^ Suc i"
    using assms by (simp add: unat_two_power)
  moreover have "(2::nat) ^ Suc i < 2 ^ 64 \<longleftrightarrow> i < 63"
    by (simp only: power_strict_increasing_iff) auto
  ultimately show ?thesis
    by (simp add: checked_mul_usize_def mult.commute)
qed

lemma normalize_loop_stop:
  assumes "\<not> normalized < capacity"
  shows "normalize_loop capacity normalized = Some (Inr normalized)"
  using assms by (subst normalize_loop.simps) simp

lemma normalize_loop_double:
  assumes "i \<le> 63" "2 ^ i < unat capacity"
  shows "normalize_loop capacity (2 ^ i) =
    (if i < 63 then normalize_loop capacity (2 ^ Suc i) else Some (Inl Capacity_Overflow))"
proof -
  have "(2::u64) ^ i < capacity"
    using assms by (simp add: word_less_nat_alt unat_two_power)
  then show ?thesis
    using assms(1) by (subst normalize_loop.simps) (simp add: checked_mul_two_power)
qed

lemma normalize_loop_finds:
  assumes "i \<le> k" "k \<le> 63" "unat capacity \<le> 2 ^ k" "\<forall>m<k. 2 ^ m < unat capacity"
  shows "normalize_loop capacity (2 ^ i) = Some (Inr (2 ^ k))"
  using assms(1)
proof (induction "k - i" arbitrary: i)
  case 0
  then have "i = k" by simp
  moreover have "\<not> (2::u64) ^ k < capacity"
    using assms(2,3) by (simp add: word_less_nat_alt unat_two_power)
  ultimately show ?case by (simp add: normalize_loop_stop)
next
  case (Suc n)
  then have i: "i < k" "i < 63" using assms(2) by auto
  then have "normalize_loop capacity (2 ^ i) = normalize_loop capacity (2 ^ Suc i)"
    using assms(4) by (subst normalize_loop_double) auto
  then show ?case
    using Suc.hyps(1) [of "Suc i"] Suc.hyps(2) i by simp
qed

lemma normalize_loop_overflows:
  assumes "i \<le> 63" "2 ^ 63 < unat capacity"
  shows "normalize_loop capacity (2 ^ i) = Some (Inl Capacity_Overflow)"
  using assms(1)
proof (induction "63 - i" arbitrary: i)
  case 0
  then have "i = 63" by simp
  then show ?case
    using assms(2) by (subst normalize_loop_double) auto
next
  case (Suc n)
  then have i: "i < 63" by simp
  have "(2::nat) ^ i < 2 ^ 63"
    using i by (intro power_strict_increasing) auto
  then have "2 ^ i < unat capacity"
    using assms(2) by linarith
  then have "normalize_loop capacity (2 ^ i) = normalize_loop capacity (2 ^ Suc i)"
    using i by (subst normalize_loop_double) auto
  then show ?case
    using Suc.hyps(1) [of "Suc i"] Suc.hyps(2) i by simp
qed

lemma least_exponent:
  assumes "n \<le> (2::nat) ^ 63"
  defines "k \<equiv> LEAST k. n \<le> 2 ^ k"
  shows "k \<le> 63" "n \<le> 2 ^ k" "\<forall>m<k. 2 ^ m < n"
proof -
  show "k \<le> 63" using assms by (simp add: Least_le)
  show "n \<le> 2 ^ k" using assms(1) unfolding k_def by (rule LeastI)
  show "\<forall>m<k. 2 ^ m < n"
    unfolding k_def by (auto dest: not_less_Least)
qed

text \<open>
  The normalisation loop of the queue constructor always returns: the least power of two that
  is at least the requested capacity when that is at most \<open>2 ^ 63\<close>, and the overflow panic for
  every larger request.
\<close>

lemma normalize_value:
  "normalize_to_power_of_two capacity =
     (if unat capacity \<le> 2 ^ 63
      then Some (Inr (2 ^ (LEAST k. unat capacity \<le> 2 ^ k)))
      else Some (Inl Capacity_Overflow))"
proof (cases "unat capacity \<le> 2 ^ 63")
  case True
  from least_exponent [OF True] show ?thesis
    using normalize_loop_finds [of 0 "LEAST k. unat capacity \<le> 2 ^ k" capacity] True
    by (simp add: normalize_to_power_of_two_def)
next
  case False
  then show ?thesis
    using normalize_loop_overflows [of 0 capacity]
    by (simp add: normalize_to_power_of_two_def)
qed

section \<open>The operations refine a bounded first-in-first-out list\<close>

lemma queue_invE:
  assumes "queue_inv q"
  obtains k where "ring_shape k q" "pending_count q \<le> 2 ^ k" "slots_ok q"
  using assms by (auto simp: queue_inv_def ring_shape_def)

lemma slot_index_shape:
  assumes "ring_shape k q"
  shows "slot_index q p = unat p mod 2 ^ k"
  using assms by (simp add: slot_index_def ring_shape_def unat_and_mask)

lemma slot_index_offset:
  assumes "ring_shape k q"
  shows "slot_index q (consumer_index q + of_nat j) = (unat (consumer_index q) + j) mod 2 ^ k"
  using slot_index_shape [OF assms] unat_add_of_nat_mod [of k "consumer_index q" j] assms
  by (simp add: ring_shape_def)

lemma producer_index_offset:
  "producer_index q = consumer_index q + of_nat (pending_count q)"
  by (simp add: pending_count_def)

lemma length_contents [simp]: "length (contents q) = pending_count q"
  by (simp add: contents_def)

lemma nth_contents: "j < pending_count q \<Longrightarrow> contents q ! j = the (slot_data (slot_at q j))"
  by (simp add: contents_def)

lemma slots_okD:
  assumes "slots_ok q" "ring_shape k q" "j < 2 ^ k"
  shows "j < pending_count q \<Longrightarrow>
           slot_sequence (slot_at q j) = consumer_index q + of_nat j + 1 \<and> slot_data (slot_at q j) \<noteq> None"
    and "\<not> j < pending_count q \<Longrightarrow>
           slot_sequence (slot_at q j) = consumer_index q + of_nat j \<and> slot_data (slot_at q j) = None"
  using assms by (auto simp: slots_ok_def ring_shape_def Let_def)

text \<open>The slot the producer reads is the one at offset \<open>pending_count\<close> from the consumer.\<close>

lemma slot_index_less:
  assumes "ring_shape k q"
  shows "slot_index q p < length (buffer q)"
  using slot_index_shape [OF assms] assms by (simp add: ring_shape_def)

lemma producer_slot:
  assumes "ring_shape k q"
  shows "buffer q ! slot_index q (producer_index q) = slot_at q (pending_count q)"
  using slot_index_offset [OF assms, of "pending_count q"] assms
  by (simp add: slot_at_def ring_shape_def producer_index_offset [symmetric])

lemma consumer_slot:
  assumes "ring_shape k q"
  shows "buffer q ! slot_index q (consumer_index q) = slot_at q 0"
  using slot_index_shape [OF assms] assms by (simp add: slot_at_def ring_shape_def)

lemma enqueue_iteration_space:
  assumes "ring_shape k q" "slots_ok q" "pending_count q < 2 ^ k"
  shows "enqueue_iteration q x = Inr (Some (True,
           q\<lparr>producer_index := producer_index q + 1,
             buffer := (buffer q)[slot_index q (producer_index q) :=
               \<lparr>slot_sequence = producer_index q + 1, slot_data = Some x\<rparr>]\<rparr>))"
  using slots_okD(2) [OF assms(2,1,3)] producer_slot [OF assms(1)]
    slot_index_less [OF assms(1), of "producer_index q"]
  by (simp add: enqueue_iteration_def Let_def producer_index_offset [symmetric])

lemma full_difference_negative:
  assumes "1 \<le> k" "k \<le> 63"
  shows "sint (1 - (2::u64) ^ k) < 0"
proof -
  have pow: "(2::int) ^ k \<le> 2 ^ 63" "(2::int) ^ 1 \<le> 2 ^ k"
    using assms power_increasing [of k 63 "2::int"] power_increasing [of 1 k "2::int"] by simp_all
  have "sint (1 - (2::u64) ^ k) = sint (of_int (1 - 2 ^ k) :: u64)"
    by simp
  also have "\<dots> = 1 - 2 ^ k"
    using pow by (intro sint_of_int_small) auto
  finally show ?thesis
    using pow by simp
qed

lemma enqueue_iteration_full:
  assumes "ring_shape k q" "slots_ok q" "pending_count q = 2 ^ k"
  shows "enqueue_iteration q x = Inr (Some (False, q))"
proof -
  have "slot_at q (pending_count q) = slot_at q 0"
    using assms(1,3) by (simp add: slot_at_def ring_shape_def)
  moreover have "slot_sequence (slot_at q 0) = consumer_index q + 1"
    using slots_okD(1) [OF assms(2,1), of 0] assms(3) by simp
  moreover have "producer_index q = consumer_index q + 2 ^ k"
    using producer_index_offset [of q] assms(3) by simp
  ultimately have "slot_sequence (buffer q ! slot_index q (producer_index q)) - producer_index q
      = 1 - 2 ^ k"
    using producer_slot [OF assms(1)] by simp
  moreover have "sint (1 - (2::u64) ^ k) < 0"
    using assms(1) by (intro full_difference_negative) (auto simp: ring_shape_def)
  moreover from this have "1 - (2::u64) ^ k \<noteq> 0"
    by (metis less_irrefl signed_0)
  ultimately show ?thesis
    using slot_index_less [OF assms(1), of "producer_index q"]
    by (simp add: enqueue_iteration_def Let_def)
qed

definition enqueue_at_tail :: "'a mpsc_queue \<Rightarrow> 'a \<Rightarrow> 'a mpsc_queue" where
  "enqueue_at_tail q x =
     q\<lparr>producer_index := producer_index q + 1,
       buffer := (buffer q)[slot_index q (producer_index q) :=
         \<lparr>slot_sequence = producer_index q + 1, slot_data = Some x\<rparr>]\<rparr>"

definition dequeue_at_head :: "'a mpsc_queue \<Rightarrow> 'a mpsc_queue" where
  "dequeue_at_head q =
     q\<lparr>buffer := (buffer q)[slot_index q (consumer_index q) :=
         \<lparr>slot_sequence = consumer_index q + queue_capacity q, slot_data = None\<rparr>],
       consumer_index := consumer_index q + 1\<rparr>"

lemma two_power_small: "k \<le> 63 \<Longrightarrow> (2::nat) ^ k < 2 ^ 64"
  by (rule power_strict_increasing) auto

lemma ring_shape_tail [simp]: "ring_shape k (enqueue_at_tail q x) = ring_shape k q"
  by (simp add: ring_shape_def enqueue_at_tail_def)

lemma ring_shape_head [simp]: "ring_shape k (dequeue_at_head q) = ring_shape k q"
  by (simp add: ring_shape_def dequeue_at_head_def)

lemma enqueue_at_tail_fields [simp]:
  "consumer_index (enqueue_at_tail q x) = consumer_index q"
  "queue_capacity (enqueue_at_tail q x) = queue_capacity q"
  "index_mask (enqueue_at_tail q x) = index_mask q"
  "length (buffer (enqueue_at_tail q x)) = length (buffer q)"
  by (simp_all add: enqueue_at_tail_def)

lemma dequeue_at_head_fields [simp]:
  "consumer_index (dequeue_at_head q) = consumer_index q + 1"
  "queue_capacity (dequeue_at_head q) = queue_capacity q"
  "index_mask (dequeue_at_head q) = index_mask q"
  "length (buffer (dequeue_at_head q)) = length (buffer q)"
  by (simp_all add: dequeue_at_head_def)

lemma pending_count_tail:
  assumes "ring_shape k q" "pending_count q < 2 ^ k"
  shows "pending_count (enqueue_at_tail q x) = Suc (pending_count q)"
proof -
  have "Suc (pending_count q) < 2 ^ 64"
    using assms two_power_small [of k] by (simp add: ring_shape_def)
  moreover have "producer_index q + 1 - consumer_index q = of_nat (Suc (pending_count q))"
    using producer_index_offset [of q] by simp
  ultimately show ?thesis
    by (simp add: pending_count_def enqueue_at_tail_def unat_of_nat del: of_nat_Suc)
qed

lemma slot_at_tail:
  assumes "ring_shape k q" "pending_count q < 2 ^ k" "j < 2 ^ k"
  shows "slot_at (enqueue_at_tail q x) j =
    (if j = pending_count q then \<lparr>slot_sequence = producer_index q + 1, slot_data = Some x\<rparr>
     else slot_at q j)"
proof -
  have "slot_index q (producer_index q) = (unat (consumer_index q) + pending_count q) mod 2 ^ k"
    using slot_index_offset [OF assms(1), of "pending_count q"]
    by (simp add: producer_index_offset [symmetric])
  then show ?thesis
    using assms ring_index_inj [OF assms(2,3), of "unat (consumer_index q)"]
    by (simp add: slot_at_def enqueue_at_tail_def ring_shape_def nth_list_update)
qed

lemma contents_tail:
  assumes "ring_shape k q" "pending_count q < 2 ^ k"
  shows "contents (enqueue_at_tail q x) = contents q @ [x]"
  using assms
  by (auto simp: contents_def pending_count_tail slot_at_tail)

lemma queue_inv_tail:
  assumes "queue_inv q" "pending_count q < length (buffer q)"
  shows "queue_inv (enqueue_at_tail q x)"
proof -
  obtain k where k: "ring_shape k q" "slots_ok q"
    using assms(1) by (rule queue_invE)
  have space: "pending_count q < 2 ^ k" and len: "length (buffer (enqueue_at_tail q x)) = 2 ^ k"
    using assms(2) k(1) by (auto simp: ring_shape_def enqueue_at_tail_def)
  have "slots_ok (enqueue_at_tail q x)"
    unfolding slots_ok_def Let_def len
    using slots_okD [OF k(2,1)] space producer_index_offset [of q]
    by (auto simp: slot_at_tail [OF k(1) space] pending_count_tail [OF k(1) space])
  then show ?thesis
    using k(1) space len by (auto simp: queue_inv_def pending_count_tail ring_shape_def)
qed

lemma pending_count_head:
  assumes "ring_shape k q" "pending_count q \<le> 2 ^ k" "0 < pending_count q"
  shows "pending_count (dequeue_at_head q) = pending_count q - 1"
proof -
  have "pending_count q - 1 < 2 ^ 64"
    using assms two_power_small [of k] by (simp add: ring_shape_def)
  moreover have "producer_index q - (consumer_index q + 1) = of_nat (pending_count q - 1)"
    using producer_index_offset [of q] assms(3) by (simp add: of_nat_diff)
  ultimately show ?thesis
    by (simp add: pending_count_def dequeue_at_head_def unat_of_nat del: of_nat_diff)
qed

lemma slot_at_head:
  assumes "ring_shape k q" "j < 2 ^ k"
  shows "slot_at (dequeue_at_head q) j =
    (if Suc j = 2 ^ k
     then \<lparr>slot_sequence = consumer_index q + queue_capacity q, slot_data = None\<rparr>
     else slot_at q (Suc j))"
proof -
  have wrap: "unat (consumer_index q + 1) mod 2 ^ k = (unat (consumer_index q) + 1) mod 2 ^ k"
    using assms(1) unat_add_of_nat_mod [of k "consumer_index q" 1] by (simp add: ring_shape_def)
  have "(unat (consumer_index q + 1) + j) mod 2 ^ k = (unat (consumer_index q) + Suc j) mod 2 ^ k"
    by (metis wrap mod_add_left_eq add.assoc plus_1_eq_Suc)
  moreover have "slot_index q (consumer_index q) = (unat (consumer_index q) + 0) mod 2 ^ k"
    using slot_index_shape [OF assms(1)] by simp
  moreover have "(unat (consumer_index q) + Suc j) mod 2 ^ k = (unat (consumer_index q) + 0) mod 2 ^ k
      \<longleftrightarrow> Suc j = 2 ^ k"
    using assms(2) ring_index_inj [of "Suc j" "2 ^ k" 0 "unat (consumer_index q)"]
    by (cases "Suc j = 2 ^ k") auto
  ultimately show ?thesis
    using assms(1) by (auto simp: slot_at_def dequeue_at_head_def ring_shape_def nth_list_update)
qed

lemma contents_head:
  assumes "ring_shape k q" "pending_count q \<le> 2 ^ k" "0 < pending_count q"
  shows "contents (dequeue_at_head q) = tl (contents q)"
  using assms
  by (intro nth_equalityI)
     (auto simp: nth_contents pending_count_head slot_at_head nth_tl)

lemma queue_inv_head:
  assumes "queue_inv q" "0 < pending_count q"
  shows "queue_inv (dequeue_at_head q)"
proof -
  obtain k where k: "ring_shape k q" "pending_count q \<le> 2 ^ k" "slots_ok q"
    using assms(1) by (rule queue_invE)
  have len: "length (buffer (dequeue_at_head q)) = 2 ^ k" and cap: "queue_capacity q = 2 ^ k"
    using k(1) by (auto simp: ring_shape_def)
  have last: "consumer_index q + 1 + of_nat j = consumer_index q + 2 ^ k" if "Suc j = 2 ^ k" for j
  proof -
    have "consumer_index q + 1 + of_nat j = consumer_index q + of_nat (Suc j)" by simp
    then show ?thesis using that by simp
  qed
  have "slots_ok (dequeue_at_head q)"
    unfolding slots_ok_def Let_def len
    using slots_okD [OF k(3,1), of "Suc _"] k(2) assms(2) cap last
    by (auto simp: slot_at_head [OF k(1)] pending_count_head [OF k(1,2) assms(2)] algebra_simps)
  then show ?thesis
    using k(1,2) len assms(2) by (auto simp: queue_inv_def pending_count_head ring_shape_def)
qed

lemma try_enqueue_space:
  assumes "queue_inv q" "pending_count q < length (buffer q)"
  shows "try_enqueue q x = Some (Inr (True, enqueue_at_tail q x))"
proof -
  obtain k where "ring_shape k q" "slots_ok q"
    using assms(1) by (rule queue_invE)
  then show ?thesis
    using assms(2) enqueue_iteration_space [of k q x]
    by (subst try_enqueue.simps) (simp add: enqueue_at_tail_def ring_shape_def)
qed

lemma try_enqueue_full:
  assumes "queue_inv q" "pending_count q = length (buffer q)"
  shows "try_enqueue q x = Some (Inr (False, q))"
proof -
  obtain k where "ring_shape k q" "slots_ok q"
    using assms(1) by (rule queue_invE)
  then show ?thesis
    using assms(2) enqueue_iteration_full [of k q x]
    by (subst try_enqueue.simps) (simp add: ring_shape_def)
qed

lemma try_dequeue_empty:
  assumes "queue_inv q" "pending_count q = 0"
  shows "try_dequeue q = Inr (None, q)"
proof -
  obtain k where k: "ring_shape k q" "slots_ok q"
    using assms(1) by (rule queue_invE)
  then show ?thesis
    using slots_okD(2) [OF k(2,1), of 0] assms(2) consumer_slot [OF k(1)] slot_index_less [OF k(1)]
    by (simp add: try_dequeue_def Let_def not_le)
qed

lemma try_dequeue_cons:
  assumes "queue_inv q" "0 < pending_count q"
  shows "try_dequeue q = Inr (Some (hd (contents q)), dequeue_at_head q)"
proof -
  obtain k where k: "ring_shape k q" "slots_ok q"
    using assms(1) by (rule queue_invE)
  have "contents q \<noteq> []"
    using assms(2) length_contents [of q] by (auto simp del: length_contents)
  then have "hd (contents q) = the (slot_data (slot_at q 0))"
    using assms(2) by (simp add: hd_conv_nth nth_contents)
  then show ?thesis
    using slots_okD(1) [OF k(2,1), of 0] assms(2) consumer_slot [OF k(1)] slot_index_less [OF k(1)]
    by (auto simp: try_dequeue_def Let_def dequeue_at_head_def not_le)
qed

lemma try_peek_iff:
  assumes "queue_inv q"
  shows "try_peek q = Inr (0 < pending_count q)"
proof -
  obtain k where k: "ring_shape k q" "slots_ok q"
    using assms(1) by (rule queue_invE)
  then show ?thesis
    using slots_okD [OF k(2,1), of 0] consumer_slot [OF k(1)] slot_index_less [OF k(1)]
    by (cases "0 < pending_count q") (auto simp: try_peek_def Let_def not_le)
qed

lemma contents_tail_inv:
  assumes "queue_inv q" "pending_count q < length (buffer q)"
  shows "contents (enqueue_at_tail q x) = contents q @ [x]"
  using assms by (auto elim!: queue_invE simp: ring_shape_def intro!: contents_tail)

lemma contents_head_inv:
  assumes "queue_inv q" "0 < pending_count q"
  shows "contents (dequeue_at_head q) = tl (contents q)"
  using assms by (auto elim!: queue_invE intro: contents_head)

lemma contents_Nil_iff: "contents q = [] \<longleftrightarrow> pending_count q = 0"
  by (metis length_contents length_0_conv)

interpretation mpsc: bounded_fifo queue_inv contents "\<lambda>q. length (buffer q)" try_enqueue try_dequeue try_peek
proof (unfold_locales, goal_cases)
  case (1 q)
  then show ?case by (simp add: queue_inv_def)
next
  case (2 q x)
  then show ?case by (simp add: try_enqueue_space queue_inv_tail contents_tail_inv)
next
  case (3 q x)
  then show ?case by (simp add: try_enqueue_full)
next
  case (4 q)
  then show ?case by (simp add: try_dequeue_empty contents_Nil_iff)
next
  case (5 q y ys)
  then have "0 < pending_count q"
    by (metis contents_Nil_iff list.distinct(1) neq0_conv)
  with 5 show ?case by (simp add: try_dequeue_cons queue_inv_head contents_head_inv)
next
  case (6 q)
  then show ?case by (simp add: try_peek_iff contents_Nil_iff)
qed

section \<open>Construction, destruction and whole runs\<close>

lemma two_le_exponent: "2 \<le> n \<Longrightarrow> n \<le> (2::nat) ^ k \<Longrightarrow> 1 \<le> k"
  by (cases k) auto

lemma new_queue_inv:
  assumes "2 \<le> unat capacity" "unat capacity \<le> 2 ^ 63"
  obtains q where "new_queue capacity = Some (Inr q)" "queue_inv q" "contents q = []"
    "length (buffer q) = 2 ^ (LEAST k. unat capacity \<le> 2 ^ k)"
proof -
  define k where "k = (LEAST k. unat capacity \<le> 2 ^ k)"
  note k = least_exponent [OF assms(2), folded k_def]
  have k1: "1 \<le> k" using assms(1) k(2) by (rule two_le_exponent)
  have unat: "unat ((2::u64) ^ k) = 2 ^ k" using k(1) by (simp add: unat_two_power)
  define q :: "'a mpsc_queue" where
    "q = \<lparr>buffer = init_slots (2 ^ k), queue_capacity = 2 ^ k, producer_index = 0,
          consumer_index = 0, index_mask = 2 ^ k - 1\<rparr>"
  have "\<not> capacity < 2" using assms(1) by (simp add: word_less_nat_alt)
  then have "new_queue capacity = Some (Inr q)"
    using assms(2) by (simp add: new_queue_def normalize_value q_def k_def)
  moreover have "slots_ok q"
    by (simp add: slots_ok_def q_def slot_at_def init_slots_def unat pending_count_def)
  then have "queue_inv q"
    using k(1) k1 by (auto simp: queue_inv_def ring_shape_def q_def init_slots_def unat pending_count_def)
  moreover have "contents q = []"
    by (simp add: contents_Nil_iff q_def pending_count_def)
  moreover have "length (buffer q) = 2 ^ k"
    by (simp add: q_def init_slots_def unat)
  ultimately show thesis using that by (simp add: k_def)
qed

lemma drop_queue_empties:
  assumes "queue_inv q"
  shows "\<exists>q'. drop_queue q = Some (Inr q') \<and> queue_inv q' \<and> contents q' = []"
  using assms
proof (induction "pending_count q" arbitrary: q)
  case 0
  then show ?case
    by (subst drop_queue.simps) (simp add: try_dequeue_empty contents_Nil_iff)
next
  case (Suc n)
  then have pos: "0 < pending_count q" by simp
  obtain k where "ring_shape k q" "pending_count q \<le> 2 ^ k"
    using Suc.prems by (rule queue_invE)
  then have "pending_count (dequeue_at_head q) = n"
    using pos Suc.hyps(2) by (simp add: pending_count_head)
  then have "\<exists>q'. drop_queue (dequeue_at_head q) = Some (Inr q') \<and> queue_inv q' \<and> contents q' = []"
    using Suc.hyps(1) queue_inv_head [OF Suc.prems pos] by simp
  then show ?case
    by (subst drop_queue.simps) (simp add: try_dequeue_cons [OF Suc.prems pos])
qed

text \<open>
  C20: on any ring queue in its invariant, wherever its wrapping counters stand, every sequence of
  enqueues, dequeues and peeks returns exactly what a bounded first-in-first-out list with the same
  contents returns; in particular no operation panics, spins or reads an uninitialised slot.
\<close>

theorem mpsc_runs_as_bounded_fifo:
  assumes "queue_inv q"
  shows "run_ops try_enqueue try_dequeue try_peek q ops
           = Some (Inr (spec_ops (length (buffer q)) (contents q) ops))"
  using assms by (rule mpsc.run_ops_spec)

definition wrapped_queue :: "nat mpsc_queue" where
  "wrapped_queue =
     \<lparr>buffer = [\<lparr>slot_sequence = 0, slot_data = None\<rparr>, \<lparr>slot_sequence = 0, slot_data = Some 7\<rparr>],
      queue_capacity = 2, producer_index = 0, consumer_index = 18446744073709551615, index_mask = 1\<rparr>"

lemma all_less_two: "(\<forall>j<Suc (Suc 0). P j) \<longleftrightarrow> P 0 \<and> P 1"
  by (auto simp: less_Suc_eq)

lemma max_wraps:
  "18446744073709551615 mod Suc (Suc 0) = 1" "18446744073709551616 mod Suc (Suc 0) = 0"
  "(18446744073709551616::u64) = 0"
  by (simp_all flip: numeral_2_eq_2)

lemma wrapped_queue_inv: "queue_inv wrapped_queue"
proof -
  have "ring_shape 1 wrapped_queue"
    by (simp add: ring_shape_def wrapped_queue_def)
  moreover have "slots_ok wrapped_queue"
    by (simp add: slots_ok_def wrapped_queue_def slot_at_def pending_count_def all_less_two max_wraps)
  ultimately show ?thesis
    by (auto simp: queue_inv_def wrapped_queue_def pending_count_def)
qed

theorem mpsc_runs_as_bounded_fifo_witness:
  "queue_inv wrapped_queue \<and>
   run_ops try_enqueue try_dequeue try_peek wrapped_queue [Enq 8, Enq 9, Deq, Deq, Deq]
     = Some (Inr [Enq_Out True, Enq_Out False, Deq_Out (Some 7), Deq_Out (Some 8), Deq_Out None])"
proof -
  have "contents wrapped_queue = [7]" "length (buffer wrapped_queue) = 2"
    by (simp_all add: wrapped_queue_def contents_def pending_count_def slot_at_def max_wraps)
  then show ?thesis
    using mpsc_runs_as_bounded_fifo [OF wrapped_queue_inv, of "[Enq 8, Enq 9, Deq, Deq, Deq]"]
      wrapped_queue_inv by simp
qed

text \<open>
  The constructor accepts exactly the capacities from 2 to \<open>2 ^ 63\<close>. Below 2 it panics with the
  capacity message, above it panics with the overflow message, and in between it returns an empty
  queue in the invariant whose size is the least power of two that is large enough.
\<close>

theorem new_queue_spec:
  "(unat capacity < 2 \<longrightarrow> new_queue capacity = Some (Inl Capacity_Too_Small)) \<and>
   (2 ^ 63 < unat capacity \<longrightarrow> new_queue capacity = Some (Inl Capacity_Overflow)) \<and>
   (2 \<le> unat capacity \<and> unat capacity \<le> 2 ^ 63 \<longrightarrow>
      (\<exists>q. new_queue capacity = Some (Inr q) \<and> queue_inv q \<and> contents q = []
           \<and> length (buffer q) = 2 ^ (LEAST k. unat capacity \<le> 2 ^ k)))"
proof (intro conjI impI)
  assume "unat capacity < 2"
  then show "new_queue capacity = Some (Inl Capacity_Too_Small)"
    by (simp add: new_queue_def word_less_nat_alt)
next
  assume "2 ^ 63 < unat capacity"
  then show "new_queue capacity = Some (Inl Capacity_Overflow)"
    by (simp add: new_queue_def normalize_value word_less_nat_alt)
next
  assume "2 \<le> unat capacity \<and> unat capacity \<le> 2 ^ 63"
  then show "\<exists>q. new_queue capacity = Some (Inr q) \<and> queue_inv q \<and> contents q = []
           \<and> length (buffer q) = 2 ^ (LEAST k. unat capacity \<le> 2 ^ k)"
    using new_queue_inv [of capacity] by metis
qed

theorem new_queue_spec_witness:
  "(new_queue 1 :: nat mpsc_queue result option) = Some (Inl Capacity_Too_Small) \<and>
   (\<exists>q::nat mpsc_queue. new_queue 5 = Some (Inr q) \<and> queue_inv q)"
  using new_queue_spec [of 1, where ?'a = nat] new_queue_spec [of 5, where ?'a = nat] by auto

text \<open>
  The destructor's loop, which dequeues until nothing is left, always ends, and leaves an empty
  queue: no value that was enqueued stays behind in a slot.
\<close>

theorem drop_queue_terminates_empty:
  assumes "queue_inv q"
  shows "\<exists>q'. drop_queue q = Some (Inr q') \<and> (\<forall>s \<in> set (buffer q'). slot_data s = None)"
proof -
  obtain q' where q': "drop_queue q = Some (Inr q')" "queue_inv q'" "contents q' = []"
    using drop_queue_empties [OF assms] by blast
  obtain k where k: "ring_shape k q'" "slots_ok q'"
    using q'(2) by (rule queue_invE)
  have "slot_data s = None" if s: "s \<in> set (buffer q')" for s
  proof -
    obtain i where i: "i < 2 ^ k" "s = buffer q' ! i"
      using s k(1) by (auto simp: in_set_conv_nth ring_shape_def)
    obtain j where "j < 2 ^ k" "(unat (consumer_index q') + j) mod 2 ^ k = i"
      using ring_index_surj [OF i(1)] by blast
    then have "s = slot_at q' j" "j < 2 ^ k"
      using i(2) k(1) by (simp_all add: slot_at_def ring_shape_def)
    then show ?thesis
      using slots_okD(2) [OF k(2,1)] q'(3) by (simp add: contents_Nil_iff)
  qed
  with q'(1) show ?thesis by blast
qed

theorem drop_queue_terminates_empty_witness:
  "\<exists>q'. drop_queue wrapped_queue = Some (Inr q') \<and> (\<forall>s \<in> set (buffer q'). slot_data s = None)"
  by (rule drop_queue_terminates_empty [OF wrapped_queue_inv])

end
