(* ===== verification/Mpsc_Concurrent.thy ===== *)
theory Mpsc_Concurrent
  imports Mpsc_Queue
begin

text \<open>
  The ring queue of \<^verbatim>\<open>queues/mpsc_bounded_queue.rs\<close> under any number of concurrent producers and its
  one consumer. Every atomic access of \<open>try_enqueue\<close> and \<open>try_dequeue\<close> is one step; the steps of
  the threads interleave arbitrarily (sequentially consistent interleaving). Two history variables
  record what happened: \<open>claimed\<close> lists the items in the order in which the producer index was
  advanced for them, \<open>delivered\<close> the items handed to the consumer. The abstract view of the queue is
  a \<open>mailbox\<close>: the claimed and not yet released items with the producer of each and whether it is
  published; it is the queue the actor runner of \<open>Runner_Machine\<close> works on.
\<close>

section \<open>The abstract mailbox\<close>

type_synonym 'a mailbox = "(nat \<times> 'a \<times> bool) list"

definition mb_claim :: "nat \<Rightarrow> 'a \<Rightarrow> 'a mailbox \<Rightarrow> 'a mailbox" where
  "mb_claim t x m = m @ [(t, x, False)]"

definition mb_publish :: "nat \<Rightarrow> 'a mailbox \<Rightarrow> 'a mailbox" where
  "mb_publish t m = map (\<lambda>(u, x, b). (u, x, b \<or> u = t)) m"

fun mb_deq :: "'a mailbox \<Rightarrow> ('a \<times> 'a mailbox) option" where
  "mb_deq ((t, x, True) # m) = Some (x, m)"
| "mb_deq _ = None"

datatype 'a mailbox_event =
    Mb_Claim nat 'a | Mb_Publish nat | Mb_Release 'a | Mb_Full nat | Mb_Nothing | Mb_Internal

inductive mailbox_step :: "nat \<Rightarrow> 'a mailbox_event \<Rightarrow> 'a mailbox \<Rightarrow> 'a mailbox \<Rightarrow> bool" for cap where
  claim: "length m < cap \<Longrightarrow> mailbox_step cap (Mb_Claim t x) m (mb_claim t x m)"
| publish: "mailbox_step cap (Mb_Publish t) m (mb_publish t m)"
| release: "mb_deq m = Some (x, m') \<Longrightarrow> mailbox_step cap (Mb_Release x) m m'"
| full: "length m = cap \<Longrightarrow> mailbox_step cap (Mb_Full t) m m"
| nothing: "mb_deq m = None \<Longrightarrow> mailbox_step cap Mb_Nothing m m"
| internal: "mailbox_step cap Mb_Internal m m"

section \<open>Threads\<close>

datatype 'a producer =
    P_Idle
  | P_Load 'a
  | P_Seq 'a i64
  | P_Cas 'a i64
  | P_Write 'a i64
  | P_Publish i64
  | P_Done bool
  | P_Panic

datatype 'a consumer =
    C_Idle
  | C_Read i64
  | C_Release i64 'a
  | C_Advance i64 'a
  | C_Done "'a option"
  | C_Panic
  | C_Uninit

record 'a mpsc_state =
  ring :: "'a mpsc_queue"
  producers :: "nat \<Rightarrow> 'a producer"
  consumer :: "'a consumer"
  claimed :: "(nat \<times> 'a) list"
  delivered :: "'a list"

definition set_producer :: "nat \<Rightarrow> 'a producer \<Rightarrow> 'a mpsc_state \<Rightarrow> 'a mpsc_state" where
  "set_producer t pc s = s\<lparr>producers := (producers s)(t := pc)\<rparr>"

definition update_slot :: "nat \<Rightarrow> ('a slot \<Rightarrow> 'a slot) \<Rightarrow> 'a mpsc_state \<Rightarrow> 'a mpsc_state" where
  "update_slot i f s =
     s\<lparr>ring := (ring s)\<lparr>buffer := (buffer (ring s))[i := f (buffer (ring s) ! i)]\<rparr>\<rparr>"

text \<open>
  The accesses of \<open>try_enqueue\<close>: the load of the producer index, the load of the slot's sequence
  with the branch on the difference, the compare-and-exchange, the write of the item, and the
  store of the sequence that publishes it.
\<close>

fun producer_step :: "nat \<Rightarrow> 'a producer \<Rightarrow> 'a mpsc_state \<Rightarrow> 'a mailbox_event \<times> 'a mpsc_state" where
  "producer_step t (P_Load x) s = (Mb_Internal, set_producer t (P_Seq x (producer_index (ring s))) s)"
| "producer_step t (P_Seq x position) s =
     (let i = slot_index (ring s) position in
      if length (buffer (ring s)) \<le> i then (Mb_Internal, set_producer t P_Panic s)
      else
        let difference = slot_sequence (buffer (ring s) ! i) - position in
        if difference = 0 then (Mb_Internal, set_producer t (P_Cas x position) s)
        else if sint difference < 0 then (Mb_Full t, set_producer t (P_Done False) s)
        else (Mb_Internal, set_producer t (P_Load x) s))"
| "producer_step t (P_Cas x position) s =
     (if producer_index (ring s) = position
      then (Mb_Claim t x,
            set_producer t (P_Write x position)
              (s\<lparr>ring := (ring s)\<lparr>producer_index := position + 1\<rparr>, claimed := claimed s @ [(t, x)]\<rparr>))
      else (Mb_Internal, set_producer t (P_Load x) s))"
| "producer_step t (P_Write x position) s =
     (Mb_Internal,
      set_producer t (P_Publish position)
        (update_slot (slot_index (ring s) position) (\<lambda>c. c\<lparr>slot_data := Some x\<rparr>) s))"
| "producer_step t (P_Publish position) s =
     (Mb_Publish t,
      set_producer t (P_Done True)
        (update_slot (slot_index (ring s) position) (\<lambda>c. c\<lparr>slot_sequence := position + 1\<rparr>) s))"
| "producer_step t P_Idle s = (Mb_Internal, s)"
| "producer_step t (P_Done b) s = (Mb_Internal, s)"
| "producer_step t P_Panic s = (Mb_Internal, s)"

text \<open>
  The accesses of \<open>try_dequeue\<close>: the load of the sequence at the consumer's position, the read of
  the item out of the slot, the store of the sequence that releases the slot to the producers, and
  the advance of the consumer index.
\<close>

fun consumer_step :: "'a consumer \<Rightarrow> 'a mpsc_state \<Rightarrow> 'a mailbox_event \<times> 'a mpsc_state" where
  "consumer_step (C_Read position) s =
     (let i = slot_index (ring s) position in
      case slot_data (buffer (ring s) ! i) of
        None \<Rightarrow> (Mb_Internal, s\<lparr>consumer := C_Uninit\<rparr>)
      | Some x \<Rightarrow> (Mb_Internal,
          (update_slot i (\<lambda>c. c\<lparr>slot_data := None\<rparr>) s)\<lparr>consumer := C_Release position x\<rparr>))"
| "consumer_step (C_Release position x) s =
     (Mb_Release x,
      (update_slot (slot_index (ring s) position)
         (\<lambda>c. c\<lparr>slot_sequence := position + queue_capacity (ring s)\<rparr>) s)\<lparr>consumer := C_Advance position x\<rparr>)"
| "consumer_step (C_Advance position x) s =
     (Mb_Internal,
      s\<lparr>ring := (ring s)\<lparr>consumer_index := position + 1\<rparr>, consumer := C_Done (Some x),
        delivered := delivered s @ [x]\<rparr>)"
| "consumer_step C_Panic s = (Mb_Internal, s)"
| "consumer_step C_Uninit s = (Mb_Internal, s)"
| "consumer_step _ s =
     (let position = consumer_index (ring s); i = slot_index (ring s) position in
      if length (buffer (ring s)) \<le> i then (Mb_Internal, s\<lparr>consumer := C_Panic\<rparr>)
      else if slot_sequence (buffer (ring s) ! i) - (position + 1) = 0
           then (Mb_Internal, s\<lparr>consumer := C_Read position\<rparr>)
           else (Mb_Nothing, s\<lparr>consumer := C_Done None\<rparr>))"

inductive mpsc_step :: "'a mpsc_state \<Rightarrow> 'a mailbox_event \<Rightarrow> 'a mpsc_state \<Rightarrow> bool" where
  call: "producers s t \<in> {P_Idle, P_Done True, P_Done False} \<Longrightarrow>
     mpsc_step s Mb_Internal (set_producer t (P_Load x) s)"
| produce: "producer_step t (producers s t) s = (e, s') \<Longrightarrow> mpsc_step s e s'"
| consume: "consumer_step (consumer s) s = (e, s') \<Longrightarrow> mpsc_step s e s'"

definition mpsc_init :: "'a mpsc_queue \<Rightarrow> 'a mpsc_state" where
  "mpsc_init q = \<lparr>ring = q, producers = (\<lambda>_. P_Idle), consumer = C_Idle, claimed = [], delivered = []\<rparr>"

text \<open>
  Reachable states, as long as every position and sequence number fits in a non-negative
  \<open>i64\<close>: fewer than \<open>2 ^ 63 - capacity\<close> enqueues.
\<close>

definition fits_i64 :: "'a mpsc_state \<Rightarrow> bool" where
  "fits_i64 s \<longleftrightarrow> length (claimed s) + length (buffer (ring s)) < 2 ^ 63"

inductive mpsc_reach :: "usize \<Rightarrow> 'a mpsc_state \<Rightarrow> bool" for capacity where
  start: "new_queue capacity = Some (Inr q) \<Longrightarrow> fits_i64 (mpsc_init q) \<Longrightarrow> mpsc_reach capacity (mpsc_init q)"
| step: "mpsc_reach capacity s \<Longrightarrow> mpsc_step s e s' \<Longrightarrow> fits_i64 s' \<Longrightarrow> mpsc_reach capacity s'"

section \<open>The invariant\<close>

definition lo :: "'a mpsc_state \<Rightarrow> nat" where
  "lo s = unat (consumer_index (ring s)) + (case consumer s of C_Advance _ _ \<Rightarrow> 1 | _ \<Rightarrow> 0)"

abbreviation hi :: "'a mpsc_state \<Rightarrow> nat" where
  "hi s \<equiv> length (claimed s)"

abbreviation ring_size :: "'a mpsc_state \<Rightarrow> nat" where
  "ring_size s \<equiv> length (buffer (ring s))"

definition cell :: "'a mpsc_state \<Rightarrow> nat \<Rightarrow> 'a slot" where
  "cell s p = buffer (ring s) ! (p mod ring_size s)"

definition in_flight :: "'a mpsc_state \<Rightarrow> nat \<Rightarrow> bool" where
  "in_flight s p \<longleftrightarrow> (case claimed s ! p of (t, x) \<Rightarrow>
     producers s t = P_Write x (of_nat p) \<or> producers s t = P_Publish (of_nat p))"

definition cell_ok :: "'a mpsc_state \<Rightarrow> nat \<Rightarrow> bool" where
  "cell_ok s p \<longleftrightarrow> (case claimed s ! p of (t, x) \<Rightarrow>
     if producers s t = P_Write x (of_nat p) then cell s p = \<lparr>slot_sequence = of_nat p, slot_data = None\<rparr>
     else if producers s t = P_Publish (of_nat p) then cell s p = \<lparr>slot_sequence = of_nat p, slot_data = Some x\<rparr>
     else cell s p = \<lparr>slot_sequence = of_nat (Suc p),
                      slot_data = (if consumer s = C_Release (of_nat p) x then None else Some x)\<rparr>)"

definition bounds_inv :: "nat \<Rightarrow> 'a mpsc_state \<Rightarrow> bool" where
  "bounds_inv k s \<longleftrightarrow> ring_shape k (ring s) \<and> fits_i64 s \<and> producer_index (ring s) = of_nat (hi s)
     \<and> lo s \<le> hi s \<and> hi s \<le> lo s + 2 ^ k"

definition cells_inv :: "'a mpsc_state \<Rightarrow> bool" where
  "cells_inv s \<longleftrightarrow> (\<forall>p. lo s \<le> p \<and> p < hi s \<longrightarrow> cell_ok s p)
     \<and> (\<forall>p. hi s \<le> p \<and> p < lo s + ring_size s \<longrightarrow>
          cell s p = \<lparr>slot_sequence = of_nat p, slot_data = None\<rparr>)"

fun producer_ok :: "'a mpsc_state \<Rightarrow> nat \<Rightarrow> 'a producer \<Rightarrow> bool" where
  "producer_ok s t (P_Seq x position) = (unat position \<le> hi s)"
| "producer_ok s t (P_Cas x position) =
     (unat position \<le> hi s \<and> (unat position = hi s \<longrightarrow> hi s < lo s + ring_size s))"
| "producer_ok s t (P_Write x position) =
     (lo s \<le> unat position \<and> unat position < hi s \<and> claimed s ! unat position = (t, x))"
| "producer_ok s t (P_Publish position) =
     (lo s \<le> unat position \<and> unat position < hi s \<and> fst (claimed s ! unat position) = t)"
| "producer_ok s t P_Panic = False"
| "producer_ok s t _ = True"

definition head_published :: "'a mpsc_state \<Rightarrow> i64 \<Rightarrow> bool" where
  "head_published s position \<longleftrightarrow> position = consumer_index (ring s) \<and> unat position < hi s
     \<and> \<not> in_flight s (unat position)"

fun consumer_ok :: "'a mpsc_state \<Rightarrow> 'a consumer \<Rightarrow> bool" where
  "consumer_ok s (C_Read position) = head_published s position"
| "consumer_ok s (C_Release position x) =
     (head_published s position \<and> x = snd (claimed s ! unat position))"
| "consumer_ok s (C_Advance position x) =
     (position = consumer_index (ring s) \<and> unat position < hi s \<and> x = snd (claimed s ! unat position))"
| "consumer_ok s C_Panic = False"
| "consumer_ok s C_Uninit = False"
| "consumer_ok s _ = True"

definition mpsc_inv :: "nat \<Rightarrow> 'a mpsc_state \<Rightarrow> bool" where
  "mpsc_inv k s \<longleftrightarrow> bounds_inv k s \<and> cells_inv s \<and> (\<forall>t. producer_ok s t (producers s t))
     \<and> consumer_ok s (consumer s)
     \<and> delivered s = map snd (take (unat (consumer_index (ring s))) (claimed s))"

section \<open>The abstraction\<close>

definition mpsc_mailbox :: "'a mpsc_state \<Rightarrow> 'a mailbox" where
  "mpsc_mailbox s = map (\<lambda>p. (fst (claimed s ! p), snd (claimed s ! p), \<not> in_flight s p)) [lo s..<hi s]"

section \<open>Preservation, step by step\<close>

definition flying :: "'a producer \<Rightarrow> bool" where
  "flying pc \<longleftrightarrow> (\<exists>x p. pc = P_Write x p) \<or> (\<exists>p. pc = P_Publish p)"

lemma flying_simps [simp]:
  "flying (P_Write x p)" "flying (P_Publish p)" "\<not> flying P_Idle" "\<not> flying (P_Load x)"
  "\<not> flying (P_Seq x p)" "\<not> flying (P_Cas x p)" "\<not> flying (P_Done b)" "\<not> flying P_Panic"
  by (auto simp: flying_def)

lemma set_producer_simps [simp]:
  "ring (set_producer t pc s) = ring s" "consumer (set_producer t pc s) = consumer s"
  "claimed (set_producer t pc s) = claimed s" "delivered (set_producer t pc s) = delivered s"
  "producers (set_producer t pc s) = (producers s)(t := pc)"
  by (simp_all add: set_producer_def)

lemma update_slot_simps [simp]:
  "consumer (update_slot i f s) = consumer s" "claimed (update_slot i f s) = claimed s"
  "delivered (update_slot i f s) = delivered s" "producers (update_slot i f s) = producers s"
  "producer_index (ring (update_slot i f s)) = producer_index (ring s)"
  "consumer_index (ring (update_slot i f s)) = consumer_index (ring s)"
  "queue_capacity (ring (update_slot i f s)) = queue_capacity (ring s)"
  "ring_size (update_slot i f s) = ring_size s"
  "ring_shape k (ring (update_slot i f s)) = ring_shape k (ring s)"
  by (simp_all add: update_slot_def ring_shape_def)

lemma lo_frame [simp]:
  "lo (set_producer t pc s) = lo s" "lo (update_slot i f s) = lo s"
  by (simp_all add: lo_def)

lemma cell_frame [simp]: "cell (set_producer t pc s) p = cell s p"
  by (simp add: cell_def)

lemma fits_frame [simp]:
  "fits_i64 (set_producer t pc s) = fits_i64 s" "fits_i64 (update_slot i f s) = fits_i64 s"
  by (simp_all add: fits_i64_def)

lemma head_published_frame [simp]: "head_published (update_slot i f s) p = head_published s p"
  by (simp add: head_published_def in_flight_def)

lemma cell_update_slot:
  assumes "0 < ring_size s"
  shows "cell (update_slot (p mod ring_size s) f s) p' =
    (if p' mod ring_size s = p mod ring_size s then f (cell s p) else cell s p')"
  using assms by (auto simp: cell_def update_slot_def nth_list_update)

lemma in_flight_unflown:
  assumes "\<not> flying (producers s t)" "\<not> flying pc"
  shows "in_flight (set_producer t pc s) p = in_flight s p"
  using assms by (auto simp: in_flight_def split: prod.splits)

lemma cell_ok_unflown:
  assumes "\<not> flying (producers s t)" "\<not> flying pc"
  shows "cell_ok (set_producer t pc s) p = cell_ok s p"
  using assms by (auto simp: cell_ok_def split: prod.splits)

lemma producer_ok_frame [simp]: "producer_ok (set_producer t pc s) u pc' = producer_ok s u pc'"
  by (cases pc') simp_all

lemma mpsc_inv_unflown:
  assumes "mpsc_inv k s" "\<not> flying (producers s t)" "\<not> flying pc" "producer_ok s t pc"
  shows "mpsc_inv k (set_producer t pc s)"
proof -
  have "consumer_ok (set_producer t pc s) (consumer s) = consumer_ok s (consumer s)"
    by (cases "consumer s") (simp_all add: head_published_def in_flight_unflown [OF assms(2,3)])
  then show ?thesis
    using assms by (simp add: mpsc_inv_def bounds_inv_def cells_inv_def cell_ok_unflown)
qed

lemma mpsc_inv_sizes:
  assumes "mpsc_inv k s"
  shows "ring_size s = 2 ^ k" "0 < ring_size s" "2 \<le> ring_size s"
    "hi s + ring_size s < 2 ^ 63" "lo s \<le> hi s" "hi s \<le> lo s + ring_size s"
    "unat (producer_index (ring s)) = hi s" "producer_index (ring s) = of_nat (hi s)"
proof -
  have k: "1 \<le> k" and size: "ring_size s = 2 ^ k" and fits: "hi s + ring_size s < 2 ^ 63"
    and pi: "producer_index (ring s) = of_nat (hi s)"
    using assms by (auto simp: mpsc_inv_def bounds_inv_def ring_shape_def fits_i64_def)
  show "ring_size s = 2 ^ k" "0 < ring_size s" "hi s + ring_size s < 2 ^ 63" by (fact size, simp add: size, fact fits)
  show "2 \<le> ring_size s"
    using k power_increasing [of 1 k "2::nat"] by (simp add: size)
  show "lo s \<le> hi s" "hi s \<le> lo s + ring_size s"
    using assms size by (auto simp: mpsc_inv_def bounds_inv_def)
  show "producer_index (ring s) = of_nat (hi s)" by (fact pi)
  show "unat (producer_index (ring s)) = hi s"
    using fits by (simp add: pi unat_of_nat_small)
qed

lemma slot_index_pos:
  assumes "mpsc_inv k s"
  shows "slot_index (ring s) position = unat position mod ring_size s"
  using assms by (simp add: mpsc_inv_def bounds_inv_def slot_index_shape ring_shape_def)

lemma window_sequence:
  assumes "mpsc_inv k s" "lo s \<le> w" "w < lo s + ring_size s"
  shows "slot_sequence (cell s w) = of_nat w \<or> slot_sequence (cell s w) = of_nat (Suc w)"
proof (cases "w < hi s")
  case True
  then have "cell_ok s w"
    using assms by (simp add: mpsc_inv_def cells_inv_def)
  then show ?thesis by (auto simp: cell_ok_def split: prod.splits if_splits)
next
  case False
  then show ?thesis
    using assms by (simp add: mpsc_inv_def cells_inv_def)
qed

lemma sequence_match_has_room:
  assumes "mpsc_inv k s" "unat position = hi s" "slot_sequence (cell s (unat position)) = position"
  shows "hi s < lo s + ring_size s"
proof (rule ccontr)
  note sizes = mpsc_inv_sizes [OF assms(1)]
  assume "\<not> hi s < lo s + ring_size s"
  then have full: "hi s = lo s + ring_size s" using sizes(6) by simp
  then have "cell s (unat position) = cell s (lo s)"
    using assms(2) by (simp add: cell_def)
  moreover have "position = of_nat (hi s)"
    using assms(2) by (metis unat_of_nat_small of_nat_eq_iff word_unat_eq_iff sizes(7,8))
  ultimately have "(of_nat (hi s) :: i64) = of_nat (lo s) \<or> (of_nat (hi s) :: i64) = of_nat (Suc (lo s))"
    using window_sequence [OF assms(1), of "lo s"] assms(3) sizes(2) by auto
  then show False
    using full sizes(3,4) of_nat_eq_small [of "hi s" "lo s"] of_nat_eq_small [of "hi s" "Suc (lo s)"]
    by (auto simp del: of_nat_Suc)
qed

lemma sint_of_nat_small: "n < 2 ^ 63 \<Longrightarrow> sint (of_nat n :: i64) = int n"
  using sint_of_int_small [of "int n"] by simp

lemma negative_difference_full:
  assumes inv: "mpsc_inv k s" and le: "unat position \<le> hi s"
    and neg: "sint (slot_sequence (cell s (unat position)) - position) < 0"
  shows "hi s = lo s + ring_size s"
proof (rule ccontr)
  note sizes = mpsc_inv_sizes [OF inv]
  let ?n = "unat position"
  assume "hi s \<noteq> lo s + ring_size s"
  then have n: "?n < lo s + ring_size s" using sizes(6) le by simp
  obtain j where j: "j < ring_size s" "(lo s + j) mod ring_size s = ?n mod ring_size s"
    using ring_index_surj [of "?n mod ring_size s" "ring_size s" "lo s"] sizes(2) by auto
  define w where "w = lo s + j"
  have w: "lo s \<le> w" "w < lo s + ring_size s" "cell s ?n = cell s w"
    using j by (simp_all add: w_def cell_def)
  have nw: "?n \<le> w"
    using ring_window_inj [of "lo s" w "ring_size s" ?n] j(2) w(1,2) n by (cases "lo s \<le> ?n") (auto simp: w_def)
  have pos: "position = of_nat ?n" by simp
  have "slot_sequence (cell s w) - position = of_nat (w - ?n) \<or>
        slot_sequence (cell s w) - position = of_nat (Suc w - ?n)"
    using window_sequence [OF inv w(1,2)] nw by (subst pos) (auto simp: of_nat_diff)
  moreover have "w - ?n < 2 ^ 63" "Suc w - ?n < 2 ^ 63"
    using w(2) sizes(4,5) by auto
  ultimately show False
    using neg w(3) by (auto simp: sint_of_nat_small simp del: of_nat_diff)
qed

lemma mpsc_inv_sequence_step:
  assumes "mpsc_inv k s" "producers s t = P_Seq x position"
  shows "mpsc_inv k (snd (producer_step t (P_Seq x position) s))"
proof -
  have le: "unat position \<le> hi s"
    using assms by (metis mpsc_inv_def producer_ok.simps(1))
  have i: "buffer (ring s) ! slot_index (ring s) position = cell s (unat position)"
    using slot_index_pos [OF assms(1)] by (simp add: cell_def)
  have "\<not> ring_size s \<le> slot_index (ring s) position"
    using slot_index_pos [OF assms(1)] mpsc_inv_sizes(2) [OF assms(1)] by (simp add: not_le)
  then show ?thesis
    using assms le sequence_match_has_room [OF assms(1), of position]
    by (auto simp: Let_def i intro!: mpsc_inv_unflown)
qed

lemma mpsc_inv_claim:
  assumes inv: "mpsc_inv k s" and pc: "producers s t = P_Cas x position"
    and eq: "producer_index (ring s) = position"
    and fits: "fits_i64 (snd (producer_step t (P_Cas x position) s))"
  shows "mpsc_inv k (snd (producer_step t (P_Cas x position) s))"
proof -
  define s' where "s' = snd (producer_step t (P_Cas x position) s)"
  note sizes = mpsc_inv_sizes [OF inv]
  have pos: "unat position = hi s" "position = of_nat (hi s)"
    using eq sizes(7,8) by auto
  have ok: "producer_ok s u (producers s u)" for u
    using inv by (simp add: mpsc_inv_def)
  have room: "hi s < lo s + ring_size s"
    using ok [of t] pc pos by simp
  have upd: "claimed s' = claimed s @ [(t, x)]" "lo s' = lo s" "consumer s' = consumer s"
    "producers s' = (producers s)(t := P_Write x position)" "ring_size s' = ring_size s"
    "producer_index (ring s') = position + 1" "consumer_index (ring s') = consumer_index (ring s)"
    "delivered s' = delivered s" "cell s' = cell s" "ring_shape k (ring s') = ring_shape k (ring s)"
    using eq by (auto simp: s'_def lo_def cell_def ring_shape_def fun_eq_iff)
  have far: "p < hi s \<Longrightarrow> (of_nat p :: i64) \<noteq> position" for p
    using pos(2) sizes(4) by (simp add: of_nat_eq_small)
  have old: "p < hi s \<Longrightarrow> cell_ok s' p = cell_ok s p" for p
    using pc far [of p] by (auto simp: cell_ok_def upd nth_append split: prod.splits)
  have flight: "p < hi s \<Longrightarrow> in_flight s' p = in_flight s p" for p
    using pc far [of p] by (auto simp: in_flight_def upd nth_append split: prod.splits)
  have new: "cell_ok s' (hi s)"
    using inv room by (simp add: cell_ok_def upd pos mpsc_inv_def cells_inv_def)
  have "cells_inv s'"
    using inv old new by (auto simp: cells_inv_def upd mpsc_inv_def less_Suc_eq)
  moreover have "producer_ok s' u (producers s' u)" for u
    using ok [of u] room pos sizes(5) by (cases "producers s u") (auto simp: upd nth_append)
  moreover have "consumer_ok s' (consumer s')"
    using inv by (cases "consumer s") (auto simp: upd mpsc_inv_def head_published_def flight nth_append)
  moreover have "unat (consumer_index (ring s)) \<le> hi s"
    using sizes(5) by (simp add: lo_def split: consumer.splits)
  moreover have "bounds_inv k s'"
    using inv room pos sizes(1) fits unfolding s'_def [symmetric]
    by (simp add: bounds_inv_def mpsc_inv_def upd)
  ultimately show ?thesis
    using inv unfolding s'_def [symmetric] by (simp add: mpsc_inv_def upd)
qed

lemma in_flight_position:
  assumes "mpsc_inv k s" "producers s t = P_Write x position \<or> producers s t = P_Publish position"
  shows "lo s \<le> unat position" "unat position < hi s" "fst (claimed s ! unat position) = t"
    "in_flight s (unat position)"
proof -
  have ok: "producer_ok s t (producers s t)"
    using assms(1) by (simp add: mpsc_inv_def)
  then show "lo s \<le> unat position" "unat position < hi s" "fst (claimed s ! unat position) = t"
    using assms(2) by auto
  show "in_flight s (unat position)"
    using ok assms(2) by (auto simp: in_flight_def split: prod.splits)
qed

lemma mpsc_inv_own_slot:
  assumes inv: "mpsc_inv k s"
    and pc: "producers s t = P_Write x position \<or> producers s t = P_Publish position"
    and pc': "pc' = P_Publish position \<or> pc' = P_Done True"
    and s': "s' = set_producer t pc' (update_slot (unat position mod ring_size s) f s)"
    and mine: "cell_ok s' (unat position)"
  shows "mpsc_inv k s'"
proof -
  note sizes = mpsc_inv_sizes [OF inv] and pos = in_flight_position [OF inv pc]
  let ?n = "unat position"
  have upd: "claimed s' = claimed s" "lo s' = lo s" "consumer s' = consumer s" "ring_size s' = ring_size s"
    "producers s' = (producers s)(t := pc')" "consumer_index (ring s') = consumer_index (ring s)"
    "producer_index (ring s') = producer_index (ring s)" "delivered s' = delivered s"
    by (simp_all add: s' del: fun_upd_apply)
  have other: "cell s' p = cell s p" if "lo s \<le> p" "p < lo s + ring_size s" "p \<noteq> ?n" for p
    using ring_window_inj [of "lo s" p "ring_size s" ?n] that pos sizes(6)
    by (simp add: s' cell_update_slot [OF sizes(2)])
  have ne: "of_nat p \<noteq> position" if "p < hi s" "p \<noteq> ?n" for p
    using that unat_of_nat_small [of p] sizes(4) by auto
  have flight: "in_flight s' p = in_flight s p" if "p < hi s" "p \<noteq> ?n" for p
    using ne [OF that] pc pc' by (auto simp: in_flight_def upd split: prod.splits)
  have landed: "\<not> in_flight s' p" if "p < hi s" "\<not> in_flight s p" for p
    using flight [of p] that pos(4) by metis
  have "cell_ok s' p" if "lo s \<le> p" "p < hi s" for p
  proof (cases "p = ?n")
    case False
    have "cell_ok s p" using inv that by (simp add: mpsc_inv_def cells_inv_def)
    then show ?thesis
      using ne [OF that(2) False] other [OF that(1) _ False] that sizes(6) pc pc'
      by (auto simp: cell_ok_def upd split: prod.splits if_splits)
  qed (simp add: mine)
  moreover have "cell s' p = cell s p" if "hi s \<le> p" "p < lo s + ring_size s" for p
    using other [of p] that pos sizes(5) by auto
  ultimately have "cells_inv s'"
    using inv by (simp add: cells_inv_def upd mpsc_inv_def)
  moreover have "producer_ok s' u (producers s' u)" for u
    using inv pc pc' pos by (cases "producers s u") (auto simp: mpsc_inv_def upd dest!: spec [of _ u])
  moreover have "consumer_ok s' (consumer s')"
    using inv landed by (cases "consumer s") (auto simp: upd mpsc_inv_def head_published_def)
  moreover have "bounds_inv k s'"
    using inv by (auto simp: bounds_inv_def mpsc_inv_def upd fits_i64_def) (simp add: s')
  ultimately show ?thesis
    using inv by (simp add: mpsc_inv_def upd)
qed

lemma mpsc_inv_write:
  assumes inv: "mpsc_inv k s" and pc: "producers s t = P_Write x position"
  shows "mpsc_inv k (snd (producer_step t (P_Write x position) s))"
proof -
  note sizes = mpsc_inv_sizes [OF inv] and pos = in_flight_position [OF inv disjI1 [OF pc]]
  have mine: "claimed s ! unat position = (t, x)"
    using inv pc by (auto simp: mpsc_inv_def dest!: spec [of _ t])
  have "cell_ok s (unat position)"
    using inv pos by (simp add: mpsc_inv_def cells_inv_def)
  then have "cell s (unat position) = \<lparr>slot_sequence = position, slot_data = None\<rparr>"
    using pc mine by (simp add: cell_ok_def)
  then show ?thesis
    using mine pc
    by (intro mpsc_inv_own_slot [OF inv, where t = t and x = x and position = position and pc' = "P_Publish position"])
       (auto simp: slot_index_pos [OF inv] cell_ok_def cell_update_slot [OF sizes(2)])
qed

lemma mpsc_inv_publish:
  assumes inv: "mpsc_inv k s" and pc: "producers s t = P_Publish position"
  shows "mpsc_inv k (snd (producer_step t (P_Publish position) s))"
proof -
  note sizes = mpsc_inv_sizes [OF inv] and pos = in_flight_position [OF inv disjI2 [OF pc]]
  obtain x where mine: "claimed s ! unat position = (t, x)"
    using pos(3) by (metis prod.collapse)
  have "cell_ok s (unat position)"
    using inv pos by (simp add: mpsc_inv_def cells_inv_def)
  then have "cell s (unat position) = \<lparr>slot_sequence = position, slot_data = Some x\<rparr>"
    using pc mine by (simp add: cell_ok_def)
  moreover have "consumer s \<noteq> C_Release position y" for y
    using inv pos(4) by (auto simp: mpsc_inv_def head_published_def)
  ultimately show ?thesis
    using mine pc
    by (intro mpsc_inv_own_slot [OF inv, where t = t and x = x and position = position and pc' = "P_Done True"])
       (auto simp: slot_index_pos [OF inv] cell_ok_def cell_update_slot [OF sizes(2)] add.commute)
qed

lemma mpsc_inv_producer_step:
  assumes "mpsc_inv k s" "producer_step t (producers s t) s = (e, s')" "fits_i64 s'"
  shows "mpsc_inv k s'"
proof -
  have s': "s' = snd (producer_step t (producers s t) s)"
    using assms(2) by simp
  note sizes = mpsc_inv_sizes [OF assms(1)]
  show ?thesis
  proof (cases "producers s t")
    case (P_Load x)
    then show ?thesis
      using assms(1) sizes(7) by (auto simp: s' intro!: mpsc_inv_unflown)
  next
    case (P_Seq x position)
    then show ?thesis using mpsc_inv_sequence_step [OF assms(1)] by (simp add: s' del: producer_step.simps)
  next
    case (P_Cas x position)
    show ?thesis
    proof (cases "producer_index (ring s) = position")
      case True
      then show ?thesis
        using mpsc_inv_claim [OF assms(1) P_Cas] assms(3) P_Cas by (simp add: s' del: producer_step.simps)
    next
      case False
      then show ?thesis
        using assms(1) P_Cas by (auto simp: s' intro!: mpsc_inv_unflown)
    qed
  next
    case (P_Write x position)
    then show ?thesis using mpsc_inv_write [OF assms(1)] by (simp add: s' del: producer_step.simps)
  next
    case (P_Publish position)
    then show ?thesis using mpsc_inv_publish [OF assms(1)] by (simp add: s' del: producer_step.simps)
  qed (use assms(1) s' in simp_all)
qed

section \<open>The consumer's steps\<close>

lemma mpsc_inv_head:
  assumes inv: "mpsc_inv k s" and lo: "lo s = unat (consumer_index (ring s))"
    and seq: "slot_sequence (cell s (lo s)) = consumer_index (ring s) + 1"
  shows "head_published s (consumer_index (ring s))"
proof -
  note sizes = mpsc_inv_sizes [OF inv]
  have ne: "(of_nat (lo s) :: i64) \<noteq> of_nat (Suc (lo s))"
    using sizes(4,5) by (subst of_nat_eq_small) auto
  have seq': "slot_sequence (cell s (lo s)) = of_nat (Suc (lo s))"
    using seq by (simp add: lo add.commute)
  have lt: "lo s < hi s"
  proof (rule ccontr)
    assume "\<not> lo s < hi s"
    then have "cell s (lo s) = \<lparr>slot_sequence = of_nat (lo s), slot_data = None\<rparr>"
      using inv sizes(2,5) by (simp add: mpsc_inv_def cells_inv_def)
    then show False using seq' ne by simp
  qed
  then have "cell_ok s (lo s)"
    using inv by (simp add: mpsc_inv_def cells_inv_def)
  then have "\<not> in_flight s (lo s)"
    using seq' ne by (auto simp: cell_ok_def in_flight_def split: prod.splits)
  then show ?thesis
    using lt lo by (simp add: head_published_def)
qed

lemma mpsc_inv_consumer_check:
  assumes inv: "mpsc_inv k s" and idle: "consumer s = C_Idle \<or> (\<exists>r. consumer s = C_Done r)"
    and pc: "pc = C_Done None \<or> (pc = C_Read (consumer_index (ring s)) \<and>
      slot_sequence (cell s (unat (consumer_index (ring s)))) = consumer_index (ring s) + 1)"
  shows "mpsc_inv k (s\<lparr>consumer := pc\<rparr>)"
proof -
  have lo: "lo (s\<lparr>consumer := pc\<rparr>) = lo s" "lo s = unat (consumer_index (ring s))"
    using idle pc by (auto simp: lo_def)
  have "cell_ok (s\<lparr>consumer := pc\<rparr>) p = cell_ok s p" "cell (s\<lparr>consumer := pc\<rparr>) p = cell s p" for p
    using idle pc by (auto simp: cell_ok_def cell_def split: prod.splits)
  moreover have "producer_ok (s\<lparr>consumer := pc\<rparr>) u pc' = producer_ok s u pc'" for u pc'
    using lo by (cases pc') auto
  moreover have "consumer_ok (s\<lparr>consumer := pc\<rparr>) pc"
    using pc mpsc_inv_head [OF inv lo(2)] lo(2) by (auto simp: head_published_def in_flight_def)
  ultimately show ?thesis
    using inv lo by (simp add: mpsc_inv_def bounds_inv_def cells_inv_def fits_i64_def)
qed

text \<open>What the consumer's slot holds between the check and the release.\<close>

lemma head_cell:
  assumes inv: "mpsc_inv k s" and head: "head_published s position"
    and pc: "consumer s = C_Read position \<or> consumer s = C_Release position (snd (claimed s ! unat position))"
  shows "lo s = unat position" "unat position < hi s"
    "cell s (unat position) = \<lparr>slot_sequence = position + 1,
       slot_data = (if consumer s = C_Read position then Some (snd (claimed s ! unat position)) else None)\<rparr>"
proof -
  show lo: "lo s = unat position" and lt: "unat position < hi s"
    using head pc by (auto simp: lo_def head_published_def)
  have "cell_ok s (unat position)"
    using inv lo lt by (simp add: mpsc_inv_def cells_inv_def)
  then show "cell s (unat position) = \<lparr>slot_sequence = position + 1,
       slot_data = (if consumer s = C_Read position then Some (snd (claimed s ! unat position)) else None)\<rparr>"
    using head pc by (auto simp: cell_ok_def head_published_def in_flight_def add.commute split: prod.splits if_splits)
qed

lemma mpsc_inv_read:
  assumes inv: "mpsc_inv k s" and pc: "consumer s = C_Read position"
  shows "mpsc_inv k (snd (consumer_step (C_Read position) s))"
proof -
  note sizes = mpsc_inv_sizes [OF inv]
  have head: "head_published s position"
    using inv pc by (auto simp: mpsc_inv_def)
  note hc = head_cell [OF inv head disjI1 [OF pc]]
  let ?x = "snd (claimed s ! unat position)"
  define s' where "s' = (update_slot (unat position mod ring_size s) (\<lambda>c. c\<lparr>slot_data := None\<rparr>) s)\<lparr>consumer := C_Release position ?x\<rparr>"
  have step: "snd (consumer_step (C_Read position) s) = s'"
    using hc(3) pc slot_index_pos [OF inv, of position] by (simp add: s'_def cell_def)
  have upd: "claimed s' = claimed s" "lo s' = lo s" "consumer s' = C_Release position ?x" "ring_size s' = ring_size s"
    "producers s' = producers s" "consumer_index (ring s') = consumer_index (ring s)"
    "producer_index (ring s') = producer_index (ring s)" "delivered s' = delivered s"
    using pc by (simp_all add: s'_def lo_def)
  have cells: "cell s' p = (if p mod ring_size s = unat position mod ring_size s
      then \<lparr>slot_sequence = position + 1, slot_data = None\<rparr> else cell s p)" for p
    using cell_update_slot [OF sizes(2), of "unat position" _ p] hc(3) pc by (simp add: s'_def cell_def)
  have other: "cell s' p = cell s p" if "lo s \<le> p" "p < lo s + ring_size s" "p \<noteq> unat position" for p
    using ring_window_inj [of "lo s" p "ring_size s" "unat position"] that hc(1) sizes(2) by (simp add: cells)
  have ne: "of_nat p \<noteq> position" if "p < hi s" "p \<noteq> unat position" for p
    using that unat_of_nat_small [of p] sizes(4) by auto
  have "cell_ok s' p" if "lo s \<le> p" "p < hi s" for p
  proof (cases "p = unat position")
    case True
    then show ?thesis
      using head by (auto simp: cell_ok_def upd cells head_published_def in_flight_def add.commute split: prod.splits)
  next
    case False
    have "cell_ok s p" using inv that by (simp add: mpsc_inv_def cells_inv_def)
    then show ?thesis
      using other [OF that(1) _ False] ne [OF that(2) False] that sizes(6) pc
      by (auto simp: cell_ok_def upd split: prod.splits if_splits)
  qed
  moreover have "cell s' p = cell s p" if "hi s \<le> p" "p < lo s + ring_size s" for p
    using other [of p] that hc(1,2) by auto
  ultimately have "cells_inv s'"
    using inv by (simp add: cells_inv_def upd mpsc_inv_def)
  moreover have "producer_ok s' u pc'= producer_ok s u pc'" for u pc'
    by (cases pc') (auto simp: upd)
  moreover have "consumer_ok s' (consumer s')"
    using head by (auto simp: upd head_published_def in_flight_def)
  moreover have "bounds_inv k s'"
    using inv by (auto simp: bounds_inv_def mpsc_inv_def upd fits_i64_def) (simp add: s'_def)
  ultimately show ?thesis
    using inv unfolding step by (simp add: mpsc_inv_def upd)
qed

lemma mpsc_inv_release:
  assumes inv: "mpsc_inv k s" and pc: "consumer s = C_Release position x"
  shows "mpsc_inv k (snd (consumer_step (C_Release position x) s))"
proof -
  note sizes = mpsc_inv_sizes [OF inv]
  have head: "head_published s position" and x: "x = snd (claimed s ! unat position)"
    using inv pc by (auto simp: mpsc_inv_def)
  note hc = head_cell [OF inv head disjI2 [OF pc [unfolded x]]]
  define s' where "s' = snd (consumer_step (C_Release position x) s)"
  have cap: "queue_capacity (ring s) = of_nat (ring_size s)"
    using inv by (simp add: mpsc_inv_def bounds_inv_def ring_shape_def)
  have upd: "claimed s' = claimed s" "lo s' = Suc (lo s)" "consumer s' = C_Advance position x" "ring_size s' = ring_size s"
    "producers s' = producers s" "consumer_index (ring s') = consumer_index (ring s)"
    "producer_index (ring s') = producer_index (ring s)" "delivered s' = delivered s"
    "ring_shape k (ring s') = ring_shape k (ring s)"
    using pc by (simp_all add: s'_def lo_def)
  have cells: "cell s' p = (if p mod ring_size s = unat position mod ring_size s
      then \<lparr>slot_sequence = position + of_nat (ring_size s), slot_data = None\<rparr> else cell s p)" for p
    using cell_update_slot [OF sizes(2), of "unat position" _ p] hc(3) pc
    by (simp add: s'_def cell_def slot_index_pos [OF inv] cap)
  have other: "cell s' p = cell s p" if "lo s < p" "p < lo s + ring_size s" for p
    using ring_window_inj [of "lo s" p "ring_size s" "unat position"] that hc(1) sizes(2) by (simp add: cells)
  have last: "cell s' (lo s + ring_size s) = \<lparr>slot_sequence = of_nat (lo s + ring_size s), slot_data = None\<rparr>"
    using hc(1) by (simp add: cells)
  have "cell_ok s' p" if "lo s < p" "p < hi s" for p
  proof -
    have "cell_ok s p" using inv that by (simp add: mpsc_inv_def cells_inv_def)
    moreover have "of_nat p \<noteq> position"
      using that hc(1) unat_of_nat_small [of p] sizes(4) by auto
    ultimately show ?thesis
      using other [OF that(1)] that sizes(6) pc
      by (auto simp: cell_ok_def upd split: prod.splits if_splits)
  qed
  moreover have "cell s' p = \<lparr>slot_sequence = of_nat p, slot_data = None\<rparr>"
    if "hi s \<le> p" "p < Suc (lo s + ring_size s)" for p
  proof (cases "p = lo s + ring_size s")
    case False
    then show ?thesis
      using that other [of p] hc(1,2) inv by (simp add: mpsc_inv_def cells_inv_def)
  qed (simp add: last)
  ultimately have "cells_inv s'"
    by (simp add: cells_inv_def upd Suc_le_eq)
  moreover have "producer_ok s' u (producers s' u)" for u
  proof -
    have ok: "producer_ok s u (producers s u)"
      using inv by (simp add: mpsc_inv_def)
    have "unat p \<noteq> lo s" if "producers s u = P_Write y p \<or> producers s u = P_Publish p" for p y
      using in_flight_position(4) [OF inv that] head hc(1) by (auto simp: head_published_def)
    then show ?thesis
      using ok by (cases "producers s u") (auto simp: upd Suc_le_eq le_less)
  qed
  moreover have "consumer_ok s' (consumer s')"
    using head x by (auto simp: upd head_published_def)
  moreover have "bounds_inv k s'"
    using inv hc(1,2) by (auto simp: bounds_inv_def mpsc_inv_def upd fits_i64_def)
  ultimately show ?thesis
    using inv unfolding s'_def [symmetric] by (auto simp: mpsc_inv_def upd)
qed

lemma mpsc_inv_advance:
  assumes inv: "mpsc_inv k s" and pc: "consumer s = C_Advance position x"
  shows "mpsc_inv k (snd (consumer_step (C_Advance position x) s))"
proof -
  note sizes = mpsc_inv_sizes [OF inv]
  have ok: "position = consumer_index (ring s)" "unat position < hi s" "x = snd (claimed s ! unat position)"
    using inv pc by (auto simp: mpsc_inv_def)
  define s' where "s' = snd (consumer_step (C_Advance position x) s)"
  have next_pos: "unat (position + 1) = Suc (unat position)"
    using ok(2) sizes(4) unat_of_nat_small [of "Suc (unat position)"] by (simp add: add.commute)
  have upd: "claimed s' = claimed s" "consumer s' = C_Done (Some x)" "ring_size s' = ring_size s"
    "producers s' = producers s" "consumer_index (ring s') = position + 1"
    "producer_index (ring s') = producer_index (ring s)" "delivered s' = delivered s @ [x]"
    "cell s' = cell s" "ring_shape k (ring s') = ring_shape k (ring s)" "lo s' = lo s"
    using pc ok(1) next_pos by (auto simp: s'_def cell_def ring_shape_def fun_eq_iff lo_def)
  have "cell_ok s' p = cell_ok s p" for p
    using pc by (auto simp: cell_ok_def upd split: prod.splits)
  then have "cells_inv s'"
    using inv by (simp add: cells_inv_def upd mpsc_inv_def)
  moreover have "producer_ok s' u pc' = producer_ok s u pc'" for u pc'
    by (cases pc') (auto simp: upd)
  moreover have "bounds_inv k s'"
    using inv by (auto simp: bounds_inv_def mpsc_inv_def upd fits_i64_def)
  moreover have "delivered s' = map snd (take (unat (consumer_index (ring s'))) (claimed s'))"
    using inv ok next_pos by (simp add: upd mpsc_inv_def take_Suc_conv_app_nth)
  ultimately show ?thesis
    using inv unfolding s'_def [symmetric] by (simp add: mpsc_inv_def upd)
qed

lemma mpsc_inv_consumer_step:
  assumes inv: "mpsc_inv k s" and step: "consumer_step (consumer s) s = (e, s')"
  shows "mpsc_inv k s'"
proof -
  have s': "s' = snd (consumer_step (consumer s) s)"
    using step by simp
  have i: "buffer (ring s) ! slot_index (ring s) position = cell s (unat position)" for position
    using slot_index_pos [OF inv] by (simp add: cell_def)
  have bound: "\<not> ring_size s \<le> slot_index (ring s) position" for position
    using slot_index_pos [OF inv] mpsc_inv_sizes(2) [OF inv] by (simp add: not_le)
  show ?thesis
  proof (cases "consumer s")
    case C_Idle
    then show ?thesis
      using inv bound by (auto simp: s' Let_def i intro!: mpsc_inv_consumer_check)
  next
    case (C_Done r)
    then show ?thesis
      using inv bound by (auto simp: s' Let_def i intro!: mpsc_inv_consumer_check)
  next
    case (C_Read position)
    then show ?thesis using mpsc_inv_read [OF inv] by (simp add: s' del: consumer_step.simps)
  next
    case (C_Release position x)
    then show ?thesis using mpsc_inv_release [OF inv] by (simp add: s' del: consumer_step.simps)
  next
    case (C_Advance position x)
    then show ?thesis using mpsc_inv_advance [OF inv] by (simp add: s' del: consumer_step.simps)
  qed (use inv s' in simp_all)
qed

section \<open>Reachable states\<close>

lemma mpsc_inv_step:
  assumes "mpsc_inv k s" "mpsc_step s e s'" "fits_i64 s'"
  shows "mpsc_inv k s'"
  using assms(2)
proof cases
  case (call t x)
  then show ?thesis
    using assms(1) by (auto intro!: mpsc_inv_unflown)
next
  case (produce t)
  then show ?thesis using assms(1,3) by (blast intro: mpsc_inv_producer_step)
next
  case consume
  then show ?thesis using assms(1) by (blast intro: mpsc_inv_consumer_step)
qed

lemma mpsc_inv_init:
  assumes "new_queue capacity = Some (Inr q)" "fits_i64 (mpsc_init q)"
  shows "\<exists>k. mpsc_inv k (mpsc_init q)"
proof -
  have "2 \<le> unat capacity" "unat capacity \<le> 2 ^ 63"
    using assms(1) by (auto simp: new_queue_def normalize_value word_less_nat_alt split: if_splits)
  then have q: "queue_inv q" "contents q = []"
    using new_queue_inv [of capacity] assms(1) by (metis option.inject sum.inject(2))+
  have fresh: "producer_index q = 0" "consumer_index q = 0"
    using assms(1) by (auto simp: new_queue_def split: if_splits option.splits sum.splits)
  obtain k where k: "ring_shape k q" "slots_ok q"
    using q(1) by (rule queue_invE)
  have "buffer q ! p = \<lparr>slot_sequence = of_nat p, slot_data = None\<rparr>" if "p < length (buffer q)" for p
    using k(2) that fresh by (auto simp: slots_ok_def slot_at_def pending_count_def)
  then have "mpsc_inv k (mpsc_init q)"
    using k(1) assms(2) fresh
    by (auto simp: mpsc_inv_def bounds_inv_def cells_inv_def mpsc_init_def lo_def cell_def)
  then show ?thesis ..
qed

lemma mpsc_reach_inv: "mpsc_reach capacity s \<Longrightarrow> \<exists>k. mpsc_inv k s"
  by (induction rule: mpsc_reach.induct) (blast intro: mpsc_inv_init mpsc_inv_step)+

section \<open>Simulation of the mailbox\<close>

lemma mpsc_mailbox_cong:
  assumes "claimed s' = claimed s" "lo s' = lo s"
    "\<And>p. lo s \<le> p \<Longrightarrow> p < hi s \<Longrightarrow> in_flight s' p = in_flight s p"
  shows "mpsc_mailbox s' = mpsc_mailbox s"
  using assms by (simp add: mpsc_mailbox_def)

lemma length_mpsc_mailbox: "length (mpsc_mailbox s) = hi s - lo s"
  by (simp add: mpsc_mailbox_def)

lemma mailbox_internal:
  assumes "mpsc_mailbox s' = mpsc_mailbox s"
  shows "mailbox_step n Mb_Internal (mpsc_mailbox s) (mpsc_mailbox s')"
  using assms by (simp add: mailbox_step.internal)

lemma mailbox_unflown:
  assumes "\<not> flying (producers s t)" "\<not> flying pc"
  shows "mpsc_mailbox (set_producer t pc s) = mpsc_mailbox s"
  using assms by (intro mpsc_mailbox_cong) (auto simp: in_flight_unflown)

lemma mailbox_claim:
  assumes inv: "mpsc_inv k s" and pc: "producers s t = P_Cas x position" and eq: "producer_index (ring s) = position"
  shows "mpsc_mailbox (snd (producer_step t (P_Cas x position) s)) = mb_claim t x (mpsc_mailbox s)"
    and "length (mpsc_mailbox s) < ring_size s"
proof -
  note sizes = mpsc_inv_sizes [OF inv]
  define s' where "s' = snd (producer_step t (P_Cas x position) s)"
  have pos: "unat position = hi s" "position = of_nat (hi s)"
    using eq sizes(7,8) by auto
  have upd: "claimed s' = claimed s @ [(t, x)]" "lo s' = lo s"
    "producers s' = (producers s)(t := P_Write x position)"
    using eq by (auto simp: s'_def lo_def)
  have "in_flight s' p = in_flight s p" if "p < hi s" for p
  proof -
    have "(of_nat p :: i64) \<noteq> position"
      using pos(2) sizes(4) that by (simp add: of_nat_eq_small)
    then show ?thesis
      using pc that by (auto simp: in_flight_def upd nth_append split: prod.splits)
  qed
  moreover have "in_flight s' (hi s)"
    by (simp add: in_flight_def upd pos)
  ultimately show "mpsc_mailbox (snd (producer_step t (P_Cas x position) s)) = mb_claim t x (mpsc_mailbox s)"
    using sizes(5) unfolding s'_def [symmetric]
    by (simp add: mpsc_mailbox_def mb_claim_def upd nth_append)
  have "producer_ok s t (P_Cas x position)"
    using inv pc by (auto simp: mpsc_inv_def dest: spec [of _ t])
  then show "length (mpsc_mailbox s) < ring_size s"
    using pos sizes(2,5) by (simp add: length_mpsc_mailbox)
qed

lemma mailbox_publish:
  assumes inv: "mpsc_inv k s" and pc: "producers s t = P_Publish position"
  shows "mpsc_mailbox (snd (producer_step t (P_Publish position) s)) = mb_publish t (mpsc_mailbox s)"
proof -
  note sizes = mpsc_inv_sizes [OF inv] and pos = in_flight_position [OF inv disjI2 [OF pc]]
  define s' where "s' = snd (producer_step t (P_Publish position) s)"
  have upd: "claimed s' = claimed s" "lo s' = lo s" "producers s' = (producers s)(t := P_Done True)"
    by (auto simp: s'_def)
  have "(\<not> in_flight s' p) = (\<not> in_flight s p \<or> fst (claimed s ! p) = t)" for p
    using pc by (auto simp: in_flight_def upd split: prod.splits)
  then show ?thesis
    unfolding s'_def [symmetric] by (auto simp: mpsc_mailbox_def mb_publish_def upd)
qed

lemma mailbox_write:
  assumes inv: "mpsc_inv k s" and pc: "producers s t = P_Write x position"
  shows "mpsc_mailbox (snd (producer_step t (P_Write x position) s)) = mpsc_mailbox s"
proof (rule mpsc_mailbox_cong)
  note sizes = mpsc_inv_sizes [OF inv]
  have mine: "claimed s ! unat position = (t, x)"
    using inv pc by (auto simp: mpsc_inv_def dest!: spec [of _ t])
  fix p assume p: "p < hi s"
  then have "of_nat p = position \<longleftrightarrow> p = unat position"
    using unat_of_nat_small [of p] sizes(4) by auto
  then show "in_flight (snd (producer_step t (P_Write x position) s)) p = in_flight s p"
    using pc mine by (auto simp: in_flight_def split: prod.splits)
qed simp_all

lemma mb_deq_Cons [simp]: "mb_deq ((t, x, b) # m) = (if b then Some (x, m) else None)"
  by (cases b) simp_all

lemma mailbox_release:
  assumes inv: "mpsc_inv k s" and pc: "consumer s = C_Release position x"
  shows "mb_deq (mpsc_mailbox s) = Some (x, mpsc_mailbox (snd (consumer_step (C_Release position x) s)))"
proof -
  have head: "head_published s position" and x: "x = snd (claimed s ! unat position)"
    using inv pc by (auto simp: mpsc_inv_def)
  note hc = head_cell [OF inv head disjI2 [OF pc [unfolded x]]]
  define s' where "s' = snd (consumer_step (C_Release position x) s)"
  have upd: "lo s' = Suc (lo s)" "claimed s' = claimed s" "in_flight s' = in_flight s"
    using pc by (auto simp: s'_def lo_def in_flight_def fun_eq_iff)
  have "\<not> in_flight s (lo s)"
    using head hc(1) by (auto simp: head_published_def)
  then show ?thesis
    using hc(1,2) x unfolding s'_def [symmetric]
    by (simp add: mpsc_mailbox_def upd upt_conv_Cons)
qed

lemma mailbox_nothing:
  assumes inv: "mpsc_inv k s" and lo: "lo s = unat (consumer_index (ring s))"
    and seq: "slot_sequence (cell s (lo s)) \<noteq> consumer_index (ring s) + 1"
    and idle: "\<And>y. consumer s \<noteq> C_Release (consumer_index (ring s)) y"
  shows "mb_deq (mpsc_mailbox s) = None"
proof (cases "lo s < hi s")
  case True
  then have "cell_ok s (lo s)"
    using inv by (simp add: mpsc_inv_def cells_inv_def)
  then have "in_flight s (lo s)"
    using seq lo by (auto simp: cell_ok_def in_flight_def add.commute split: prod.splits if_splits)
  then show ?thesis
    using True by (simp add: mpsc_mailbox_def upt_conv_Cons)
qed (simp add: mpsc_mailbox_def)

lemma mailbox_frame [simp]:
  "(\<And>p y. consumer s \<noteq> C_Advance p y) \<Longrightarrow> (\<And>p y. pc \<noteq> C_Advance p y) \<Longrightarrow>
     mpsc_mailbox (s\<lparr>consumer := pc\<rparr>) = mpsc_mailbox s"
  by (intro mpsc_mailbox_cong) (auto simp: lo_def in_flight_def split: consumer.splits)

lemma mailbox_slot_frame [simp]: "mpsc_mailbox (update_slot i f s) = mpsc_mailbox s"
  by (intro mpsc_mailbox_cong) (auto simp: in_flight_def)

lemma mailbox_producer_step:
  assumes inv: "mpsc_inv k s" and step: "producer_step t (producers s t) s = (e, s')"
  shows "mailbox_step (ring_size s) e (mpsc_mailbox s) (mpsc_mailbox s')"
proof (cases "producers s t")
  case (P_Seq x position)
  have "producer_ok s t (P_Seq x position)"
    using inv P_Seq by (auto simp: mpsc_inv_def dest: spec [of _ t])
  then have full: "sint (slot_sequence (cell s (unat position)) - position) < 0 \<Longrightarrow>
      length (mpsc_mailbox s) = ring_size s"
    using negative_difference_full [OF inv, of position] by (simp add: length_mpsc_mailbox)
  have i: "buffer (ring s) ! slot_index (ring s) position = cell s (unat position)"
    using slot_index_pos [OF inv] by (simp add: cell_def)
  show ?thesis
    using step P_Seq full mailbox_unflown [of s t]
    by (auto simp: Let_def i intro!: mailbox_internal mailbox_step.full split: if_splits)
next
  case (P_Cas x position)
  show ?thesis
  proof (cases "producer_index (ring s) = position")
    case True
    then have e: "e = Mb_Claim t x" using step P_Cas by simp
    have "mpsc_mailbox s' = mb_claim t x (mpsc_mailbox s)"
      using mailbox_claim(1) [OF inv P_Cas True] step P_Cas by (metis snd_conv)
    then show ?thesis
      using mailbox_claim(2) [OF inv P_Cas True] e by (simp add: mailbox_step.claim)
  next
    case False
    then show ?thesis
      using step P_Cas mailbox_unflown [of s t] by (auto intro: mailbox_internal)
  qed
next
  case (P_Write x position)
  then show ?thesis
    using mailbox_write [OF inv P_Write] step by (auto intro!: mailbox_internal)
next
  case (P_Publish position)
  then have e: "e = Mb_Publish t" using step by simp
  have "mpsc_mailbox s' = mb_publish t (mpsc_mailbox s)"
    using mailbox_publish [OF inv P_Publish] step P_Publish by (metis snd_conv)
  then show ?thesis using e by (simp add: mailbox_step.publish)
qed (use step mailbox_unflown [of s t] in \<open>auto intro: mailbox_internal\<close>)

lemma mailbox_consumer_step:
  assumes inv: "mpsc_inv k s" and step: "consumer_step (consumer s) s = (e, s')"
  shows "mailbox_step (ring_size s) e (mpsc_mailbox s) (mpsc_mailbox s')"
proof -
  have i: "buffer (ring s) ! slot_index (ring s) position = cell s (unat position)" for position
    using slot_index_pos [OF inv] by (simp add: cell_def)
  show ?thesis
  proof (cases "consumer s")
    case C_Idle
    then have "lo s = unat (consumer_index (ring s))" by (simp add: lo_def)
    then show ?thesis
      using C_Idle step mailbox_nothing [OF inv]
      by (auto simp: Let_def i intro!: mailbox_internal mailbox_step.nothing split: if_splits)
  next
    case (C_Done r)
    then have "lo s = unat (consumer_index (ring s))" by (simp add: lo_def)
    then show ?thesis
      using C_Done step mailbox_nothing [OF inv]
      by (auto simp: Let_def i intro!: mailbox_internal mailbox_step.nothing split: if_splits)
  next
    case (C_Read position)
    then show ?thesis
      using step by (auto simp: Let_def intro!: mailbox_internal split: option.splits)
  next
    case (C_Release position x)
    then have "e = Mb_Release x" "s' = snd (consumer_step (C_Release position x) s)"
      using step by auto
    then show ?thesis
      using mailbox_release [OF inv C_Release] by (simp add: mailbox_step.release del: consumer_step.simps)
  next
    case (C_Advance position x)
    have ok: "position = consumer_index (ring s)" "unat position < hi s"
      using inv C_Advance by (auto simp: mpsc_inv_def)
    have "unat (position + 1) = Suc (unat position)"
      using ok(2) mpsc_inv_sizes(4) [OF inv] unat_of_nat_small [of "Suc (unat position)"] by (simp add: add.commute)
    then have "mpsc_mailbox s' = mpsc_mailbox s"
      using C_Advance step ok(1) by (intro mpsc_mailbox_cong) (auto simp: lo_def in_flight_def)
    then show ?thesis
      using C_Advance step by (auto intro: mailbox_internal)
  qed (use step in \<open>auto intro: mailbox_internal\<close>)
qed

section \<open>Schedules\<close>

text \<open>A schedule picks which thread moves next; runs of schedules are reachable.\<close>

datatype 'a sched = Call nat 'a | Produce nat | Consume

fun sched_step :: "'a sched \<Rightarrow> 'a mpsc_state \<Rightarrow> 'a mpsc_state" where
  "sched_step (Call t x) s =
     (if producers s t \<in> {P_Idle, P_Done True, P_Done False} then set_producer t (P_Load x) s else s)"
| "sched_step (Produce t) s = snd (producer_step t (producers s t) s)"
| "sched_step Consume s = snd (consumer_step (consumer s) s)"

lemma sched_step_is_step: "sched_step a s = s \<or> (\<exists>e. mpsc_step s e (sched_step a s))"
proof (cases a)
  case (Call t x)
  then show ?thesis by (auto intro: mpsc_step.call)
next
  case (Produce t)
  then show ?thesis by (auto intro: mpsc_step.produce prod.collapse [symmetric])
next
  case Consume
  then show ?thesis by (auto intro: mpsc_step.consume prod.collapse [symmetric])
qed

lemma step_sizes:
  "hi (sched_step a s) \<le> Suc (hi s)" "ring_size (sched_step a s) = ring_size s"
proof -
  have p: "hi (snd (producer_step t pc s)) \<le> Suc (hi s) \<and> ring_size (snd (producer_step t pc s)) = ring_size s" for t pc
    by (cases pc) (auto simp: Let_def)
  have c: "hi (snd (consumer_step pc s)) \<le> Suc (hi s) \<and> ring_size (snd (consumer_step pc s)) = ring_size s" for pc
    by (cases pc) (auto simp: Let_def split: option.splits)
  show "hi (sched_step a s) \<le> Suc (hi s)" "ring_size (sched_step a s) = ring_size s"
    using p c by (cases a; auto)+
qed

lemma reach_schedule:
  assumes "mpsc_reach capacity s" "hi s + length xs + ring_size s < 2 ^ 63"
  shows "mpsc_reach capacity (fold sched_step xs s)"
  using assms
proof (induction xs arbitrary: s)
  case (Cons a xs)
  note sizes = step_sizes [of a s]
  have fits: "hi (sched_step a s) + length xs + ring_size (sched_step a s) < 2 ^ 63"
    using Cons.prems(2) sizes by simp
  then have "mpsc_reach capacity (sched_step a s)"
    using Cons.prems sched_step_is_step [of a s]
    by (auto simp: fits_i64_def intro: mpsc_reach.step)
  then show ?case using Cons.IH fits by simp
qed simp

definition two_slots :: "nat mpsc_queue" where
  "two_slots = \<lparr>buffer = [\<lparr>slot_sequence = 0, slot_data = None\<rparr>, \<lparr>slot_sequence = 1, slot_data = None\<rparr>],
     queue_capacity = 2, producer_index = 0, consumer_index = 0, index_mask = 1\<rparr>"

lemma new_two_slots: "new_queue 2 = Some (Inr two_slots)"
  by (simp add: new_queue_def normalize_to_power_of_two_def normalize_loop.simps checked_mul_usize_def
      init_slots_def two_slots_def upt_rec)

lemma reach_two_slots:
  assumes "length xs < 1000"
  shows "mpsc_reach 2 (fold sched_step xs (mpsc_init two_slots))"
  using assms
  by (intro reach_schedule mpsc_reach.start new_two_slots) (simp_all add: fits_i64_def mpsc_init_def two_slots_def)

lemmas eval_schedule =
  mpsc_init_def two_slots_def set_producer_def update_slot_def slot_index_def Let_def lo_def cell_def

section \<open>Properties\<close>

text \<open>
  C15: no interleaving of producers and the consumer makes the queue fail: no thread indexes outside
  the buffer, the consumer never reads an uninitialised slot, two producers never hold the same
  slot, and the slot the consumer is emptying is not one a producer is filling.
\<close>

theorem mpsc_slots_exclusive:
  assumes "mpsc_reach capacity s"
  shows "(\<forall>t. producers s t \<noteq> P_Panic) \<and> consumer s \<notin> {C_Panic, C_Uninit} \<and>
    (\<forall>t u x y p p'. producers s t \<in> {P_Write x p, P_Publish p} \<and> producers s u \<in> {P_Write y p', P_Publish p'}
       \<and> slot_index (ring s) p = slot_index (ring s) p' \<longrightarrow> t = u) \<and>
    (\<forall>t x y p p'. producers s t \<in> {P_Write x p, P_Publish p} \<and> consumer s \<in> {C_Read p', C_Release p' y}
       \<longrightarrow> slot_index (ring s) p \<noteq> slot_index (ring s) p')"
proof -
  obtain k where inv: "mpsc_inv k s" using mpsc_reach_inv [OF assms] by blast
  note sizes = mpsc_inv_sizes [OF inv]
  have "producer_ok s t (producers s t)" for t using inv by (simp add: mpsc_inv_def)
  then have "producers s t \<noteq> P_Panic" for t by (metis producer_ok.simps(5))
  moreover have "consumer s \<notin> {C_Panic, C_Uninit}"
    using inv by (auto simp: mpsc_inv_def)
  moreover have "t = u" if "producers s t \<in> {P_Write x p, P_Publish p}" "producers s u \<in> {P_Write y p', P_Publish p'}"
      "slot_index (ring s) p = slot_index (ring s) p'" for t u x y p p'
  proof -
    note t = in_flight_position [OF inv, of t x p] and u = in_flight_position [OF inv, of u y p']
    have "unat p = unat p'"
      using ring_window_inj [of "lo s" "unat p" "ring_size s" "unat p'"] that t u sizes(6)
      by (auto simp: slot_index_pos [OF inv])
    then show ?thesis using t(3) u(3) that by auto
  qed
  moreover have "slot_index (ring s) p \<noteq> slot_index (ring s) p'"
    if "producers s t \<in> {P_Write x p, P_Publish p}" "consumer s \<in> {C_Read p', C_Release p' y}" for t x y p p'
  proof -
    note t = in_flight_position [OF inv, of t x p]
    have head: "head_published s p'" and lo: "lo s = unat p'"
      using inv that(2) by (auto simp: mpsc_inv_def lo_def head_published_def)
    then have "unat p \<noteq> unat p'"
      using t(4) that(1) by (auto simp: head_published_def)
    then show ?thesis
      using ring_window_inj [of "lo s" "unat p" "ring_size s" "unat p'"] that(1) t lo sizes(2,6)
      by (auto simp: slot_index_pos [OF inv])
  qed
  ultimately show ?thesis by blast
qed

definition overlap_schedule :: "nat sched list" where
  "overlap_schedule = [Call 0 10, Produce 0, Produce 0, Produce 0, Produce 0, Produce 0,
     Call 1 20, Produce 1, Produce 1, Produce 1, Consume]"

abbreviation overlap_state :: "nat mpsc_state" where
  "overlap_state \<equiv> fold sched_step overlap_schedule (mpsc_init two_slots)"

lemma overlap_reach: "mpsc_reach 2 overlap_state"
  by (rule reach_two_slots) (simp add: overlap_schedule_def)

lemma overlap_threads:
  "producers overlap_state 1 = P_Write 20 1" "consumer overlap_state = C_Read 0"
  by (simp_all add: overlap_schedule_def eval_schedule)

theorem mpsc_slots_exclusive_witness:
  "producers overlap_state 1 = P_Write 20 1 \<and> consumer overlap_state = C_Read 0 \<and>
   slot_index (ring overlap_state) 1 \<noteq> slot_index (ring overlap_state) 0"
  using mpsc_slots_exclusive [OF overlap_reach] overlap_threads by (metis insertI1)

text \<open>
  C9: under every interleaving the consumer receives the items in exactly the order in which the
  producers claimed their positions, without loss or duplication.
\<close>

theorem mpsc_delivers_in_claim_order:
  assumes "mpsc_reach capacity s"
  shows "delivered s = map snd (take (length (delivered s)) (claimed s))"
proof -
  obtain k where inv: "mpsc_inv k s" using mpsc_reach_inv [OF assms] by blast
  have "unat (consumer_index (ring s)) \<le> hi s"
    using mpsc_inv_sizes(5) [OF inv] by (simp add: lo_def split: consumer.splits)
  then show ?thesis
    using inv by (simp add: mpsc_inv_def)
qed

theorem mpsc_delivers_in_claim_order_witness:
  "delivered (fold sched_step [Consume, Consume, Consume] overlap_state) = [10] \<and>
   claimed (fold sched_step [Consume, Consume, Consume] overlap_state) = [(0, 10), (1, 20)]"
proof -
  define s where "s = fold sched_step (overlap_schedule @ [Consume, Consume, Consume]) (mpsc_init two_slots)"
  have "mpsc_reach 2 s"
    unfolding s_def by (rule reach_two_slots) (simp add: overlap_schedule_def)
  then have "delivered s = map snd (take (length (delivered s)) (claimed s))"
    by (rule mpsc_delivers_in_claim_order)
  moreover have "length (delivered s) = 1" "claimed s = [(0, 10), (1, 20)]"
    by (simp_all add: s_def overlap_schedule_def eval_schedule)
  ultimately show ?thesis
    by (simp add: s_def)
qed

text \<open>
  C8: every step of the interleaved queue is a step of the abstract mailbox: the exchange appends an
  unpublished item and only when there is room, the sequence store publishes it, the consumer's
  release removes the published head, an enqueue reports failure only when the mailbox is full, and
  a dequeue reports nothing only when no published item is at the head.
\<close>

theorem mpsc_simulates_mailbox:
  assumes "mpsc_reach capacity s" "mpsc_step s e s'"
  shows "mailbox_step (ring_size s) e (mpsc_mailbox s) (mpsc_mailbox s')"
proof -
  obtain k where inv: "mpsc_inv k s" using mpsc_reach_inv [OF assms(1)] by blast
  from assms(2) show ?thesis
  proof cases
    case (call t x)
    then show ?thesis
      using mailbox_unflown [of s t "P_Load x"] by (auto intro: mailbox_internal)
  next
    case (produce t)
    then show ?thesis by (rule mailbox_producer_step [OF inv])
  next
    case consume
    then show ?thesis by (rule mailbox_consumer_step [OF inv])
  qed
qed

theorem mpsc_simulates_mailbox_witness:
  "mailbox_step 2 (Mb_Claim 0 (10::nat)) [] [(0, 10, False)]"
proof -
  define s where "s = fold sched_step [Call 0 10, Produce 0, Produce 0] (mpsc_init two_slots)"
  define s' where "s' = snd (producer_step 0 (producers s 0) s)"
  have reach: "mpsc_reach 2 s"
    unfolding s_def by (rule reach_two_slots) simp
  have "producer_step 0 (producers s 0) s = (Mb_Claim 0 10, s')"
    by (simp add: s_def s'_def eval_schedule)
  then have step: "mpsc_step s (Mb_Claim 0 10) s'"
    by (rule mpsc_step.produce)
  have "mpsc_mailbox s = []" "mpsc_mailbox s' = [(0, 10, False)]" "ring_size s = 2"
    by (simp_all add: s_def s'_def eval_schedule mpsc_mailbox_def in_flight_def)
  then show ?thesis
    using mpsc_simulates_mailbox [OF reach step] by simp
qed

text \<open>
  A producer repeats its loop only because another producer has advanced the producer index
  past the position it had loaded, so some enqueue always makes progress.
\<close>

theorem mpsc_retry_means_progress:
  assumes "mpsc_reach capacity s"
    and "producers s t = P_Seq x position \<or> producers s t = P_Cas x position"
    and "producers (snd (producer_step t (producers s t) s)) t = P_Load x"
  shows "unat position < unat (producer_index (ring s))"
proof -
  obtain k where inv: "mpsc_inv k s" using mpsc_reach_inv [OF assms(1)] by blast
  note sizes = mpsc_inv_sizes [OF inv]
  have ok: "producer_ok s t (producers s t)" using inv by (simp add: mpsc_inv_def)
  then have le: "unat position \<le> hi s" using assms(2) by auto
  have "unat position \<noteq> hi s"
  proof
    assume eq: "unat position = hi s"
    then have pos: "position = producer_index (ring s)" using sizes(7) by (simp add: word_unat_eq_iff)
    then obtain y where pc: "producers s t = P_Seq x position"
      using assms(2,3) by (auto split: if_splits)
    have i: "buffer (ring s) ! slot_index (ring s) position = cell s (hi s)"
      using slot_index_pos [OF inv] eq by (simp add: cell_def)
    have diff: "slot_sequence (cell s (hi s)) - position \<noteq> 0"
        "\<not> sint (slot_sequence (cell s (hi s)) - position) < 0"
      using assms(3) pc by (auto simp: Let_def i split: if_splits)
    show False
    proof (cases "hi s < lo s + ring_size s")
      case True
      then have "cell s (hi s) = \<lparr>slot_sequence = of_nat (hi s), slot_data = None\<rparr>"
        using inv by (simp add: mpsc_inv_def cells_inv_def)
      then show False using diff(1) pos sizes(8) by simp
    next
      case False
      then have full: "hi s = lo s + ring_size s" using sizes(6) by simp
      then have "cell s (hi s) = cell s (lo s)" by (simp add: cell_def)
      then consider "slot_sequence (cell s (hi s)) - position = - of_nat (ring_size s)"
        | "slot_sequence (cell s (hi s)) - position = 1 - of_nat (ring_size s)"
        using window_sequence [OF inv, of "lo s"] sizes(2,8) pos full by (auto simp: algebra_simps)
      then show False
      proof cases
        case 1
        then show False
          using diff(2) sint_of_int_small [of "- int (ring_size s)"] sizes(2,4) by simp
      next
        case 2
        then show False
          using diff(2) sint_of_int_small [of "1 - int (ring_size s)"] sizes(3,4) by simp
      qed
    qed
  qed
  then show ?thesis using le sizes(7) by simp
qed

definition contended_schedule :: "nat sched list" where
  "contended_schedule = [Call 0 10, Call 1 20, Produce 0, Produce 1, Produce 0, Produce 1, Produce 0]"

abbreviation contended_state :: "nat mpsc_state" where
  "contended_state \<equiv> fold sched_step contended_schedule (mpsc_init two_slots)"

theorem mpsc_retry_means_progress_witness:
  "producers contended_state 1 = P_Cas 20 0 \<and>
   producers (snd (producer_step 1 (producers contended_state 1) contended_state)) 1 = P_Load 20 \<and>
   unat (0::i64) < unat (producer_index (ring contended_state))"
proof -
  have reach: "mpsc_reach 2 contended_state"
    by (rule reach_two_slots) (simp add: contended_schedule_def)
  have pc: "producers contended_state 1 = P_Cas 20 0"
    by (simp add: contended_schedule_def eval_schedule)
  moreover have retry: "producers (snd (producer_step 1 (producers contended_state 1) contended_state)) 1 = P_Load 20"
    by (simp add: contended_schedule_def eval_schedule)
  ultimately show ?thesis
    using mpsc_retry_means_progress [OF reach disjI2 [OF pc] retry] by blast
qed

end
