(* ===== verification/Runner_Machine.thy ===== *)
theory Runner_Machine
  imports State_System Poll_Driver Mpsc_Concurrent "HOL-Library.Multiset"
begin

text \<open>
  The actor runner of \<^verbatim>\<open>internals/actor_runner.rs\<close> as an interleaved machine: any number of threads
  that post mail, kill the actor or wake its pending receive, and the worker thread of every
  dispatcher, which runs \<open>execute\<close>. Each atomic access, lock region, dispatcher call and call into user
  code is one step. The mailbox is the abstract mailbox that the ring queue implements
  (\<open>Mpsc_Concurrent\<close>); the future driver is the one of \<open>Poll_Driver\<close>, one access at a time.
  \<open>queued\<close> is the multiset of dispatchers whose queue holds an entry for this runner; a dispatcher runs
  every entry once (\<open>Actor_Dispatcher\<close>), and a dispatcher that is stopped accepts none. User code is any: a receive may finish, become pending or
  panic, and a poll may stay pending, finish or panic. The fields from \<open>dropped\<close> on are history variables: the entries
  that stopped dispatchers refused, whether \<open>kill\<close> was called or user code has panicked, the mail that was
  accepted, taken off and received, and the calls made at the end.
\<close>

section \<open>State\<close>

datatype lifecycle = LIFECYCLE_RUNNING | LIFECYCLE_KILLING | LIFECYCLE_STOPPED

datatype user_outcome = U_Done | U_Pending | U_Panic

text \<open>Where a thread stands in \<open>post\<close> (\<open>enqueue_only\<close>, \<open>schedule_self\<close>), \<open>kill\<close> or \<open>wake_by_ref\<close>.\<close>

datatype 'm thread_pc =
    T_Idle
  | T_Post 'm
  | T_Enqueue 'm
  | T_Publish
  | T_LoadScheduled
  | T_SwapScheduled
  | T_Schedule
  | T_Kill
  | T_KillSwap
  | T_Wake nat
  | T_WakeMark nat
  | T_WakeSchedule nat

text \<open>
  Where the worker of a dispatcher stands in \<open>execute\<close>. The flag of the poll and failure steps is
  true inside the mailbox loop and false in \<open>execute_pending_receive\<close>.
\<close>

datatype 'm execute_pc =
    W_Idle
  | W_CheckActive
  | W_PollReset bool
  | W_PollLock bool
  | W_Polling bool
  | W_NoFuture bool
  | W_Ready1
  | W_Ready2
  | W_Ready3
  | W_Fail1 bool
  | W_Fail2 bool
  | W_KillCas bool
  | W_KillSwap bool
  | W_KillSchedule bool
  | W_PublishException bool
  | W_Reschedule
  | W_LoadLifecycle
  | W_Dequeue
  | W_CheckRunning 'm
  | W_Receive 'm
  | W_Arm1 'm
  | W_Arm2
  | W_Arm3
  | W_LoadLifecycle2
  | W_StoreScheduled
  | W_Peek
  | W_Swap
  | W_Schedule
  | W_FinalizeSwap
  | W_Drain
  | W_Clear1
  | W_Clear2
  | W_Clear3
  | W_OnKill
  | W_OnFinalize

record 'm runner =
  lifecycle_state :: lifecycle
  is_scheduled :: bool
  mailbox :: "'m mailbox"
  mailbox_capacity :: nat
  driver :: "('m, unit) poll_driver"
  slot_lock :: "nat option"
  owner :: nat
  queued :: "nat multiset"
  workers :: "nat \<Rightarrow> 'm execute_pc"
  threads :: "nat \<Rightarrow> 'm thread_pc"
  wakers :: "nat set"
  stopped_dispatchers :: "nat set"
  dropped :: "nat multiset"
  kill_requested :: bool
  posted :: "'m list"
  dequeued :: "'m list"
  received :: "'m list"
  kill_calls :: nat
  finalizations :: nat
  exceptions :: nat

definition new_runner :: "nat \<Rightarrow> nat \<Rightarrow> 'm runner" where
  "new_runner dispatcher capacity =
     \<lparr>lifecycle_state = LIFECYCLE_RUNNING, is_scheduled = False, mailbox = [], mailbox_capacity = capacity,
      driver = new_driver, slot_lock = None, owner = dispatcher, queued = {#},
      workers = (\<lambda>_. W_Idle), threads = (\<lambda>_. T_Idle), wakers = {}, stopped_dispatchers = {}, dropped = {#}, kill_requested = False,
      posted = [], dequeued = [], received = [], kill_calls = 0, finalizations = 0, exceptions = 0\<rparr>"

definition set_thread :: "nat \<Rightarrow> 'm thread_pc \<Rightarrow> 'm runner \<Rightarrow> 'm runner" where
  "set_thread t pc s = s\<lparr>threads := (threads s)(t := pc)\<rparr>"

definition set_worker :: "nat \<Rightarrow> 'm execute_pc \<Rightarrow> 'm runner \<Rightarrow> 'm runner" where
  "set_worker d pc s = s\<lparr>workers := (workers s)(d := pc)\<rparr>"

text \<open>\<open>schedule\<close> of a dispatcher, which returns at once when the dispatcher is stopped.\<close>

definition schedule_on :: "nat \<Rightarrow> 'm runner \<Rightarrow> 'm runner" where
  "schedule_on d s =
     (if d \<in> stopped_dispatchers s then s\<lparr>dropped := add_mset d (dropped s)\<rparr>
      else s\<lparr>queued := add_mset d (queued s)\<rparr>)"

definition update_driver ::
    "(('m, unit) poll_driver \<Rightarrow> ('m, unit) poll_driver) \<Rightarrow> 'm runner \<Rightarrow> 'm runner" where
  "update_driver f s = s\<lparr>driver := f (driver s)\<rparr>"

section \<open>Threads outside the dispatchers' loops\<close>

fun thread_step :: "nat \<Rightarrow> 'm thread_pc \<Rightarrow> 'm runner \<Rightarrow> 'm runner option" where
  "thread_step t T_Idle s = None"
| "thread_step t (T_Post m) s =
     Some (set_thread t (if lifecycle_state s \<noteq> LIFECYCLE_RUNNING then T_Idle else T_Enqueue m) s)"
| "thread_step t (T_Enqueue m) s =
     Some (if length (mailbox s) < mailbox_capacity s
           then set_thread t T_Publish (s\<lparr>mailbox := mb_claim t m (mailbox s), posted := posted s @ [m]\<rparr>)
           else set_thread t T_Idle s)"
| "thread_step t T_Publish s = Some (set_thread t T_LoadScheduled (s\<lparr>mailbox := mb_publish t (mailbox s)\<rparr>))"
| "thread_step t T_LoadScheduled s = Some (set_thread t (if is_scheduled s then T_Idle else T_SwapScheduled) s)"
| "thread_step t T_SwapScheduled s =
     Some (set_thread t (if is_scheduled s then T_Idle else T_Schedule) (s\<lparr>is_scheduled := True\<rparr>))"
| "thread_step t T_Schedule s = Some (set_thread t T_Idle (schedule_on (owner s) s))"
| "thread_step t T_Kill s =
     Some (if lifecycle_state s = LIFECYCLE_RUNNING
           then set_thread t T_KillSwap (s\<lparr>lifecycle_state := LIFECYCLE_KILLING, kill_requested := True\<rparr>)
           else set_thread t T_Idle (s\<lparr>kill_requested := True\<rparr>))"
| "thread_step t T_KillSwap s =
     Some (set_thread t (if is_scheduled s then T_Idle else T_Schedule) (s\<lparr>is_scheduled := True\<rparr>))"
| "thread_step t (T_Wake d) s = Some (set_thread t (if is_active (driver s) then T_WakeMark d else T_Idle) s)"
| "thread_step t (T_WakeMark d) s =
     (let (marked, driver') = pd_mark (driver s)
      in Some (set_thread t (if marked then T_WakeSchedule d else T_Idle) (s\<lparr>driver := driver'\<rparr>)))"
| "thread_step t (T_WakeSchedule d) s = Some (set_thread t T_Idle (schedule_on d s))"

section \<open>Workers\<close>

text \<open>
  One step of \<open>execute\<close> on the worker of dispatcher \<open>d\<close>; \<open>u\<close> is what the user code of this step does.
  \<open>None\<close> when the worker waits for the slot lock or is not executing the runner.
\<close>

fun execute_step :: "nat \<Rightarrow> user_outcome \<Rightarrow> 'm execute_pc \<Rightarrow> 'm runner \<Rightarrow> 'm runner option" where
  "execute_step d u W_Idle s = None"
| "execute_step d u W_CheckActive s =
     Some (if is_active (driver s)
           then set_worker d (W_PollReset False) (s\<lparr>wakers := insert d (wakers s)\<rparr>)
           else set_worker d W_LoadLifecycle s)"
| "execute_step d u (W_PollReset looping) s =
     Some (set_worker d (W_PollLock looping) (update_driver (pd_store_scheduled False) s))"
| "execute_step d u (W_PollLock looping) s =
     (if slot_lock s \<noteq> None then None
      else Some (set_worker d (if driver_slot (driver s) = None then W_NoFuture looping else W_Polling looping)
                   (s\<lparr>slot_lock := Some d\<rparr>)))"
| "execute_step d u (W_NoFuture looping) s =
     Some (set_worker d (if looping then W_Dequeue else W_LoadLifecycle)
             (update_driver (pd_store_active False) (s\<lparr>slot_lock := None\<rparr>)))"
| "execute_step d u (W_Polling looping) s =
     (case u of
        U_Pending \<Rightarrow> Some (set_worker d W_Idle (s\<lparr>slot_lock := None\<rparr>))
      | U_Done \<Rightarrow> Some (set_worker d W_Ready1 (update_driver (pd_store_slot None) (s\<lparr>slot_lock := None\<rparr>)))
      | U_Panic \<Rightarrow> Some (set_worker d (W_Fail1 looping) (update_driver (pd_store_slot None) (s\<lparr>slot_lock := None, kill_requested := True\<rparr>))))"
| "execute_step d u W_Ready1 s = Some (set_worker d W_Ready2 (update_driver (pd_store_active False) s))"
| "execute_step d u W_Ready2 s = Some (set_worker d W_Ready3 (update_driver (pd_store_scheduled False) s))"
| "execute_step d u W_Ready3 s = Some (set_worker d W_Idle (schedule_on (owner s) s))"
| "execute_step d u (W_Fail1 looping) s = Some (set_worker d (W_Fail2 looping) (update_driver (pd_store_active False) s))"
| "execute_step d u (W_Fail2 looping) s = Some (set_worker d (W_KillCas looping) (update_driver (pd_store_scheduled False) s))"
| "execute_step d u (W_KillCas looping) s =
     Some (if lifecycle_state s = LIFECYCLE_RUNNING
           then set_worker d (W_KillSwap looping) (s\<lparr>lifecycle_state := LIFECYCLE_KILLING\<rparr>)
           else set_worker d (W_PublishException looping) s)"
| "execute_step d u (W_KillSwap looping) s =
     Some (set_worker d (if is_scheduled s then W_PublishException looping else W_KillSchedule looping)
             (s\<lparr>is_scheduled := True\<rparr>))"
| "execute_step d u (W_KillSchedule looping) s =
     Some (set_worker d (W_PublishException looping) (schedule_on (owner s) s))"
| "execute_step d u (W_PublishException looping) s =
     Some (set_worker d (if looping then W_LoadLifecycle2 else W_Reschedule) (s\<lparr>exceptions := exceptions s + 1\<rparr>))"
| "execute_step d u W_Reschedule s = Some (set_worker d W_Idle (schedule_on (owner s) s))"
| "execute_step d u W_LoadLifecycle s =
     Some (set_worker d (case lifecycle_state s of
              LIFECYCLE_KILLING \<Rightarrow> W_FinalizeSwap
            | LIFECYCLE_RUNNING \<Rightarrow> W_Dequeue
            | LIFECYCLE_STOPPED \<Rightarrow> W_Idle) s)"
| "execute_step d u W_Dequeue s =
     (case mb_deq (mailbox s) of
        None \<Rightarrow> Some (set_worker d W_LoadLifecycle2 s)
      | Some (m, mailbox') \<Rightarrow>
          Some (set_worker d (W_CheckRunning m) (s\<lparr>mailbox := mailbox', dequeued := dequeued s @ [m]\<rparr>)))"
| "execute_step d u (W_CheckRunning m) s =
     Some (set_worker d (if lifecycle_state s \<noteq> LIFECYCLE_RUNNING then W_LoadLifecycle2 else W_Receive m) s)"
| "execute_step d u (W_Receive m) s =
     (let s' = s\<lparr>received := received s @ [m]\<rparr> in
      case u of
        U_Done \<Rightarrow> Some (set_worker d W_Dequeue s')
      | U_Pending \<Rightarrow> Some (set_worker d (W_Arm1 m) s')
      | U_Panic \<Rightarrow> Some (set_worker d (W_KillCas True) (s'\<lparr>kill_requested := True\<rparr>)))"
| "execute_step d u (W_Arm1 m) s =
     (if slot_lock s \<noteq> None then None
      else Some (set_worker d W_Arm2 (update_driver (pd_store_slot (Some (m, Some ()))) s)))"
| "execute_step d u W_Arm2 s = Some (set_worker d W_Arm3 (update_driver (pd_store_active True) s))"
| "execute_step d u W_Arm3 s =
     Some (set_worker d (W_PollReset True)
             (update_driver (pd_store_scheduled False) (s\<lparr>wakers := insert d (wakers s)\<rparr>)))"
| "execute_step d u W_LoadLifecycle2 s =
     Some (set_worker d (if lifecycle_state s = LIFECYCLE_KILLING then W_FinalizeSwap else W_StoreScheduled) s)"
| "execute_step d u W_StoreScheduled s = Some (set_worker d W_Peek (s\<lparr>is_scheduled := False\<rparr>))"
| "execute_step d u W_Peek s =
     Some (set_worker d (if mb_deq (mailbox s) = None then W_Idle else W_Swap) s)"
| "execute_step d u W_Swap s =
     Some (set_worker d (if is_scheduled s then W_Idle else W_Schedule) (s\<lparr>is_scheduled := True\<rparr>))"
| "execute_step d u W_Schedule s = Some (set_worker d W_Idle (schedule_on (owner s) s))"
| "execute_step d u W_FinalizeSwap s =
     Some (set_worker d (if lifecycle_state s = LIFECYCLE_STOPPED then W_Idle else W_Drain)
             (s\<lparr>lifecycle_state := LIFECYCLE_STOPPED\<rparr>))"
| "execute_step d u W_Drain s =
     (case mb_deq (mailbox s) of
        None \<Rightarrow> Some (set_worker d W_Clear1 s)
      | Some (m, mailbox') \<Rightarrow> Some (s\<lparr>mailbox := mailbox', dequeued := dequeued s @ [m]\<rparr>))"
| "execute_step d u W_Clear1 s =
     (if slot_lock s \<noteq> None then None
      else Some (set_worker d W_Clear2 (update_driver (pd_store_slot None) s)))"
| "execute_step d u W_Clear2 s = Some (set_worker d W_Clear3 (update_driver (pd_store_active False) s))"
| "execute_step d u W_Clear3 s = Some (set_worker d W_OnKill (update_driver (pd_store_scheduled False) s))"
| "execute_step d u W_OnKill s = Some (set_worker d W_OnFinalize (s\<lparr>kill_calls := kill_calls s + 1\<rparr>))"
| "execute_step d u W_OnFinalize s = Some (set_worker d W_Idle (s\<lparr>finalizations := finalizations s + 1\<rparr>))"

section \<open>The machine\<close>

text \<open>
  Calls by other threads start at any time. A wake targets the current dispatcher of the waking
  thread, and the dispatcher the waker was made on for a thread that belongs to none. A dispatcher may be stopped at any time; what its
  worker has taken or still takes off its queue is then executed or not.
\<close>

inductive runner_step :: "'m runner \<Rightarrow> 'm runner \<Rightarrow> bool" where
  post: "threads s t = T_Idle \<Longrightarrow> runner_step s (set_thread t (T_Post m) s)"
| kill: "threads s t = T_Idle \<Longrightarrow> runner_step s (set_thread t T_Kill s)"
| wake: "threads s t = T_Idle \<Longrightarrow> wd \<in> wakers s \<Longrightarrow>
     runner_step s (set_thread t (T_Wake (case current of Some d \<Rightarrow> d | None \<Rightarrow> wd)) s)"
| thread: "thread_step t (threads s t) s = Some s' \<Longrightarrow> runner_step s s'"
| take: "d \<in># queued s \<Longrightarrow> workers s d = W_Idle \<Longrightarrow>
     runner_step s (set_worker d W_CheckActive (s\<lparr>queued := queued s - {#d#}\<rparr>))"
| execute: "execute_step d u (workers s d) s = Some s' \<Longrightarrow> runner_step s s'"
| stop: "runner_step s (s\<lparr>stopped_dispatchers := insert d (stopped_dispatchers s)\<rparr>)"

definition fresh_runner :: "'m runner \<Rightarrow> bool" where
  "fresh_runner s \<longleftrightarrow> (\<exists>d capacity. s = new_runner d capacity)"

abbreviation runner_reach :: "'m runner \<Rightarrow> bool" where
  "runner_reach \<equiv> reach fresh_runner runner_step"

text \<open>
  The program points at which a worker has the runner for itself. After \<open>is_scheduled\<close> is stored as
  false, the worker only looks at the mailbox (\<open>W_Peek\<close>) and may claim the runner again (\<open>W_Swap\<close>).
\<close>

definition executing :: "'m execute_pc \<Rightarrow> bool" where
  "executing pc \<longleftrightarrow> pc \<noteq> W_Idle \<and> pc \<noteq> W_Peek \<and> pc \<noteq> W_Swap"

text \<open>
  Runs with orderly wakes. A wake takes effect (marks the driver) only while the receive is suspended,
  or, for the dispatcher that is polling, during the poll; and a poll during which the future was woken
  does not end the future. This is the contract of a future that returns \<open>Pending\<close> after arranging
  for one later wake, and of one that wakes itself before it returns \<open>Pending\<close> (a yield).
\<close>

definition suspended :: "'m runner \<Rightarrow> bool" where
  "suspended s \<longleftrightarrow> is_active (driver s) \<and> driver_slot (driver s) \<noteq> None \<and> (\<forall>d. \<not> executing (workers s d))"

definition polling_on :: "nat \<Rightarrow> 'm runner \<Rightarrow> bool" where
  "polling_on d s \<longleftrightarrow> workers s d = W_Polling True \<or> workers s d = W_Polling False"

definition orderly_step :: "'m runner \<Rightarrow> 'm runner \<Rightarrow> bool" where
  "orderly_step s s' \<longleftrightarrow> runner_step s s' \<and>
     (\<forall>t d. threads s t = T_WakeMark d \<and> threads s' t = T_WakeSchedule d \<longrightarrow> suspended s \<or> polling_on d s) \<and>
     (driver_slot (driver s) \<noteq> None \<and> driver_slot (driver s') = None \<longrightarrow> \<not> is_poll_scheduled (driver s))"

abbreviation orderly_reach :: "'m runner \<Rightarrow> bool" where
  "orderly_reach \<equiv> reach fresh_runner orderly_step"

text \<open>The entries for the runner, those included that were refused.\<close>

abbreviation run_tokens :: "'m runner \<Rightarrow> nat multiset" where
  "run_tokens s \<equiv> queued s + dropped s"

section \<open>Field access\<close>

lemma set_thread_simps [simp]:
  "lifecycle_state (set_thread t pc s) = lifecycle_state s" "is_scheduled (set_thread t pc s) = is_scheduled s"
  "mailbox (set_thread t pc s) = mailbox s" "mailbox_capacity (set_thread t pc s) = mailbox_capacity s"
  "driver (set_thread t pc s) = driver s" "slot_lock (set_thread t pc s) = slot_lock s"
  "owner (set_thread t pc s) = owner s" "queued (set_thread t pc s) = queued s"
  "workers (set_thread t pc s) = workers s" "threads (set_thread t pc s) = (threads s)(t := pc)"
  "wakers (set_thread t pc s) = wakers s" "posted (set_thread t pc s) = posted s"
  "dequeued (set_thread t pc s) = dequeued s" "received (set_thread t pc s) = received s"
  "kill_calls (set_thread t pc s) = kill_calls s" "finalizations (set_thread t pc s) = finalizations s"
  "dropped (set_thread t pc s) = dropped s"
  "kill_requested (set_thread t pc s) = kill_requested s" "stopped_dispatchers (set_thread t pc s) = stopped_dispatchers s"
  by (simp_all add: set_thread_def)

lemma set_worker_simps [simp]:
  "lifecycle_state (set_worker d pc s) = lifecycle_state s" "is_scheduled (set_worker d pc s) = is_scheduled s"
  "mailbox (set_worker d pc s) = mailbox s" "mailbox_capacity (set_worker d pc s) = mailbox_capacity s"
  "driver (set_worker d pc s) = driver s" "slot_lock (set_worker d pc s) = slot_lock s"
  "owner (set_worker d pc s) = owner s" "queued (set_worker d pc s) = queued s"
  "workers (set_worker d pc s) = (workers s)(d := pc)" "threads (set_worker d pc s) = threads s"
  "wakers (set_worker d pc s) = wakers s" "posted (set_worker d pc s) = posted s"
  "dequeued (set_worker d pc s) = dequeued s" "received (set_worker d pc s) = received s"
  "kill_calls (set_worker d pc s) = kill_calls s" "finalizations (set_worker d pc s) = finalizations s"
  "dropped (set_worker d pc s) = dropped s"
  "kill_requested (set_worker d pc s) = kill_requested s" "stopped_dispatchers (set_worker d pc s) = stopped_dispatchers s"
  by (simp_all add: set_worker_def)

lemma schedule_on_simps [simp]:
  "lifecycle_state (schedule_on d s) = lifecycle_state s" "is_scheduled (schedule_on d s) = is_scheduled s"
  "mailbox (schedule_on d s) = mailbox s" "driver (schedule_on d s) = driver s"
  "slot_lock (schedule_on d s) = slot_lock s" "owner (schedule_on d s) = owner s"
  "queued (schedule_on d s) + dropped (schedule_on d s) = add_mset d (queued s + dropped s)" "workers (schedule_on d s) = workers s"
  "threads (schedule_on d s) = threads s" "wakers (schedule_on d s) = wakers s"
  "posted (schedule_on d s) = posted s" "dequeued (schedule_on d s) = dequeued s"
  "received (schedule_on d s) = received s" "kill_calls (schedule_on d s) = kill_calls s"
  "finalizations (schedule_on d s) = finalizations s"
  "kill_requested (schedule_on d s) = kill_requested s" "stopped_dispatchers (schedule_on d s) = stopped_dispatchers s"
  by (simp_all add: schedule_on_def)

lemma update_driver_simps [simp]:
  "lifecycle_state (update_driver f s) = lifecycle_state s" "is_scheduled (update_driver f s) = is_scheduled s"
  "mailbox (update_driver f s) = mailbox s" "driver (update_driver f s) = f (driver s)"
  "slot_lock (update_driver f s) = slot_lock s" "owner (update_driver f s) = owner s"
  "queued (update_driver f s) = queued s" "workers (update_driver f s) = workers s"
  "threads (update_driver f s) = threads s" "wakers (update_driver f s) = wakers s"
  "posted (update_driver f s) = posted s" "dequeued (update_driver f s) = dequeued s"
  "received (update_driver f s) = received s" "kill_calls (update_driver f s) = kill_calls s"
  "finalizations (update_driver f s) = finalizations s"
  "dropped (update_driver f s) = dropped s"
  "kill_requested (update_driver f s) = kill_requested s" "stopped_dispatchers (update_driver f s) = stopped_dispatchers s"
  by (simp_all add: update_driver_def)

lemma pd_store_simps [simp]:
  "is_active (pd_store_active b d) = b" "is_poll_scheduled (pd_store_active b d) = is_poll_scheduled d"
  "driver_slot (pd_store_active b d) = driver_slot d" "is_active (pd_store_scheduled b d) = is_active d"
  "is_poll_scheduled (pd_store_scheduled b d) = b" "driver_slot (pd_store_scheduled b d) = driver_slot d"
  "is_active (pd_store_slot x d) = is_active d" "is_poll_scheduled (pd_store_slot x d) = is_poll_scheduled d"
  "driver_slot (pd_store_slot x d) = x"
  by (simp_all add: pd_store_active_def pd_store_scheduled_def pd_store_slot_def)

section \<open>The actor is killed at most once\<close>

fun finalizing :: "'m execute_pc \<Rightarrow> bool" where
  "finalizing W_Drain = True" | "finalizing W_Clear1 = True" | "finalizing W_Clear2 = True"
| "finalizing W_Clear3 = True" | "finalizing W_OnKill = True" | "finalizing W_OnFinalize = True"
| "finalizing _ = False"

definition kill_inv :: "'m runner \<Rightarrow> bool" where
  "kill_inv s \<longleftrightarrow>
     (\<forall>d. finalizing (workers s d) \<longrightarrow> lifecycle_state s = LIFECYCLE_STOPPED \<and> finalizations s = 0
        \<and> kill_calls s = (if workers s d = W_OnFinalize then 1 else 0)) \<and>
     (\<forall>d d'. finalizing (workers s d) \<longrightarrow> finalizing (workers s d') \<longrightarrow> d = d') \<and>
     (lifecycle_state s \<noteq> LIFECYCLE_STOPPED \<longrightarrow> kill_calls s = 0) \<and>
     kill_calls s \<le> 1 \<and> finalizations s \<le> kill_calls s"

text \<open>A worker that reports a panic; a runner that does not run any more, or is about to be finalized, was killed.\<close>

fun reporting :: "'m execute_pc \<Rightarrow> bool" where
  "reporting (W_Fail1 _) = True" | "reporting (W_Fail2 _) = True" | "reporting (W_KillCas _) = True"
| "reporting W_FinalizeSwap = True" | "reporting _ = False"

definition request_inv :: "'m runner \<Rightarrow> bool" where
  "request_inv s \<longleftrightarrow> (lifecycle_state s \<noteq> LIFECYCLE_RUNNING \<or> (\<exists>d. reporting (workers s d)) \<longrightarrow> kill_requested s)"

lemma request_inv_step:
  assumes "request_inv s" "runner_step s s'"
  shows "request_inv s'"
  using assms(2)
proof cases
  case (thread t)
  then show ?thesis using assms(1) by (cases "threads s t") (auto simp: request_inv_def split: if_splits prod.splits)
next
  case (execute d u)
  have "(lifecycle_state s' \<noteq> LIFECYCLE_RUNNING \<longrightarrow> lifecycle_state s \<noteq> LIFECYCLE_RUNNING \<or> reporting (workers s d)) \<and>
      (reporting (workers s' d) \<longrightarrow> kill_requested s' \<or> lifecycle_state s \<noteq> LIFECYCLE_RUNNING \<or> reporting (workers s d)) \<and>
      (\<forall>e. e \<noteq> d \<longrightarrow> workers s' e = workers s e) \<and> (kill_requested s \<longrightarrow> kill_requested s')"
    using execute by (cases "workers s d") (auto simp: Let_def split: if_splits option.splits user_outcome.splits lifecycle.splits)
  then show ?thesis using assms(1) unfolding request_inv_def by metis
qed (use assms(1) in \<open>auto simp: request_inv_def split: if_splits\<close>)

lemma request_inv_init: "fresh_runner s \<Longrightarrow> request_inv s"
  by (auto simp: fresh_runner_def new_runner_def request_inv_def)

interpretation request: invariant_system fresh_runner runner_step request_inv
  by unfold_locales (auto intro: request_inv_init request_inv_step)

lemma kill_inv_frame:
  assumes "kill_inv s" "workers s' = (workers s)(d := pc)" "\<not> finalizing (workers s d)" "\<not> finalizing pc"
    "kill_calls s' = kill_calls s" "finalizations s' = finalizations s"
    "lifecycle_state s' = lifecycle_state s \<or> lifecycle_state s \<noteq> LIFECYCLE_STOPPED"
  shows "kill_inv s'"
proof -
  have "finalizing (workers s' e) \<longleftrightarrow> finalizing (workers s e)" for e
    using assms(2-4) by simp
  moreover have "finalizing (workers s e) \<Longrightarrow> workers s' e = workers s e" for e
    using assms(2,3) by auto
  ultimately show ?thesis
    using assms(1,5-7) unfolding kill_inv_def by (metis (no_types, lifting))
qed

lemma kill_inv_same:
  assumes "kill_inv s" "workers s' = workers s" "kill_calls s' = kill_calls s" "finalizations s' = finalizations s"
    "lifecycle_state s' = lifecycle_state s \<or> lifecycle_state s \<noteq> LIFECYCLE_STOPPED"
  shows "kill_inv s'"
  using assms unfolding kill_inv_def by metis

text \<open>The finalizing worker moves on.\<close>

lemma kill_inv_finalizer:
  assumes "kill_inv s" "workers s' = (workers s)(d := pc)"
    "lifecycle_state s' = LIFECYCLE_STOPPED"
    "finalizing (workers s d) \<or> (lifecycle_state s \<noteq> LIFECYCLE_STOPPED)"
    "finalizing pc \<Longrightarrow> finalizations s' = 0 \<and> kill_calls s' = (if pc = W_OnFinalize then 1 else 0)"
    "kill_calls s' \<le> 1" "finalizations s' \<le> kill_calls s'"
  shows "kill_inv s'"
proof -
  have others: "\<not> finalizing (workers s e)" if "e \<noteq> d" for e
    using assms(1,4) that unfolding kill_inv_def by metis
  then have "finalizing (workers s' e) \<longleftrightarrow> e = d \<and> finalizing pc" for e
    using assms(2) by simp
  then show ?thesis
    using assms unfolding kill_inv_def by simp
qed

lemma kill_inv_thread: "kill_inv s \<Longrightarrow> thread_step t (threads s t) s = Some s' \<Longrightarrow> kill_inv s'"
  by (cases "threads s t") (auto split: if_splits prod.splits elim!: kill_inv_same)

lemma kill_inv_count:
  assumes "kill_inv s" "finalizing (workers s d)"
  shows "finalizations s = 0" "kill_calls s = (if workers s d = W_OnFinalize then 1 else 0)"
    "lifecycle_state s = LIFECYCLE_STOPPED"
  using assms unfolding kill_inv_def by metis+

lemma kill_inv_bounds:
  "kill_inv s \<Longrightarrow> kill_calls s \<le> 1" "kill_inv s \<Longrightarrow> finalizations s \<le> kill_calls s"
  "kill_inv s \<Longrightarrow> lifecycle_state s \<noteq> LIFECYCLE_STOPPED \<Longrightarrow> kill_calls s = 0"
  unfolding kill_inv_def by metis+

lemma kill_inv_execute:
  assumes inv: "kill_inv s" and step: "execute_step d u (workers s d) s = Some s'"
  shows "kill_inv s'"
proof (cases "finalizing (workers s d)")
  case True
  note count = kill_inv_count [OF inv True]
  show ?thesis
  proof (cases "workers s d = W_Drain \<and> workers s' = workers s")
    case True
    with step inv show ?thesis
      by (auto split: option.splits elim!: kill_inv_same)
  next
    case False
    show ?thesis
      using True False step count
      by (cases "workers s d"; intro kill_inv_finalizer [OF inv, where d = d and pc = "workers s' d"])
         (auto split: option.splits if_splits)
  qed
next
  case False
  show ?thesis
  proof (cases "workers s d = W_FinalizeSwap")
    case True
    show ?thesis
    proof (cases "lifecycle_state s = LIFECYCLE_STOPPED")
      case True
      with \<open>workers s d = W_FinalizeSwap\<close> step show ?thesis
        by (intro kill_inv_frame [OF inv, where d = d and pc = W_Idle]) auto
    next
      case False
      with \<open>workers s d = W_FinalizeSwap\<close> step kill_inv_bounds [OF inv] show ?thesis
        by (intro kill_inv_finalizer [OF inv, where d = d and pc = W_Drain]) auto
    qed
  next
    case other: False
    show ?thesis
      using False other step
      by (cases "workers s d"; intro kill_inv_frame [OF inv, where d = d and pc = "workers s' d"])
         (auto simp: Let_def split: option.splits if_splits user_outcome.splits lifecycle.splits)
  qed
qed

lemma kill_inv_step:
  assumes "kill_inv s" "runner_step s s'"
  shows "kill_inv s'"
  using assms(2)
proof cases
  case (take d)
  then show ?thesis using assms(1) by (intro kill_inv_frame [OF assms(1), where d = d and pc = W_CheckActive]) auto
qed (use assms(1) in \<open>auto intro: kill_inv_same kill_inv_thread kill_inv_execute\<close>)

lemma kill_inv_init: "fresh_runner s \<Longrightarrow> kill_inv s"
  by (auto simp: fresh_runner_def new_runner_def kill_inv_def)

interpretation killing: invariant_system fresh_runner runner_step kill_inv
  by unfold_locales (auto intro: kill_inv_init kill_inv_step)

section \<open>Concrete runs\<close>

text \<open>A run is a list of labels: the start of a call, or one step of a thread or worker.\<close>

datatype 'm run_label =
    L_Post nat 'm | L_Kill nat | L_Wake nat nat | L_Thread nat | L_Take nat | L_Work nat user_outcome

fun run_label_step :: "'m run_label \<Rightarrow> 'm runner \<Rightarrow> 'm runner option" where
  "run_label_step (L_Post t m) s = (if threads s t = T_Idle then Some (set_thread t (T_Post m) s) else None)"
| "run_label_step (L_Kill t) s = (if threads s t = T_Idle then Some (set_thread t T_Kill s) else None)"
| "run_label_step (L_Wake t d) s =
     (if threads s t = T_Idle \<and> wakers s \<noteq> {} then Some (set_thread t (T_Wake d) s) else None)"
| "run_label_step (L_Thread t) s = thread_step t (threads s t) s"
| "run_label_step (L_Take d) s =
     (if d \<in># queued s \<and> workers s d = W_Idle
      then Some (set_worker d W_CheckActive (s\<lparr>queued := queued s - {#d#}\<rparr>)) else None)"
| "run_label_step (L_Work d u) s = execute_step d u (workers s d) s"

fun run_labels :: "'m run_label list \<Rightarrow> 'm runner \<Rightarrow> 'm runner option" where
  "run_labels [] s = Some s"
| "run_labels (l # ls) s = (case run_label_step l s of None \<Rightarrow> None | Some s' \<Rightarrow> run_labels ls s')"

lemma run_label_sound: "run_label_step l s = Some s' \<Longrightarrow> runner_step s s'"
proof (cases l)
  case (L_Wake t d)
  assume "run_label_step l s = Some s'"
  with L_Wake obtain wd where "threads s t = T_Idle" "wd \<in> wakers s" "s' = set_thread t (T_Wake d) s"
    by (auto split: if_splits)
  then show ?thesis using runner_step.wake [of s t wd "Some d"] by simp
qed (auto split: if_splits intro: runner_step.intros)

lemma run_labels_reach: "run_labels ls s = Some s' \<Longrightarrow> runner_reach s \<Longrightarrow> runner_reach s'"
proof (induction ls arbitrary: s)
  case (Cons l ls)
  then obtain u where "run_label_step l s = Some u" "run_labels ls u = Some s'"
    by (auto split: option.splits)
  with Cons show ?case by (meson reach_step run_label_sound)
qed simp

lemma new_runner_reach: "runner_reach (new_runner d capacity)"
  by (rule reach_init) (auto simp: fresh_runner_def)

lemmas run_simps = new_runner_def set_thread_def set_worker_def schedule_on_def update_driver_def
  mb_claim_def mb_publish_def pd_mark_def new_driver_def pd_store_active_def pd_store_scheduled_def
  pd_store_slot_def Let_def

section \<open>Properties of every run\<close>

text \<open>
  C25: in every interleaving of posts, kills, wakes and workers, whatever the user code does, the
  actor's \<open>on_kill\<close> is called at most once, the finalization callback (which frees the registry slot)
  is called at most once and only after it. Neither happens before the actor has been marked as stopped, and only for an actor
  that was killed: some thread has called \<open>kill\<close>, or a receive or poll of the actor has panicked.
\<close>

theorem on_kill_at_most_once:
  assumes "runner_reach s"
  shows "kill_calls s \<le> 1 \<and> finalizations s \<le> kill_calls s \<and>
     (lifecycle_state s \<noteq> LIFECYCLE_STOPPED \<longrightarrow> kill_calls s = 0) \<and> (0 < kill_calls s \<longrightarrow> kill_requested s)"
proof -
  note kill = kill_inv_bounds [OF killing.reach_inv [OF assms]]
  have "kill_requested s" if "lifecycle_state s = LIFECYCLE_STOPPED"
    using request.reach_inv [OF assms] that by (simp add: request_inv_def)
  then show ?thesis using kill by (metis less_not_refl)
qed

definition kill_run :: "nat run_label list" where
  "kill_run = [L_Kill 0, L_Thread 0, L_Thread 0, L_Thread 0, L_Take 0] @ replicate 9 (L_Work 0 U_Done)"

theorem on_kill_at_most_once_witness:
  "\<exists>s. run_labels kill_run (new_runner 0 4) = Some s \<and> kill_calls s = 1 \<and> finalizations s = 1 \<and> kill_requested s"
proof -
  obtain s where s: "run_labels kill_run (new_runner 0 4) = Some s" "kill_calls s = 1" "finalizations s = 1"
    by (simp add: kill_run_def run_simps numeral_eq_Suc)
  then show ?thesis
    using on_kill_at_most_once [OF run_labels_reach [OF s(1) new_runner_reach]] by auto
qed

text \<open>The run that loses a kill: the kill comes between the last load of the lifecycle and the store of \<open>is_scheduled\<close>.\<close>

definition lost_kill_run :: "nat run_label list" where
  "lost_kill_run =
     [L_Post 0 7] @ replicate 6 (L_Thread 0) @ [L_Take 0] @ replicate 6 (L_Work 0 U_Done)
     @ [L_Work 0 U_Done] @ [L_Kill 1, L_Thread 1, L_Thread 1] @ replicate 2 (L_Work 0 U_Done)"

definition lost_kill :: "'m runner \<Rightarrow> bool" where
  "lost_kill s \<longleftrightarrow> lifecycle_state s = LIFECYCLE_KILLING \<and> \<not> is_scheduled s \<and> queued s = {#} \<and>
     wakers s = {} \<and> kill_calls s = 0 \<and> finalizations s = 0 \<and> (\<forall>d. workers s d = W_Idle) \<and>
     (\<forall>t. threads s t = T_Idle \<or> threads s t = T_Kill \<or> (\<exists>m. threads s t = T_Post m))"

lemma lost_kill_thread:
  assumes "lost_kill s" "threads s t = T_Idle \<Longrightarrow> pc \<in> {T_Idle, T_Kill} \<or> (\<exists>m. pc = T_Post m)"
    "threads s t \<noteq> T_Idle \<Longrightarrow> pc = T_Idle"
  shows "lost_kill (set_thread t pc s)"
  using assms unfolding lost_kill_def by auto

lemma lost_kill_step:
  assumes "lost_kill s" "runner_step s s'"
  shows "lost_kill s'"
  using assms(2)
proof cases
  case (thread t)
  have "threads s t = T_Idle \<or> threads s t = T_Kill \<or> (\<exists>m. threads s t = T_Post m)"
    and "lifecycle_state s = LIFECYCLE_KILLING"
    using assms(1) by (simp_all add: lost_kill_def)
  then have "threads s t \<noteq> T_Idle" "s' = set_thread t T_Idle s \<or> s' = set_thread t T_Idle (s\<lparr>kill_requested := True\<rparr>)"
    using thread by auto
  moreover have "lost_kill (s\<lparr>kill_requested := True\<rparr>)" using assms(1) by (simp add: lost_kill_def)
  ultimately show ?thesis using lost_kill_thread [OF assms(1)] lost_kill_thread [of "s\<lparr>kill_requested := True\<rparr>" t T_Idle] by auto
next
  case (execute d u)
  then show ?thesis using assms(1) by (simp add: lost_kill_def)
next
  case (wake t wd current)
  then show ?thesis using assms(1) by (simp add: lost_kill_def)
next
  case (take d)
  then show ?thesis using assms(1) by (simp add: lost_kill_def)
next
  case (stop d)
  then show ?thesis using assms(1) by (simp add: lost_kill_def)
qed (use lost_kill_thread [OF assms(1)] in auto)

lemma lost_kill_star: "runner_step\<^sup>*\<^sup>* s s' \<Longrightarrow> lost_kill s \<Longrightarrow> lost_kill s'"
  by (induction rule: rtranclp.induct) (auto intro: lost_kill_step)



text \<open>
  The run in which two dispatchers receive at once: a second wake arrives on dispatcher 1 while
  dispatcher 0 is polling, and the poll finishes the future.
\<close>

definition overlap_run :: "nat run_label list" where
  "overlap_run =
     [L_Post 0 7] @ replicate 6 (L_Thread 0) @ [L_Post 0 8] @ replicate 4 (L_Thread 0)
     @ [L_Post 0 9] @ replicate 4 (L_Thread 0)
     @ [L_Take 0] @ replicate 11 (L_Work 0 U_Pending)
     @ [L_Wake 0 0] @ replicate 3 (L_Thread 0) @ [L_Take 0] @ replicate 3 (L_Work 0 U_Done)
     @ [L_Wake 1 1] @ replicate 3 (L_Thread 1) @ replicate 4 (L_Work 0 U_Done)
     @ [L_Take 1] @ replicate 4 (L_Work 1 U_Done) @ [L_Take 0] @ replicate 4 (L_Work 0 U_Done)"

text \<open>
  C27: without a condition on wakes the exclusion of receives fails: there is a run in which the workers
  of two dispatchers are both about to call \<open>on_receive\<close> of the same actor, with two different mails,
  because a wake that arrives during a poll that finishes leaves an entry in another dispatcher's queue
  while the completion callback schedules the actor on its own dispatcher.
\<close>

theorem receives_can_overlap:
  "\<exists>s :: nat runner. runner_reach s \<and> workers s 0 = W_Receive 9 \<and> workers s 1 = W_Receive 8"
proof -
  obtain s where s: "run_labels overlap_run (new_runner 0 4) = Some s"
    "workers s 0 = W_Receive 9" "workers s 1 = W_Receive 8"
    by (simp add: overlap_run_def run_simps numeral_eq_Suc)
  then show ?thesis
    using run_labels_reach [OF s(1) new_runner_reach] by blast
qed

end
