(* ===== verification/Runner_Exclusive.thy ===== *)
theory Runner_Exclusive
  imports Runner_Machine "HOL-Library.Sublist"
begin

text \<open>
  Exclusive execution of the actor runner in runs with orderly wakes. The invariant names who has the
  runner: at most one worker executes it, and at most one token for it exists, in a dispatcher's queue
  or in the hands of a thread that is about to put it there. From it follow the exclusion of receives,
  the delivery of mail in the order of posting, and that no mail is left behind.
\<close>

section \<open>Who has the runner\<close>

datatype run_token = No_Token | Queued_Token nat | Thread_Token nat nat

fun token_queue :: "run_token \<Rightarrow> nat multiset" where
  "token_queue (Queued_Token d) = {#d#}"
| "token_queue _ = {#}"

fun token_thread :: "run_token \<Rightarrow> nat \<Rightarrow> nat option" where
  "token_thread (Thread_Token t d) t' = (if t = t' then Some d else None)"
| "token_thread _ t' = None"

fun token_target :: "run_token \<Rightarrow> nat option" where
  "token_target No_Token = None"
| "token_target (Queued_Token d) = Some d"
| "token_target (Thread_Token t d) = Some d"

text \<open>The dispatcher a thread is about to schedule the runner on.\<close>

fun schedule_target :: "nat \<Rightarrow> 'm thread_pc \<Rightarrow> nat option" where
  "schedule_target own T_Schedule = Some own"
| "schedule_target own (T_WakeSchedule d) = Some d"
| "schedule_target own _ = None"

definition holders :: "'m runner \<Rightarrow> nat option \<Rightarrow> run_token \<Rightarrow> bool" where
  "holders s bw bt \<longleftrightarrow> (\<forall>d. executing (workers s d) \<longleftrightarrow> bw = Some d) \<and> run_tokens s = token_queue bt \<and>
     (\<forall>t. schedule_target (owner s) (threads s t) = token_thread bt t)"

definition active_driver :: "('f, 'c) poll_driver \<Rightarrow> bool" where
  "active_driver d \<longleftrightarrow> is_active d \<and> driver_slot d \<noteq> None"

definition idle_driver :: "('f, 'c) poll_driver \<Rightarrow> bool" where
  "idle_driver d \<longleftrightarrow> \<not> is_active d \<and> driver_slot d = None \<and> \<not> is_poll_scheduled d"

fun pc_driver :: "'m execute_pc \<Rightarrow> ('f, 'c) poll_driver \<Rightarrow> bool" where
  "pc_driver W_CheckActive d \<longleftrightarrow> active_driver d \<or> idle_driver d"
| "pc_driver (W_PollReset _) d \<longleftrightarrow> active_driver d"
| "pc_driver (W_PollLock _) d \<longleftrightarrow> active_driver d \<and> \<not> is_poll_scheduled d"
| "pc_driver (W_Polling _) d \<longleftrightarrow> active_driver d"
| "pc_driver (W_NoFuture _) d \<longleftrightarrow> False"
| "pc_driver (W_KillSchedule _) d \<longleftrightarrow> False"
| "pc_driver W_Ready1 d \<longleftrightarrow> is_active d \<and> driver_slot d = None \<and> \<not> is_poll_scheduled d"
| "pc_driver (W_Fail1 _) d \<longleftrightarrow> is_active d \<and> driver_slot d = None \<and> \<not> is_poll_scheduled d"
| "pc_driver W_Arm2 d \<longleftrightarrow> \<not> is_active d \<and> driver_slot d \<noteq> None \<and> \<not> is_poll_scheduled d"
| "pc_driver W_Arm3 d \<longleftrightarrow> active_driver d \<and> \<not> is_poll_scheduled d"
| "pc_driver _ d \<longleftrightarrow> idle_driver d"

fun pc_polling :: "'m execute_pc \<Rightarrow> bool" where
  "pc_polling (W_Polling _) = True"
| "pc_polling _ = False"

definition pc_life :: "'m execute_pc \<Rightarrow> lifecycle \<Rightarrow> bool" where
  "pc_life pc l \<longleftrightarrow> (pc = W_FinalizeSwap \<longrightarrow> l = LIFECYCLE_KILLING) \<and> (l = LIFECYCLE_STOPPED \<longleftrightarrow> finalizing pc)"

text \<open>What has been dequeued compared with what the actor has received.\<close>

fun pc_flow :: "'m execute_pc \<Rightarrow> lifecycle \<Rightarrow> 'm list \<Rightarrow> 'm list \<Rightarrow> bool" where
  "pc_flow (W_CheckRunning m) l deq rec \<longleftrightarrow> deq = rec @ [m]"
| "pc_flow (W_Receive m) l deq rec \<longleftrightarrow> deq = rec @ [m]"
| "pc_flow W_LoadLifecycle2 l deq rec \<longleftrightarrow> deq = rec \<or> (l \<noteq> LIFECYCLE_RUNNING \<and> prefix rec deq)"
| "pc_flow W_FinalizeSwap l deq rec \<longleftrightarrow> prefix rec deq"
| "pc_flow W_Drain l deq rec \<longleftrightarrow> prefix rec deq"
| "pc_flow W_Clear1 l deq rec \<longleftrightarrow> prefix rec deq"
| "pc_flow W_Clear2 l deq rec \<longleftrightarrow> prefix rec deq"
| "pc_flow W_Clear3 l deq rec \<longleftrightarrow> prefix rec deq"
| "pc_flow W_OnKill l deq rec \<longleftrightarrow> prefix rec deq"
| "pc_flow W_OnFinalize l deq rec \<longleftrightarrow> prefix rec deq"
| "pc_flow _ l deq rec \<longleftrightarrow> deq = rec"

definition rest_ok :: "'m runner \<Rightarrow> run_token \<Rightarrow> bool" where
  "rest_ok s bt \<longleftrightarrow>
     (idle_driver (driver s) \<or> active_driver (driver s)) \<and> slot_lock s = None \<and>
     (active_driver (driver s) \<longrightarrow> is_scheduled s \<and> (is_poll_scheduled (driver s) \<longleftrightarrow> bt \<noteq> No_Token)) \<and>
     (lifecycle_state s = LIFECYCLE_STOPPED \<longleftrightarrow> is_scheduled s \<and> bt = No_Token \<and> idle_driver (driver s)) \<and>
     (\<not> is_scheduled s \<longrightarrow> bt = No_Token) \<and>
     prefix (received s) (dequeued s) \<and>
     (lifecycle_state s \<noteq> LIFECYCLE_STOPPED \<longrightarrow> dequeued s = received s)"

definition hold_ok :: "'m runner \<Rightarrow> nat \<Rightarrow> 'm execute_pc \<Rightarrow> run_token \<Rightarrow> bool" where
  "hold_ok s d pc bt \<longleftrightarrow>
     is_scheduled s \<and> pc_driver pc (driver s) \<and> pc_life pc (lifecycle_state s) \<and>
     pc_flow pc (lifecycle_state s) (dequeued s) (received s) \<and>
     slot_lock s = (if pc_polling pc then Some d else None) \<and>
     (bt \<noteq> No_Token \<longleftrightarrow> pc_polling pc \<and> is_poll_scheduled (driver s)) \<and>
     (bt \<noteq> No_Token \<longrightarrow> token_target bt = Some d)"

definition exclusive_inv :: "'m runner \<Rightarrow> bool" where
  "exclusive_inv s \<longleftrightarrow>
     (\<exists>bt. holders s None bt \<and> rest_ok s bt) \<or>
     (\<exists>d bt. holders s (Some d) bt \<and> hold_ok s d (workers s d) bt)"

lemma exclusive_inv_cases [consumes 1, case_names rest hold]:
  assumes "exclusive_inv s"
  obtains bt where "holders s None bt" "rest_ok s bt"
    | d bt where "holders s (Some d) bt" "hold_ok s d (workers s d) bt"
  using assms unfolding exclusive_inv_def by blast

lemma exclusive_rest: "holders s None bt \<Longrightarrow> rest_ok s bt \<Longrightarrow> exclusive_inv s"
  unfolding exclusive_inv_def by blast

lemma exclusive_hold: "holders s (Some d) bt \<Longrightarrow> hold_ok s d (workers s d) bt \<Longrightarrow> exclusive_inv s"
  unfolding exclusive_inv_def by blast

section \<open>How the holders change\<close>

lemma holders_worker:
  assumes "holders s bw bt" "bw = None \<or> bw = Some d" "workers s' = (workers s)(d := pc)"
    "threads s' = threads s" "owner s' = owner s" "run_tokens s' = token_queue bt'" "token_thread bt' = token_thread bt"
  shows "holders s' (if executing pc then Some d else None) bt'"
  using assms by (auto simp: holders_def)

lemma holders_other:
  assumes "holders s bw bt" "bw \<noteq> Some d" "workers s' = (workers s)(d := pc)" "\<not> executing pc"
    "threads s' = threads s" "owner s' = owner s" "run_tokens s' = run_tokens s"
  shows "holders s' bw bt"
  using assms by (auto simp: holders_def)

lemma holders_thread:
  assumes "holders s bw bt" "threads s' = (threads s)(t := pc)" "workers s' = workers s" "owner s' = owner s"
    "schedule_target (owner s) pc = token_thread bt' t" "\<And>t'. t' \<noteq> t \<Longrightarrow> token_thread bt' t' = token_thread bt t'"
    "run_tokens s' = token_queue bt'"
  shows "holders s' bw bt'"
  using assms by (simp add: holders_def)

lemma holdersD:
  assumes "holders s bw bt"
  shows "executing (workers s d) \<longleftrightarrow> bw = Some d" "run_tokens s = token_queue bt"
    "schedule_target (owner s) (threads s t) = token_thread bt t"
  using assms by (simp_all add: holders_def)

lemma token_thread_SomeD: "token_thread bt t = Some d \<Longrightarrow> bt = Thread_Token t d"
  by (cases bt) (auto split: if_splits)

section \<open>Steps of the threads\<close>

lemma pc_flow_kill: "pc_flow pc LIFECYCLE_RUNNING xs ys \<Longrightarrow> pc_flow pc LIFECYCLE_KILLING xs ys"
  by (cases pc) auto

text \<open>A step that leaves the claim of the runner alone.\<close>

lemma exclusive_thread_frame:
  assumes inv: "exclusive_inv s"
    and upd: "threads s' = (threads s)(t := pc)" "workers s' = workers s" "owner s' = owner s" "run_tokens s' = run_tokens s"
    and claims: "schedule_target (owner s) (threads s t) = None" "schedule_target (owner s) pc = None"
    and fields: "is_scheduled s' = is_scheduled s" "driver s' = driver s" "slot_lock s' = slot_lock s"
      "dequeued s' = dequeued s" "received s' = received s"
      "lifecycle_state s' = lifecycle_state s \<or>
       (lifecycle_state s = LIFECYCLE_RUNNING \<and> lifecycle_state s' = LIFECYCLE_KILLING)"
  shows "exclusive_inv s'"
  using inv
proof (cases rule: exclusive_inv_cases)
  case (rest bt)
  have "holders s' None bt"
    by (rule holders_thread [OF rest(1) upd(1-3)]) (use holdersD [OF rest(1)] claims upd in auto)
  moreover have "rest_ok s' bt"
    using fields(6) rest(2) by (elim disjE) (simp_all add: rest_ok_def fields(1-5))
  ultimately show ?thesis by (rule exclusive_rest)
next
  case (hold d bt)
  have "holders s' (Some d) bt"
    by (rule holders_thread [OF hold(1) upd(1-3)]) (use holdersD [OF hold(1)] claims upd in auto)
  moreover have "hold_ok s' d (workers s' d) bt"
    using fields(6) hold(2)
    by (elim disjE) (auto simp: hold_ok_def pc_life_def fields(1-5) upd(2) intro: pc_flow_kill)
  ultimately show ?thesis by (rule exclusive_hold)
qed

text \<open>A thread claims the runner by setting \<open>is_scheduled\<close>.\<close>

lemma exclusive_claim:
  assumes inv: "exclusive_inv s" and free: "\<not> is_scheduled s"
    and upd: "threads s' = (threads s)(t := T_Schedule)" "workers s' = workers s" "owner s' = owner s"
      "run_tokens s' = run_tokens s"
    and fields: "is_scheduled s'" "driver s' = driver s" "slot_lock s' = slot_lock s"
      "dequeued s' = dequeued s" "received s' = received s" "lifecycle_state s' = lifecycle_state s"
  shows "exclusive_inv s'"
  using inv
proof (cases rule: exclusive_inv_cases)
  case (rest bt)
  then have "bt = No_Token" using free by (simp add: rest_ok_def)
  then have "holders s' None (Thread_Token t (owner s))"
    by (intro holders_thread [OF rest(1) upd(1-3)]) (use holdersD [OF rest(1)] upd in auto)
  moreover have "rest_ok s' (Thread_Token t (owner s))"
    using rest(2) fields free unfolding rest_ok_def by (auto simp: active_driver_def idle_driver_def)
  ultimately show ?thesis by (rule exclusive_rest)
next
  case (hold d bt)
  then show ?thesis using free by (simp add: hold_ok_def)
qed

text \<open>A thread hands its token to a dispatcher.\<close>

lemma exclusive_hand_over:
  assumes inv: "exclusive_inv s"
    and target: "schedule_target (owner s) (threads s t) = Some d"
  shows "exclusive_inv (set_thread t T_Idle (schedule_on d s))"
  using inv
proof (cases rule: exclusive_inv_cases)
  case (rest bt)
  then have bt: "bt = Thread_Token t d" using holdersD(3) target by (metis token_thread_SomeD)
  have "holders (set_thread t T_Idle (schedule_on d s)) None (Queued_Token d)"
    by (rule holders_thread [OF rest(1)]) (use holdersD [OF rest(1)] bt in auto)
  moreover have "rest_ok (set_thread t T_Idle (schedule_on d s)) (Queued_Token d)"
    using rest(2) bt unfolding rest_ok_def by simp
  ultimately show ?thesis by (rule exclusive_rest)
next
  case (hold e bt)
  then have bt: "bt = Thread_Token t d" using holdersD(3) target by (metis token_thread_SomeD)
  have "holders (set_thread t T_Idle (schedule_on d s)) (Some e) (Queued_Token d)"
    by (rule holders_thread [OF hold(1)]) (use holdersD [OF hold(1)] bt in auto)
  moreover have "hold_ok (set_thread t T_Idle (schedule_on d s)) e (workers (set_thread t T_Idle (schedule_on d s)) e) (Queued_Token d)"
    using hold(2) bt unfolding hold_ok_def by simp
  ultimately show ?thesis by (rule exclusive_hold)
qed

text \<open>A wake marks the driver.\<close>

lemma exclusive_mark:
  assumes inv: "exclusive_inv s" and unmarked: "\<not> is_poll_scheduled (driver s)"
    and timing: "suspended s \<or> polling_on d s"
  shows "exclusive_inv (set_thread t (T_WakeSchedule d) (s\<lparr>driver := pd_store_scheduled True (driver s)\<rparr>))"
    (is "exclusive_inv ?s'")
  using inv
proof (cases rule: exclusive_inv_cases)
  case (rest bt)
  have "suspended s"
    using timing holdersD(1) [OF rest(1), of d] by (auto simp: polling_on_def executing_def)
  then have active: "active_driver (driver s)" by (simp add: suspended_def active_driver_def)
  then have "bt = No_Token" using rest(2) unmarked by (simp add: rest_ok_def)
  then have "holders ?s' None (Thread_Token t d)"
    by (intro holders_thread [OF rest(1)]) (use holdersD [OF rest(1)] in auto)
  moreover have "rest_ok ?s' (Thread_Token t d)"
    using rest(2) active by (simp add: rest_ok_def active_driver_def idle_driver_def)
  ultimately show ?thesis by (rule exclusive_rest)
next
  case (hold e bt)
  have "\<not> suspended s"
    using holdersD(1) [OF hold(1), of e] by (auto simp: suspended_def)
  with timing have "polling_on d s" by simp
  moreover from this have "e = d"
    using holdersD(1) [OF hold(1), of d] by (auto simp: polling_on_def executing_def)
  ultimately obtain looping where e: "e = d" "workers s d = W_Polling looping" by (auto simp: polling_on_def)
  then have "bt = No_Token" using hold(2) unmarked by (simp add: hold_ok_def)
  then have "holders ?s' (Some e) (Thread_Token t d)"
    by (intro holders_thread [OF hold(1)]) (use holdersD [OF hold(1)] in auto)
  moreover have "hold_ok ?s' e (workers ?s' e) (Thread_Token t d)"
    using hold(2) e by (simp add: hold_ok_def pc_life_def active_driver_def)
  ultimately show ?thesis by (rule exclusive_hold)
qed

lemma exclusive_thread:
  assumes inv: "exclusive_inv s" and step: "thread_step t (threads s t) s = Some s'"
    and orderly: "\<And>d. threads s t = T_WakeMark d \<Longrightarrow> threads s' t = T_WakeSchedule d \<Longrightarrow> suspended s \<or> polling_on d s"
  shows "exclusive_inv s'"
proof (cases "threads s t")
  case (T_WakeMark d)
  show ?thesis
  proof (cases "is_poll_scheduled (driver s)")
    case True
    then show ?thesis
      using step T_WakeMark by (intro exclusive_thread_frame [OF inv, of _ t T_Idle]) (auto simp: pd_mark_def)
  next
    case False
    then have "s' = set_thread t (T_WakeSchedule d) (s\<lparr>driver := pd_store_scheduled True (driver s)\<rparr>)"
      using step T_WakeMark by (simp add: pd_mark_def)
    then show ?thesis
      using exclusive_mark [OF inv False] orderly [OF T_WakeMark] by simp
  qed
next
  case T_SwapScheduled
  then show ?thesis
    using step exclusive_thread_frame [OF inv, of s' t T_Idle] exclusive_claim [OF inv, of s' t]
    by (auto split: if_splits)
next
  case T_KillSwap
  then show ?thesis
    using step exclusive_thread_frame [OF inv, of s' t T_Idle] exclusive_claim [OF inv, of s' t]
    by (auto split: if_splits)
next
  case T_Schedule
  then show ?thesis using step exclusive_hand_over [OF inv, of t "owner s"] by simp
next
  case (T_WakeSchedule d)
  then show ?thesis using step exclusive_hand_over [OF inv, of t d] by simp
qed (use step in \<open>auto split: if_splits intro: exclusive_thread_frame [OF inv, where t = t]\<close>)

section \<open>Steps of the workers\<close>

lemma execute_frame:
  assumes "execute_step d u (workers s d) s = Some s'"
  shows "workers s' = (workers s)(d := workers s' d) \<and> threads s' = threads s \<and> owner s' = owner s"
  using assms
  by (cases "workers s d")
     (auto simp: Let_def split: option.splits if_splits user_outcome.splits lifecycle.splits)

lemmas hold_simps = hold_ok_def pc_life_def active_driver_def idle_driver_def executing_def

text \<open>The program points of \<open>execute_pending_receive\<close> and of the polls.\<close>

fun in_poll :: "'m execute_pc \<Rightarrow> bool" where
  "in_poll W_CheckActive = True" | "in_poll (W_PollReset _) = True" | "in_poll (W_PollLock _) = True"
| "in_poll (W_Polling _) = True" | "in_poll (W_NoFuture _) = True" | "in_poll W_Ready1 = True"
| "in_poll W_Ready2 = True" | "in_poll (W_Fail1 _) = True" | "in_poll (W_Fail2 _) = True"
| "in_poll (W_KillCas _) = True" | "in_poll (W_KillSwap _) = True" | "in_poll (W_KillSchedule _) = True"
| "in_poll (W_PublishException _) = True" | "in_poll _ = False"

lemma poll_stay:
  assumes ok: "hold_ok s d (workers s d) bt" and step: "execute_step d u (workers s d) s = Some s'"
    and stay: "executing (workers s' d)" and poll: "in_poll (workers s d)"
    and orderly: "driver_slot (driver s) \<noteq> None \<Longrightarrow> driver_slot (driver s') = None \<Longrightarrow> \<not> is_poll_scheduled (driver s)"
  shows "hold_ok s' d (workers s' d) bt \<and> run_tokens s' = run_tokens s"
proof (cases "workers s d")
  case (W_Polling looping)
  then show ?thesis using ok step stay orderly by (cases u) (auto simp: hold_simps)
qed (use ok step poll in \<open>auto simp: hold_simps split: if_splits\<close>)

lemma lifecycle_stay:
  assumes "hold_ok s d (workers s d) bt" "execute_step d u (workers s d) s = Some s'" "executing (workers s' d)"
    "workers s d = W_LoadLifecycle \<or> workers s d = W_LoadLifecycle2"
  shows "hold_ok s' d (workers s' d) bt \<and> run_tokens s' = run_tokens s"
  using assms(4,1-3) by (cases "lifecycle_state s"; elim disjE) (auto simp: hold_simps)

lemma receive_stay:
  assumes "hold_ok s d (workers s d) bt" "execute_step d u (workers s d) s = Some s'" "workers s d = W_Receive m"
  shows "hold_ok s' d (workers s' d) bt \<and> run_tokens s' = run_tokens s"
  using assms by (cases u) (auto simp: hold_simps)

lemma finalize_stay:
  assumes "hold_ok s d (workers s d) bt" "execute_step d u (workers s d) s = Some s'" "executing (workers s' d)"
    "finalizing (workers s d) \<or> workers s d = W_FinalizeSwap"
  shows "hold_ok s' d (workers s' d) bt \<and> run_tokens s' = run_tokens s"
proof (cases "workers s d")
  case W_FinalizeSwap
  then show ?thesis using assms by (auto simp: hold_simps split: if_splits)
next
  case W_Drain
  then show ?thesis using assms by (auto simp: hold_simps split: option.splits)
next
  case W_Clear1
  then show ?thesis using assms by (auto simp: hold_simps split: if_splits)
next
  case W_Clear2
  then show ?thesis using assms by (auto simp: hold_simps)
next
  case W_Clear3
  then show ?thesis using assms by (auto simp: hold_simps)
next
  case W_OnKill
  then show ?thesis using assms by (auto simp: hold_simps)
next
  case W_OnFinalize
  then show ?thesis using assms by (auto simp: hold_simps)
qed (use assms(4) in simp_all)

lemma mail_stay:
  assumes "hold_ok s d (workers s d) bt" "execute_step d u (workers s d) s = Some s'" "executing (workers s' d)"
    "workers s d = W_Dequeue \<or> workers s d = W_CheckRunning m \<or> workers s d = W_Arm1 m \<or> workers s d = W_Arm2
     \<or> workers s d = W_Arm3"
  shows "hold_ok s' d (workers s' d) bt \<and> run_tokens s' = run_tokens s"
  using assms(4,1-3) by (elim disjE) (auto simp: hold_simps split: option.splits if_splits)

lemma execute_stay:
  assumes "hold_ok s d (workers s d) bt" "execute_step d u (workers s d) s = Some s'" "executing (workers s' d)"
    "executing (workers s d)"
    "driver_slot (driver s) \<noteq> None \<Longrightarrow> driver_slot (driver s') = None \<Longrightarrow> \<not> is_poll_scheduled (driver s)"
  shows "hold_ok s' d (workers s' d) bt \<and> run_tokens s' = run_tokens s"
proof -
  consider "in_poll (workers s d)" | "finalizing (workers s d) \<or> workers s d = W_FinalizeSwap"
    | "workers s d = W_LoadLifecycle \<or> workers s d = W_LoadLifecycle2" | m where "workers s d = W_Receive m"
    | m where "workers s d = W_Dequeue \<or> workers s d = W_CheckRunning m \<or> workers s d = W_Arm1 m
        \<or> workers s d = W_Arm2 \<or> workers s d = W_Arm3"
    | "workers s d \<in> {W_Ready3, W_Reschedule, W_Schedule, W_StoreScheduled}"
    using assms(4) by (cases "workers s d") (auto simp: executing_def)
  then show ?thesis
  proof cases
    case 1 show ?thesis by (rule poll_stay [OF assms(1-3) 1 assms(5)])
  next
    case 2 then show ?thesis by (rule finalize_stay [OF assms(1-3)])
  next
    case 3 then show ?thesis by (rule lifecycle_stay [OF assms(1-3)])
  next
    case 4 then show ?thesis by (rule receive_stay [OF assms(1,2)])
  next
    case 5 then show ?thesis by (rule mail_stay [OF assms(1-3)])
  next
    case 6 then show ?thesis using assms(2,3) by (auto simp: executing_def)
  qed
qed

text \<open>A worker that stops executing leaves the runner to its token, suspended, free or stopped.\<close>

lemma execute_leave:
  assumes ok: "hold_ok s d (workers s d) bt" and queue: "run_tokens s = token_queue bt"
    and step: "execute_step d u (workers s d) s = Some s'"
    and executing: "executing (workers s d)" and leave: "\<not> executing (workers s' d)"
  shows "\<exists>bt'. rest_ok s' bt' \<and> run_tokens s' = token_queue bt' \<and> token_thread bt' = token_thread bt"
proof (cases "workers s d")
  case (W_Polling looping)
  then show ?thesis
    using ok step leave queue
    by (intro exI [of _ bt]) (auto simp: rest_ok_def hold_simps split: user_outcome.splits)
next
  case W_StoreScheduled
  then show ?thesis
    using ok step leave queue by (intro exI [of _ No_Token]) (auto simp: rest_ok_def hold_simps)
next
  case W_OnFinalize
  then show ?thesis
    using ok step leave queue by (intro exI [of _ No_Token]) (auto simp: rest_ok_def hold_simps)
next
  case W_Ready3
  then show ?thesis
    using ok step leave queue by (intro exI [of _ "Queued_Token (owner s)"]) (auto simp: rest_ok_def hold_simps)
next
  case W_Reschedule
  then show ?thesis
    using ok step leave queue by (intro exI [of _ "Queued_Token (owner s)"]) (auto simp: rest_ok_def hold_simps)
next
  case W_Schedule
  then show ?thesis
    using ok step leave queue by (intro exI [of _ "Queued_Token (owner s)"]) (auto simp: rest_ok_def hold_simps)
qed (use ok step executing leave in \<open>auto simp: hold_simps Let_def
      split: option.splits if_splits user_outcome.splits lifecycle.splits\<close>)

lemma exclusive_executing:
  assumes inv: "exclusive_inv s" and executing: "executing (workers s d)"
    and step: "execute_step d u (workers s d) s = Some s'"
    and orderly: "driver_slot (driver s) \<noteq> None \<Longrightarrow> driver_slot (driver s') = None \<Longrightarrow> \<not> is_poll_scheduled (driver s)"
  shows "exclusive_inv s'"
  using inv
proof (cases rule: exclusive_inv_cases)
  case (rest bt)
  then show ?thesis using executing by (simp add: holdersD(1))
next
  case (hold e bt)
  then have e: "e = d" using executing by (simp add: holdersD(1))
  note ok = hold(2) [unfolded e] and queue = holdersD(2) [OF hold(1)]
  have frame: "workers s' = (workers s)(d := workers s' d)" "threads s' = threads s" "owner s' = owner s"
    using execute_frame [OF step] by simp_all
  show ?thesis
  proof (cases "executing (workers s' d)")
    case True
    from execute_stay [OF ok step True executing orderly] have "hold_ok s' d (workers s' d) bt" "run_tokens s' = run_tokens s"
      by blast+
    moreover from this holders_worker [OF hold(1), of d s' "workers s' d" bt] have "holders s' (Some d) bt"
      using frame True queue e by simp
    ultimately show ?thesis by (blast intro: exclusive_hold)
  next
    case False
    from execute_leave [OF ok queue step executing False] obtain bt' where
      "rest_ok s' bt'" "run_tokens s' = token_queue bt'" "token_thread bt' = token_thread bt" by blast
    moreover from this holders_worker [OF hold(1), of d s' "workers s' d" bt'] have "holders s' None bt'"
      using frame False e by simp
    ultimately show ?thesis by (blast intro: exclusive_rest)
  qed
qed

text \<open>A worker that looks at the mailbox after it gave the runner up, and may claim it again.\<close>

lemma exclusive_looking:
  assumes inv: "exclusive_inv s" and "\<not> executing (workers s d)"
    and step: "execute_step d u (workers s d) s = Some s'"
  shows "exclusive_inv s'"
proof (cases "workers s d = W_Swap \<and> \<not> is_scheduled s")
  case True
  from inv show ?thesis
  proof (cases rule: exclusive_inv_cases)
    case (rest bt)
    have "holders s' (Some d) bt"
      using holders_worker [OF rest(1), of d s' W_Schedule bt] True step holdersD(2) [OF rest(1)]
      by (auto simp: executing_def)
    moreover have "s' = set_worker d W_Schedule (s\<lparr>is_scheduled := True\<rparr>)"
      using True step by simp
    then have "hold_ok s' d (workers s' d) bt"
      using rest(2) True by (auto simp: rest_ok_def hold_simps)
    ultimately show ?thesis by (rule exclusive_hold)
  qed (use True in \<open>simp add: hold_ok_def\<close>)
next
  case False
  with assms have pc: "\<not> executing (workers s' d)" and
    same: "workers s' = (workers s)(d := workers s' d)" "threads s' = threads s" "owner s' = owner s"
    "run_tokens s' = run_tokens s" "is_scheduled s' = is_scheduled s" "driver s' = driver s" "slot_lock s' = slot_lock s"
    "lifecycle_state s' = lifecycle_state s" "dequeued s' = dequeued s" "received s' = received s"
    by (auto simp: executing_def split: if_splits)
  from inv show ?thesis
  proof (cases rule: exclusive_inv_cases)
    case (rest bt)
    have "holders s' None bt" by (rule holders_other [OF rest(1) _ same(1) pc]) (simp_all add: same(2-4))
    moreover have "rest_ok s' bt = rest_ok s bt" by (simp add: rest_ok_def same(5-))
    ultimately show ?thesis using rest(2) exclusive_rest by blast
  next
    case (hold e bt)
    then have "e \<noteq> d" using assms(2) by (auto simp: holdersD(1))
    then have "holders s' (Some e) bt" by (intro holders_other [OF hold(1) _ same(1) pc]) (simp_all add: same(2-4))
    moreover have "workers s' e = workers s e" using same(1) \<open>e \<noteq> d\<close> by (metis fun_upd_other)
    then have "hold_ok s' e (workers s' e) bt = hold_ok s e (workers s e) bt" by (simp add: hold_ok_def same(5-))
    ultimately show ?thesis using hold(2) exclusive_hold by blast
  qed
qed

text \<open>A dispatcher takes its entry for the runner.\<close>

lemma token_taken:
  assumes "d \<in># queued s" "run_tokens s = token_queue bt"
  shows "bt = Queued_Token d" "queued s = {#d#}" "dropped s = {#}"
  using assms by (cases bt; auto simp: union_is_single)+

lemma exclusive_take:
  assumes inv: "exclusive_inv s" and entry: "d \<in># queued s" and idle: "workers s d = W_Idle"
  shows "exclusive_inv (set_worker d W_CheckActive (s\<lparr>queued := queued s - {#d#}\<rparr>))" (is "exclusive_inv ?s'")
  using inv
proof (cases rule: exclusive_inv_cases)
  case (rest bt)
  note taken = token_taken [OF entry holdersD(2) [OF rest(1)]]
  then have "holders ?s' (Some d) No_Token"
    using holders_worker [OF rest(1), of d ?s' W_CheckActive No_Token] taken
    by (simp add: executing_def fun_eq_iff)
  moreover have "hold_ok ?s' d (workers ?s' d) No_Token"
    using rest(2) taken(1) by (auto simp: rest_ok_def hold_ok_def pc_life_def)
  ultimately show ?thesis by (rule exclusive_hold)
next
  case (hold e bt)
  then have "bt = Queued_Token d" using token_taken(1) [OF entry holdersD(2) [OF hold(1)]] by simp
  then have "e = d" using hold(2) by (simp add: hold_ok_def)
  then show ?thesis using holdersD(1) [OF hold(1), of d] idle by (simp add: executing_def)
qed

lemma exclusive_stop: "exclusive_inv s \<Longrightarrow> exclusive_inv (s\<lparr>stopped_dispatchers := D\<rparr>)"
  by (simp add: exclusive_inv_def holders_def rest_ok_def hold_ok_def)

lemma exclusive_step:
  assumes "exclusive_inv s" "orderly_step s s'"
  shows "exclusive_inv s'"
proof -
  from assms(2) have step: "runner_step s s'" by (simp add: orderly_step_def)
  from step show ?thesis
  proof cases
    case (thread t)
    then show ?thesis
      using assms by (intro exclusive_thread [OF assms(1)]) (auto simp: orderly_step_def)
  next
    case (take d)
    then show ?thesis using exclusive_take [OF assms(1)] by simp
  next
    case (execute d u)
    then show ?thesis
      using assms(2) exclusive_executing [OF assms(1) _ execute] exclusive_looking [OF assms(1) _ execute]
      by (cases "executing (workers s d)") (auto simp: orderly_step_def)
  next
    case (stop d)
    then show ?thesis using exclusive_stop [OF assms(1)] by simp
  qed (use assms(1) in \<open>auto intro: exclusive_thread_frame\<close>)
qed

lemma exclusive_init: "fresh_runner s \<Longrightarrow> exclusive_inv s"
  unfolding fresh_runner_def
  by (elim exE, rule exclusive_rest [of _ No_Token])
     (auto simp: new_runner_def holders_def rest_ok_def idle_driver_def active_driver_def new_driver_def executing_def)

interpretation exclusive: invariant_system fresh_runner orderly_step exclusive_inv
  by unfold_locales (auto intro: exclusive_init exclusive_step)

end
