(* ===== verification/Runner_Delivery.thy ===== *)
theory Runner_Delivery
  imports Runner_Exclusive
begin

text \<open>
  Delivery of mail by the actor runner: the mail that was accepted is what was dequeued followed by the
  mailbox, and mail in the mailbox of an unscheduled runner is always about to be noticed by someone.
  Together with the exclusion of \<open>Runner_Exclusive\<close> this gives the order and completeness of delivery.
\<close>

section \<open>The mail of a run\<close>

fun posting :: "'m thread_pc \<Rightarrow> bool" where
  "posting T_Publish = True" | "posting T_LoadScheduled = True" | "posting T_SwapScheduled = True"
| "posting _ = False"

fun looking :: "'m execute_pc \<Rightarrow> bool" where
  "looking W_Peek = True" | "looking W_Swap = True" | "looking _ = False"

definition mail_order :: "'m runner \<Rightarrow> bool" where
  "mail_order s \<longleftrightarrow> posted s = dequeued s @ map (fst \<circ> snd) (mailbox s)"

definition unpublished :: "'m mailbox \<Rightarrow> nat set" where
  "unpublished mb = {t. \<exists>m. (t, m, False) \<in> set mb}"

definition mail_publish :: "'m runner \<Rightarrow> bool" where
  "mail_publish s \<longleftrightarrow> (\<forall>t \<in> unpublished (mailbox s). threads s t = T_Publish)"

definition mail_noticed :: "'m runner \<Rightarrow> bool" where
  "mail_noticed s \<longleftrightarrow> (\<not> is_scheduled s \<and> mailbox s \<noteq> [] \<longrightarrow>
     some_at posting (threads s) \<or> some_at looking (workers s))"

definition mail_inv :: "'m runner \<Rightarrow> bool" where
  "mail_inv s \<longleftrightarrow> mail_order s \<and> mail_publish s \<and> mail_noticed s"

lemma mb_deq_SomeD: "mb_deq mb = Some (m, mb') \<Longrightarrow> \<exists>t. mb = (t, m, True) # mb'"
  by (cases mb) (auto split: if_splits)

lemma mb_deq_NoneD: "mb_deq mb = None \<Longrightarrow> mb = [] \<or> (\<exists>t m mb'. mb = (t, m, False) # mb')"
  by (cases mb) (auto split: if_splits)

lemma mb_publish_simps [simp]:
  "map (fst \<circ> snd) (mb_publish t mb) = map (fst \<circ> snd) mb" "mb_publish t mb = [] \<longleftrightarrow> mb = []"
  "map (fst \<circ> snd) (mb_claim t m mb) = map (fst \<circ> snd) mb @ [m]"
  by (auto simp: mb_publish_def mb_claim_def)

lemma unpublished_simps [simp]:
  "unpublished [] = {}" "unpublished ((t, m, b) # mb) = (if b then unpublished mb else insert t (unpublished mb))"
  "unpublished (mb_claim t m mb) = insert t (unpublished mb)" "unpublished (mb_publish t mb) = unpublished mb - {t}"
  by (force simp: unpublished_def mb_claim_def mb_publish_def)+

lemma mail_order_thread: "mail_order s \<Longrightarrow> thread_step t (threads s t) s = Some s' \<Longrightarrow> mail_order s'"
  by (cases "threads s t") (auto simp: mail_order_def split: if_splits prod.splits)

lemma execute_mail_same:
  assumes "execute_step d u (workers s d) s = Some s'" "workers s d \<noteq> W_Dequeue" "workers s d \<noteq> W_Drain"
  shows "posted s' = posted s \<and> mailbox s' = mailbox s \<and> dequeued s' = dequeued s"
  using assms
  by (cases "workers s d") (auto simp: Let_def split: if_splits user_outcome.splits lifecycle.splits)

lemma execute_mail:
  assumes "execute_step d u (workers s d) s = Some s'"
  shows "posted s' = posted s \<and> (mailbox s' = mailbox s \<and> dequeued s' = dequeued s \<or>
     (\<exists>m. mb_deq (mailbox s) = Some (m, mailbox s') \<and> dequeued s' = dequeued s @ [m]))"
proof (cases "workers s d = W_Dequeue \<or> workers s d = W_Drain")
  case True
  then show ?thesis using assms by (elim disjE) (auto split: option.splits)
qed (use execute_mail_same [OF assms] in simp)

lemma mail_order_execute: "mail_order s \<Longrightarrow> execute_step d u (workers s d) s = Some s' \<Longrightarrow> mail_order s'"
  by (drule execute_mail) (auto simp: mail_order_def dest!: mb_deq_SomeD)

lemma thread_frame:
  assumes "thread_step t (threads s t) s = Some s'"
  shows "threads s' = (threads s)(t := threads s' t) \<and> workers s' = workers s \<and> owner s' = owner s"
  using assms by (cases "threads s t") (auto split: if_splits prod.splits)

lemma thread_mailbox_same:
  assumes "thread_step t (threads s t) s = Some s'" "\<And>m. threads s t \<noteq> T_Enqueue m" "threads s t \<noteq> T_Publish"
  shows "mailbox s' = mailbox s"
  using assms by (cases "threads s t") (auto split: if_splits prod.splits)

lemma mail_publish_thread:
  assumes inv: "mail_publish s" and step: "thread_step t (threads s t) s = Some s'"
  shows "mail_publish s'"
proof -
  have frame: "threads s' = (threads s)(t := threads s' t)" using thread_frame [OF step] by simp
  have others: "threads s' u = T_Publish" if "u \<in> unpublished (mailbox s)" "u \<noteq> t" for u
    using that inv frame by (metis fun_upd_other mail_publish_def)
  consider (publish) "threads s t = T_Publish" | (enqueue) m where "threads s t = T_Enqueue m"
    | (other) "threads s t \<noteq> T_Publish" "\<And>m. threads s t \<noteq> T_Enqueue m" by blast
  then show ?thesis
  proof cases
    case publish
    then have "unpublished (mailbox s') = unpublished (mailbox s) - {t}" using step by auto
    then show ?thesis using others by (auto simp: mail_publish_def)
  next
    case enqueue
    then have "t \<notin> unpublished (mailbox s)" using inv by (auto simp: mail_publish_def)
    moreover have "unpublished (mailbox s') = unpublished (mailbox s) \<or>
        unpublished (mailbox s') = insert t (unpublished (mailbox s)) \<and> threads s' t = T_Publish"
      using step enqueue by (auto split: if_splits)
    ultimately show ?thesis using others unfolding mail_publish_def by (metis insert_iff)
  next
    case other
    then have "t \<notin> unpublished (mailbox s)" using inv by (auto simp: mail_publish_def)
    then show ?thesis
      using others thread_mailbox_same [OF step] other unfolding mail_publish_def by metis
  qed
qed

lemma mail_publish_execute:
  assumes "mail_publish s" "execute_step d u (workers s d) s = Some s'"
  shows "mail_publish s'"
proof -
  have "unpublished (mailbox s') \<subseteq> unpublished (mailbox s)"
    using execute_mail [OF assms(2)] by (auto dest!: mb_deq_SomeD)
  then show ?thesis
    using assms(1) execute_frame [OF assms(2)] by (auto simp: mail_publish_def)
qed

lemma mail_noticed_thread:
  assumes "mail_noticed s" "thread_step t (threads s t) s = Some s'"
  shows "mail_noticed s'"
  using assms
  by (cases "threads s t")
     (auto simp: mail_noticed_def some_at_here some_at_upd simp del: fun_upd_apply split: if_splits prod.splits)

lemma mail_noticed_peek:
  assumes "mail_inv s" "workers s d = W_Peek" "execute_step d u W_Peek s = Some s'"
  shows "mail_noticed s'"
proof (cases "mb_deq (mailbox s) = None \<and> mailbox s \<noteq> []")
  case True
  then obtain t where "t \<in> unpublished (mailbox s)"
    using mb_deq_NoneD [of "mailbox s"] unpublished_simps(2) by (metis insertI1)
  then have "posting (threads s t)"
    using assms(1) by (simp add: mail_inv_def mail_publish_def)
  then have "some_at posting (threads s)" unfolding some_at_def by blast
  then show ?thesis using assms(3) by (auto simp: mail_noticed_def)
qed (use assms(3) in \<open>auto simp: mail_noticed_def some_at_here simp del: fun_upd_apply\<close>)

lemma mail_noticed_execute:
  assumes inv: "mail_inv s" and step: "execute_step d u (workers s d) s = Some s'"
  shows "mail_noticed s'"
proof (cases "workers s d")
  case W_Peek
  then show ?thesis using mail_noticed_peek [OF inv W_Peek] step by simp
next
  case W_Dequeue
  then show ?thesis
    using inv step
    by (auto simp: mail_inv_def mail_noticed_def some_at_upd simp del: fun_upd_apply split: option.splits dest!: mb_deq_SomeD)
next
  case W_Drain
  then show ?thesis
    using inv step
    by (auto simp: mail_inv_def mail_noticed_def some_at_upd simp del: fun_upd_apply split: option.splits dest!: mb_deq_SomeD)
qed (use inv step in \<open>auto simp: mail_inv_def mail_noticed_def some_at_here some_at_upd Let_def simp del: fun_upd_apply
      split: if_splits option.splits user_outcome.splits lifecycle.splits\<close>)

lemma mail_inv_call:
  assumes "mail_inv s" "threads s t = T_Idle"
  shows "mail_inv (set_thread t pc s)"
proof -
  have "t \<notin> unpublished (mailbox s)" using assms by (auto simp: mail_inv_def mail_publish_def)
  then have "mail_publish (set_thread t pc s)"
    using assms(1) by (auto simp: mail_inv_def mail_publish_def)
  then show ?thesis
    using assms by (auto simp: mail_inv_def mail_order_def mail_noticed_def some_at_upd simp del: fun_upd_apply)
qed

lemma mail_inv_step:
  assumes "mail_inv s" "runner_step s s'"
  shows "mail_inv s'"
  using assms(2)
proof cases
  case (thread t)
  then show ?thesis
    using assms(1) mail_order_thread mail_publish_thread mail_noticed_thread unfolding mail_inv_def by blast
next
  case (execute d u)
  then show ?thesis
    using assms(1) mail_order_execute mail_publish_execute mail_noticed_execute unfolding mail_inv_def by blast
next
  case (take d)
  then show ?thesis using assms(1)
    by (simp add: mail_inv_def mail_order_def mail_publish_def mail_noticed_def some_at_upd del: fun_upd_apply)
next
  case (stop d)
  then show ?thesis using assms(1) by (simp add: mail_inv_def mail_order_def mail_publish_def mail_noticed_def)
qed (use assms(1) mail_inv_call in auto)

lemma mail_inv_init: "fresh_runner s \<Longrightarrow> mail_inv s"
  by (auto simp: fresh_runner_def new_runner_def mail_inv_def mail_order_def mail_publish_def mail_noticed_def)

text \<open>Entries are refused by stopped dispatchers only.\<close>

definition drop_inv :: "'m runner \<Rightarrow> bool" where
  "drop_inv s \<longleftrightarrow> (stopped_dispatchers s = {} \<longrightarrow> dropped s = {#})"

lemma schedule_on_drop: "drop_inv s \<Longrightarrow> drop_inv (schedule_on d s)"
  by (auto simp: drop_inv_def schedule_on_def)

lemma drop_inv_frame:
  "drop_inv (set_thread t pc s) = drop_inv s" "drop_inv (set_worker d pc' s) = drop_inv s" "drop_inv (update_driver f s) = drop_inv s"
  by (simp_all add: drop_inv_def)

lemma drop_inv_step:
  assumes "drop_inv s" "runner_step s s'"
  shows "drop_inv s'"
  using assms(2)
proof cases
  case (thread t)
  then show ?thesis using assms(1) schedule_on_drop
    by (cases "threads s t") (auto simp: drop_inv_frame, auto simp: drop_inv_def split: if_splits prod.splits)
next
  case (execute d u)
  then show ?thesis using assms(1) schedule_on_drop
    by (cases "workers s d") (auto simp: drop_inv_frame, auto simp: drop_inv_def Let_def split: if_splits option.splits user_outcome.splits)
qed (use assms(1) in \<open>auto simp: drop_inv_def\<close>)

lemma drop_inv_init: "fresh_runner s \<Longrightarrow> drop_inv s"
  by (auto simp: fresh_runner_def new_runner_def drop_inv_def)

interpretation drop: invariant_system fresh_runner runner_step drop_inv
  by unfold_locales (auto intro: drop_inv_init drop_inv_step)

interpretation mail: invariant_system fresh_runner runner_step mail_inv
  by unfold_locales (auto intro: mail_inv_init mail_inv_step)

lemma orderly_reach_runner: "orderly_reach s \<Longrightarrow> runner_reach s"
  by (induction rule: reach.induct) (auto simp: orderly_step_def intro: reach.intros)

section \<open>Properties of runs with orderly wakes\<close>

text \<open>
  C1: in runs with orderly wakes at most one worker executes the runner at any time, so no two receives
  of an actor overlap; while a receive is pending (a future is stored and the worker is not polling
  it) no worker receives, drains the mailbox or calls \<open>on_kill\<close>.
\<close>

theorem receives_are_exclusive:
  assumes "orderly_reach s"
  shows "(executing (workers s d) \<and> executing (workers s e) \<longrightarrow> d = e) \<and>
     (is_active (driver s) \<and> driver_slot (driver s) \<noteq> None \<longrightarrow>
        (\<forall>m. workers s d \<noteq> W_Receive m) \<and> workers s d \<noteq> W_Dequeue \<and> \<not> finalizing (workers s d))"
proof -
  have inv: "exclusive_inv s" using exclusive.reach_inv [OF assms] .
  have driver: "executing (workers s d) \<Longrightarrow> pc_driver (workers s d) (driver s)"
    using inv by (cases rule: exclusive_inv_cases) (auto simp: holdersD(1) hold_ok_def)
  have "executing (workers s d) \<and> executing (workers s e) \<longrightarrow> d = e"
    using inv by (cases rule: exclusive_inv_cases) (auto simp: holdersD(1))
  then show ?thesis
    using driver by (cases "workers s d") (auto simp: idle_driver_def executing_def)
qed

lemma received_prefix_dequeued:
  assumes "exclusive_inv s"
  shows "prefix (received s) (dequeued s)"
  using assms
proof (cases rule: exclusive_inv_cases)
  case (rest bt)
  then show ?thesis by (simp add: rest_ok_def)
next
  case (hold d bt)
  then have "pc_flow (workers s d) (lifecycle_state s) (dequeued s) (received s)" by (simp add: hold_ok_def)
  then show ?thesis by (cases "workers s d") auto
qed

text \<open>
  C6: in runs with orderly wakes the actor receives the accepted mail in the order of acceptance, each
  mail at most once and without gaps: what it has received is always a prefix of what was posted.
\<close>

theorem mail_received_in_order:
  assumes "orderly_reach s"
  shows "prefix (received s) (posted s)"
proof -
  have "mail_order s"
    using mail.reach_inv [OF orderly_reach_runner [OF assms]] by (simp add: mail_inv_def)
  then show ?thesis
    using received_prefix_dequeued [OF exclusive.reach_inv [OF assms]]
    by (auto simp: mail_order_def intro: prefix_order.trans)
qed

text \<open>
  C7: no mail is left behind. In runs with orderly wakes in which no dispatcher has been stopped: when an actor that was not killed
  comes to rest, with no thread in a call, no worker executing it, no dispatcher entry and no pending receive, then its
  mailbox is empty and it has received everything that was posted.
\<close>

theorem no_mail_left_behind:
  assumes "orderly_reach s" "lifecycle_state s = LIFECYCLE_RUNNING"
    "\<forall>t. threads s t = T_Idle" "\<forall>d. workers s d = W_Idle" "queued s = {#}" "\<not> is_active (driver s)"
    "stopped_dispatchers s = {}"
  shows "mailbox s = [] \<and> received s = posted s \<and> \<not> is_scheduled s"
proof -
  have inv: "exclusive_inv s" and mail: "mail_order s" "mail_noticed s"
    using exclusive.reach_inv [OF assms(1)] mail.reach_inv [OF orderly_reach_runner [OF assms(1)]]
    by (simp_all add: mail_inv_def)
  from inv obtain bt where bt: "holders s None bt" "rest_ok s bt"
  proof (cases rule: exclusive_inv_cases)
    case (hold d bt)
    then have "executing (workers s d)" by (simp add: holdersD(1))
    then show ?thesis using assms(4) by (simp add: executing_def)
  qed blast
  have "dropped s = {#}"
    using drop.reach_inv [OF orderly_reach_runner [OF assms(1)]] assms(7) by (simp add: drop_inv_def)
  then have "bt = No_Token"
    using bt(1) assms(3,5) by (cases bt) (auto simp: holders_def split: if_splits)
  then have "\<not> is_scheduled s" "dequeued s = received s"
    using bt(2) assms(2,6) by (auto simp: rest_ok_def active_driver_def)
  then show ?thesis
    using mail assms(3,4) by (auto simp: mail_order_def mail_noticed_def some_at_def)
qed

text \<open>Concrete orderly runs.\<close>

definition label_orderly :: "'m run_label \<Rightarrow> 'm runner \<Rightarrow> 'm runner \<Rightarrow> bool" where
  "label_orderly l s s' \<longleftrightarrow>
     (case l of
        L_Thread t \<Rightarrow> (case threads s t of
            T_WakeMark d \<Rightarrow> is_poll_scheduled (driver s) \<or> suspended s \<or> polling_on d s
          | _ \<Rightarrow> True)
      | _ \<Rightarrow> True) \<and>
     (driver_slot (driver s) \<noteq> None \<and> driver_slot (driver s') = None \<longrightarrow> \<not> is_poll_scheduled (driver s))"

fun run_orderly :: "'m run_label list \<Rightarrow> 'm runner \<Rightarrow> 'm runner option" where
  "run_orderly [] s = Some s"
| "run_orderly (l # ls) s =
     (case run_label_step l s of
        None \<Rightarrow> None
      | Some s' \<Rightarrow> if label_orderly l s s' then run_orderly ls s' else None)"

lemma label_marks:
  assumes "run_label_step l s = Some s'" "threads s t = T_WakeMark d" "threads s' t = T_WakeSchedule d"
  shows "l = L_Thread t \<and> \<not> is_poll_scheduled (driver s)"
proof (cases l)
  case (L_Thread u)
  then have "u = t" using assms thread_frame [of u s s'] by (metis fun_upd_other run_label_step.simps(4) thread_pc.distinct(131))
  then show ?thesis using assms L_Thread by (auto simp: pd_mark_def split: if_splits)
next
  case (L_Work e u)
  then show ?thesis using assms execute_frame [of e u s s'] by simp
qed (use assms in \<open>auto split: if_splits\<close>)

lemma label_orderly_step:
  assumes "run_label_step l s = Some s'" "label_orderly l s s'"
  shows "orderly_step s s'"
  using assms run_label_sound [OF assms(1)] label_marks [OF assms(1)]
  unfolding orderly_step_def label_orderly_def by fastforce

lemma run_orderly_reach: "run_orderly ls s = Some s' \<Longrightarrow> orderly_reach s \<Longrightarrow> orderly_reach s'"
proof (induction ls arbitrary: s)
  case (Cons l ls)
  then obtain u where "run_label_step l s = Some u" "label_orderly l s u" "run_orderly ls u = Some s'"
    by (auto split: option.splits if_splits)
  with Cons show ?case by (meson reach_step label_orderly_step)
qed simp

lemma new_runner_orderly: "orderly_reach (new_runner d capacity)"
  by (rule reach_init) (auto simp: fresh_runner_def)

text \<open>
  Mail 7 is received on dispatcher 0 and stays pending; a wake on dispatcher 1 polls it to the end there,
  and dispatcher 0 then finds the mailbox empty. After the first part the receive is suspended.
\<close>

definition pending_run :: "nat run_label list" where
  "pending_run = [L_Post 0 7] @ replicate 6 (L_Thread 0) @ [L_Take 0] @ replicate 11 (L_Work 0 U_Pending)"

definition resumed_run :: "nat run_label list" where
  "resumed_run = pending_run @ [L_Wake 1 1] @ replicate 3 (L_Thread 1) @ [L_Take 1]
     @ replicate 7 (L_Work 1 U_Done) @ [L_Take 0] @ replicate 6 (L_Work 0 U_Done)"

lemmas orderly_simps = run_simps label_orderly_def suspended_def polling_on_def executing_def numeral_eq_Suc

theorem receives_are_exclusive_witness:
  "\<exists>s. run_orderly pending_run (new_runner 0 4) = Some s \<and> is_active (driver s) \<and>
     driver_slot (driver s) \<noteq> None \<and> \<not> finalizing (workers s 0)"
proof -
  obtain s where s: "run_orderly pending_run (new_runner 0 4) = Some s" "is_active (driver s)" "driver_slot (driver s) \<noteq> None"
    by (simp add: pending_run_def orderly_simps)
  then show ?thesis
    using receives_are_exclusive [OF run_orderly_reach [OF s(1) new_runner_orderly], of 0 0] by blast
qed

theorem mail_received_in_order_witness:
  "\<exists>s. run_orderly pending_run (new_runner 0 4) = Some s \<and> received s = [7] \<and> prefix (received s) (posted s)"
proof -
  obtain s where s: "run_orderly pending_run (new_runner 0 4) = Some s" "received s = [7]"
    by (simp add: pending_run_def orderly_simps)
  then show ?thesis
    using mail_received_in_order [OF run_orderly_reach [OF s(1) new_runner_orderly]] by blast
qed

theorem no_mail_left_behind_witness:
  "\<exists>s. run_orderly resumed_run (new_runner 0 4) = Some s \<and> posted s = [7] \<and> received s = [7] \<and> mailbox s = []"
proof -
  obtain s where s: "run_orderly resumed_run (new_runner 0 4) = Some s" "posted s = [7]"
    "lifecycle_state s = LIFECYCLE_RUNNING" "\<forall>t. threads s t = T_Idle" "\<forall>d. workers s d = W_Idle"
    "queued s = {#}" "\<not> is_active (driver s)" "stopped_dispatchers s = {}"
    by (simp add: resumed_run_def pending_run_def orderly_simps)
  then show ?thesis
    using no_mail_left_behind [OF run_orderly_reach [OF s(1) new_runner_orderly]] by auto
qed

end
