(* ===== verification/Registry.thy ===== *)
theory Registry
  imports Prelude State_System
begin

text \<open>
  The actor registry of \<^verbatim>\<open>internals/registry.rs\<close>: a fixed table of slots, each with a generation and
  the runner it holds, and the allocation state behind a mutex. A handle of an actor is a slot index
  with a generation. Each method is one step. A panic raised while the allocation mutex is held
  poisons it, after which \<open>lock().unwrap()\<close> panics for every later caller; the flag
  \<open>alloc_poisoned\<close> records that. The methods return their result with the registry they leave behind,
  also when they panic.
\<close>

section \<open>Data\<close>

type_synonym handle = "u32 \<times> u32"

record actor_ref =
  ref_index :: u32
  ref_generation :: u32
  ref_alias :: "string option"

text \<open>What the registry and the system read of an \<open>ActorRunner\<close>.\<close>

record actor_runner =
  runner_ref :: actor_ref
  runner_dispatcher :: nat
  runner_mailbox_capacity :: usize

definition runner_handle :: "actor_runner \<Rightarrow> handle" where
  "runner_handle r = (ref_index (runner_ref r), ref_generation (runner_ref r))"

record registry_slot =
  slot_generation :: u32
  slot_owner :: "actor_runner option"

record registry =
  registry_slots :: "registry_slot list"
  registry_capacity :: u32
  free_indices :: "u32 list"
  next_unused :: u32
  live :: usize
  alloc_poisoned :: bool

section \<open>Operations\<close>

definition registry_with_capacity :: "usize \<Rightarrow> registry" where
  "registry_with_capacity capacity =
     (let capacity' = ucast (min (max capacity 1) 0xFFFFFFFE) :: u32 in
      \<lparr>registry_slots = replicate (unat capacity') \<lparr>slot_generation = 0, slot_owner = None\<rparr>,
       registry_capacity = capacity', free_indices = [], next_unused = 0, live = 0, alloc_poisoned = False\<rparr>)"

text \<open>The index \<open>reserve\<close> takes: the last freed one, or the next unused one; \<open>None\<close> when there is none.\<close>

definition take_index :: "registry \<Rightarrow> (u32 \<times> registry) option" where
  "take_index reg =
     (if free_indices reg \<noteq> []
      then Some (last (free_indices reg), reg\<lparr>free_indices := butlast (free_indices reg)\<rparr>)
      else if next_unused reg \<ge> registry_capacity reg then None
      else Some (next_unused reg, reg\<lparr>next_unused := next_unused reg + 1\<rparr>))"

definition set_slot :: "u32 \<Rightarrow> (registry_slot \<Rightarrow> registry_slot) \<Rightarrow> registry \<Rightarrow> registry" where
  "set_slot index f reg =
     reg\<lparr>registry_slots := (registry_slots reg)[unat index := f (registry_slots reg ! unat index)]\<rparr>"

definition reserve :: "registry \<Rightarrow> handle result \<times> registry" where
  "reserve reg =
     (if alloc_poisoned reg then (Inl Lock_Poisoned, reg)
      else case take_index reg of
        None \<Rightarrow> (Inl (Registry_Capacity_Exceeded (registry_capacity reg)), reg\<lparr>alloc_poisoned := True\<rparr>)
      | Some (index, reg') \<Rightarrow>
          if length (registry_slots reg') \<le> unat index
          then (Inl Index_Out_Of_Bounds, reg'\<lparr>alloc_poisoned := True\<rparr>)
          else let generation = slot_generation (registry_slots reg' ! unat index) + 1 in
               (Inr (index, generation),
                (set_slot index (\<lambda>slot. slot\<lparr>slot_generation := generation\<rparr>) reg')\<lparr>live := live reg' + 1\<rparr>))"

definition commit :: "u32 \<Rightarrow> actor_runner \<Rightarrow> registry \<Rightarrow> unit result \<times> registry" where
  "commit index runner reg =
     (if length (registry_slots reg) \<le> unat index then (Inl Index_Out_Of_Bounds, reg)
      else (Inr (), set_slot index (\<lambda>slot. slot\<lparr>slot_owner := Some runner\<rparr>) reg))"

text \<open>
  The runner on which \<open>post\<close> calls \<open>enqueue_only\<close> and \<open>schedule_self\<close>, and \<open>kill\<close> calls \<open>kill\<close>: both
  check the generation, take the owner lock and check the generation again.
\<close>

definition lookup :: "registry \<Rightarrow> u32 \<Rightarrow> u32 \<Rightarrow> actor_runner option" where
  "lookup reg index generation =
     (if index \<ge> registry_capacity reg then None
      else let slot = registry_slots reg ! unat index in
           if slot_generation slot \<noteq> generation then None else slot_owner slot)"

definition remove :: "u32 \<Rightarrow> u32 \<Rightarrow> registry \<Rightarrow> actor_runner option result \<times> registry" where
  "remove index generation reg =
     (if alloc_poisoned reg then (Inl Lock_Poisoned, reg)
      else if index \<ge> registry_capacity reg then (Inr None, reg)
      else let slot = registry_slots reg ! unat index in
        if slot_generation slot \<noteq> generation then (Inr None, reg)
        else let reg' = set_slot index (\<lambda>slot. slot\<lparr>slot_generation := generation + 1, slot_owner := None\<rparr>) reg in
          (Inr (slot_owner slot),
           if slot_owner slot \<noteq> None
           then reg'\<lparr>free_indices := free_indices reg @ [index], live := live reg - 1\<rparr> else reg'))"

definition snapshot_live :: "registry \<Rightarrow> actor_runner list result" where
  "snapshot_live reg =
     (if alloc_poisoned reg then Inl Lock_Poisoned
      else Inr (concat (map (\<lambda>i. case slot_owner (registry_slots reg ! i) of None \<Rightarrow> [] | Some r \<Rightarrow> [r])
                  [0..<unat (next_unused reg)])))"

definition live_count :: "registry \<Rightarrow> usize result" where
  "live_count reg = (if alloc_poisoned reg then Inl Lock_Poisoned else Inr (live reg))"

section \<open>Use of the registry\<close>

text \<open>
  How the system uses it: a handle is reserved, then its runner is committed, and only handles that
  were handed out and are not in between are removed. \<open>pending\<close> holds the handles in between, \<open>issued\<close> all handles in the
  order in which they were handed out.
\<close>

record registry_use =
  registry :: registry
  pending :: "handle set"
  issued :: "handle list"

inductive registry_step :: "registry_use \<Rightarrow> registry_use \<Rightarrow> bool" where
  reserve: "reserve (registry s) = (Inr h, reg) \<Longrightarrow>
     registry_step s (s\<lparr>registry := reg, pending := insert h (pending s), issued := issued s @ [h]\<rparr>)"
| reserve_panic: "reserve (registry s) = (Inl p, reg) \<Longrightarrow> registry_step s (s\<lparr>registry := reg\<rparr>)"
| commit: "runner_handle r \<in> pending s \<Longrightarrow> commit (fst (runner_handle r)) r (registry s) = (res, reg) \<Longrightarrow>
     registry_step s (s\<lparr>registry := reg, pending := pending s - {runner_handle r}\<rparr>)"
| remove: "(index, generation) \<in> set (issued s) \<Longrightarrow> (index, generation) \<notin> pending s \<Longrightarrow> remove index generation (registry s) = (res, reg) \<Longrightarrow>
     registry_step s (s\<lparr>registry := reg\<rparr>)"

definition fresh_registry :: "registry_use \<Rightarrow> bool" where
  "fresh_registry s \<longleftrightarrow> (\<exists>capacity. s = \<lparr>registry = registry_with_capacity capacity, pending = {}, issued = []\<rparr>)"

abbreviation registry_reach :: "registry_use \<Rightarrow> bool" where
  "registry_reach \<equiv> reach fresh_registry registry_step"

section \<open>Invariant\<close>

definition slot_at :: "registry \<Rightarrow> u32 \<Rightarrow> registry_slot" where
  "slot_at reg i = registry_slots reg ! unat i"

definition in_use :: "registry \<Rightarrow> u32 \<Rightarrow> bool" where
  "in_use reg i \<longleftrightarrow> i < next_unused reg \<and> i \<notin> set (free_indices reg)"

text \<open>The generations handed out for a slot.\<close>

definition issued_for :: "u32 \<Rightarrow> handle list \<Rightarrow> u32 list" where
  "issued_for i hs = map snd (filter (\<lambda>h. fst h = i) hs)"

definition alloc_ok :: "registry \<Rightarrow> bool" where
  "alloc_ok reg \<longleftrightarrow>
     length (registry_slots reg) = unat (registry_capacity reg) \<and> next_unused reg \<le> registry_capacity reg \<and>
     registry_capacity reg \<le> 0xFFFFFFFE \<and> distinct (free_indices reg) \<and>
     (\<forall>i \<in> set (free_indices reg). i < next_unused reg) \<and>
     unat (live reg) + length (free_indices reg) = unat (next_unused reg)"

text \<open>
  Slot \<open>i\<close>: its generations so far are 1, 3, 5, \<dots>; the current one is odd exactly while the slot is
  in use; a runner in it carries its index and current generation.
\<close>

definition slot_ok :: "registry \<Rightarrow> handle set \<Rightarrow> handle list \<Rightarrow> u32 \<Rightarrow> bool" where
  "slot_ok reg pend hs i \<longleftrightarrow>
     (let n = length (issued_for i hs); slot = slot_at reg i in
      issued_for i hs = map (\<lambda>k. of_nat (2 * k + 1)) [0..<n] \<and>
      slot_generation slot + (if in_use reg i then 1 else 0) = of_nat (2 * n) \<and>
      (\<forall>r. slot_owner slot = Some r \<longrightarrow> runner_handle r = (i, slot_generation slot)) \<and>
      (slot_owner slot \<noteq> None \<or> (i, slot_generation slot) \<in> pend \<longleftrightarrow> in_use reg i) \<and>
      (slot_owner slot \<noteq> None \<longrightarrow> (i, slot_generation slot) \<notin> pend))"

definition registry_inv :: "registry_use \<Rightarrow> bool" where
  "registry_inv s \<longleftrightarrow> alloc_ok (registry s) \<and>
     (\<forall>i < registry_capacity (registry s). slot_ok (registry s) (pending s) (issued s) i) \<and>
     (\<forall>(i, g) \<in> pending s. i < registry_capacity (registry s) \<and> slot_generation (slot_at (registry s) i) = g) \<and>
     (\<forall>h \<in> set (issued s). fst h < registry_capacity (registry s))"

section \<open>Preservation\<close>

lemma set_slot_simps [simp]:
  "registry_capacity (set_slot i f reg) = registry_capacity reg" "free_indices (set_slot i f reg) = free_indices reg"
  "next_unused (set_slot i f reg) = next_unused reg" "live (set_slot i f reg) = live reg"
  "alloc_poisoned (set_slot i f reg) = alloc_poisoned reg"
  "length (registry_slots (set_slot i f reg)) = length (registry_slots reg)"
  by (simp_all add: set_slot_def)

lemma slot_at_set_slot:
  assumes "unat i < length (registry_slots reg)"
  shows "slot_at (set_slot i f reg) j = (if i = j then f (slot_at reg i) else slot_at reg j)"
  using assms by (auto simp: slot_at_def set_slot_def nth_list_update word_unat_eq_iff)

lemma slot_at_frame [simp]:
  "slot_at (reg\<lparr>free_indices := x\<rparr>) = slot_at reg" "slot_at (reg\<lparr>next_unused := y\<rparr>) = slot_at reg"
  "slot_at (reg\<lparr>live := z\<rparr>) = slot_at reg" "slot_at (reg\<lparr>alloc_poisoned := b\<rparr>) = slot_at reg"
  by (simp_all add: slot_at_def fun_eq_iff)

lemma in_use_frame [simp]:
  "in_use (reg\<lparr>live := z\<rparr>) = in_use reg" "in_use (reg\<lparr>alloc_poisoned := b\<rparr>) = in_use reg"
  "in_use (set_slot i f reg) = in_use reg"
  by (simp_all add: in_use_def fun_eq_iff)

lemma slot_okD:
  assumes "slot_ok reg pend hs i"
  shows "issued_for i hs = map (\<lambda>k. of_nat (2 * k + 1)) [0..<length (issued_for i hs)]"
    and "slot_generation (slot_at reg i) + (if in_use reg i then 1 else 0) = of_nat (2 * length (issued_for i hs))"
    and "slot_owner (slot_at reg i) = Some r \<Longrightarrow> runner_handle r = (i, slot_generation (slot_at reg i))"
    and "slot_owner (slot_at reg i) \<noteq> None \<or> (i, slot_generation (slot_at reg i)) \<in> pend \<longleftrightarrow> in_use reg i"
    and "slot_owner (slot_at reg i) \<noteq> None \<Longrightarrow> (i, slot_generation (slot_at reg i)) \<notin> pend"
proof -
  note ok = assms [unfolded slot_ok_def Let_def]
  show "issued_for i hs = map (\<lambda>k. of_nat (2 * k + 1)) [0..<length (issued_for i hs)]"
    by (rule conjunct1 [OF ok])
  show "slot_generation (slot_at reg i) + (if in_use reg i then 1 else 0) = of_nat (2 * length (issued_for i hs))"
    by (rule conjunct1 [OF conjunct2 [OF ok]])
  show "slot_owner (slot_at reg i) = Some r \<Longrightarrow> runner_handle r = (i, slot_generation (slot_at reg i))"
    using conjunct2 [OF conjunct2 [OF ok]] by simp
  show "slot_owner (slot_at reg i) \<noteq> None \<or> (i, slot_generation (slot_at reg i)) \<in> pend \<longleftrightarrow> in_use reg i"
    and "slot_owner (slot_at reg i) \<noteq> None \<Longrightarrow> (i, slot_generation (slot_at reg i)) \<notin> pend"
    using conjunct2 [OF conjunct2 [OF conjunct2 [OF ok]]] by blast+
qed

lemma registry_invD:
  assumes "registry_inv s"
  shows "alloc_ok (registry s)"
    and "i < registry_capacity (registry s) \<Longrightarrow> slot_ok (registry s) (pending s) (issued s) i"
    and "(i, g) \<in> pending s \<Longrightarrow> i < registry_capacity (registry s)"
    and "(i, g) \<in> pending s \<Longrightarrow> slot_generation (slot_at (registry s) i) = g"
    and "h \<in> set (issued s) \<Longrightarrow> fst h < registry_capacity (registry s)"
proof -
  note inv = assms [unfolded registry_inv_def]
  show "alloc_ok (registry s)" by (rule conjunct1 [OF inv])
  show "i < registry_capacity (registry s) \<Longrightarrow> slot_ok (registry s) (pending s) (issued s) i"
    using conjunct1 [OF conjunct2 [OF inv]] by simp
  show "i < registry_capacity (registry s)" "slot_generation (slot_at (registry s) i) = g" if "(i, g) \<in> pending s"
    using bspec [OF conjunct1 [OF conjunct2 [OF conjunct2 [OF inv]]] that] by simp_all
  show "h \<in> set (issued s) \<Longrightarrow> fst h < registry_capacity (registry s)"
    using conjunct2 [OF conjunct2 [OF conjunct2 [OF inv]]] by simp
qed

lemma registry_invI:
  assumes "alloc_ok (registry s)"
    and "\<And>i. i < registry_capacity (registry s) \<Longrightarrow> slot_ok (registry s) (pending s) (issued s) i"
    and "\<And>i g. (i, g) \<in> pending s \<Longrightarrow> i < registry_capacity (registry s) \<and> slot_generation (slot_at (registry s) i) = g"
    and "\<And>h. h \<in> set (issued s) \<Longrightarrow> fst h < registry_capacity (registry s)"
  shows "registry_inv s"
  unfolding registry_inv_def using assms by (intro conjI allI impI ballI) auto

lemma alloc_index: "alloc_ok reg \<Longrightarrow> i < registry_capacity reg \<Longrightarrow> unat i < length (registry_slots reg)"
  by (simp add: alloc_ok_def word_less_nat_alt)

lemma take_index_frame:
  assumes "take_index reg = Some (i, reg')"
  shows "slot_at reg' = slot_at reg" "registry_slots reg' = registry_slots reg"
    "registry_capacity reg' = registry_capacity reg" "live reg' = live reg" "alloc_poisoned reg' = alloc_poisoned reg"
  using assms by (auto simp: take_index_def split: if_splits)

lemma word_nat_bound: "unat (w :: u32) < 4294967296"
proof -
  have "unat w < 2 ^ LENGTH(32)" by (rule unsigned_less)
  then show ?thesis by simp
qed

lemma alloc_live_small:
  assumes "alloc_ok reg"
  shows "unat (live reg) < 2 ^ 32" "unat (live reg + 1) = unat (live reg) + 1"
proof -
  show small: "unat (live reg) < 2 ^ 32"
    using assms word_nat_bound [of "next_unused reg"] by (simp add: alloc_ok_def)
  then show "unat (live reg + 1) = unat (live reg) + 1"
    by (simp add: unat_word_ariths)
qed

lemma take_index_ok:
  assumes ok: "alloc_ok reg" and take: "take_index reg = Some (i, reg')"
  shows "i < registry_capacity reg" "\<not> in_use reg i" "in_use reg' = (in_use reg)(i := True)"
    "alloc_ok (reg'\<lparr>live := live reg' + 1\<rparr>)"
proof -
  have "i < registry_capacity reg \<and> \<not> in_use reg i \<and> in_use reg' = (in_use reg)(i := True) \<and>
      alloc_ok (reg'\<lparr>live := live reg' + 1\<rparr>)"
  proof (cases "free_indices reg" rule: rev_cases)
    case Nil
    then have i: "i = next_unused reg" "reg' = reg\<lparr>next_unused := next_unused reg + 1\<rparr>" "i < registry_capacity reg"
      using take by (auto simp: take_index_def split: if_splits)
    have nxt: "unat (next_unused reg + 1) = unat (next_unused reg) + 1"
      using i(1,3) word_nat_bound [of "registry_capacity reg"] by (simp add: word_less_nat_alt unat_word_ariths)
    then have "j < next_unused reg + 1 \<longleftrightarrow> j < next_unused reg \<or> j = next_unused reg" for j
      by (auto simp: word_less_nat_alt word_unat_eq_iff less_Suc_eq)
    moreover have "next_unused reg + 1 \<le> registry_capacity reg"
      using i(1,3) nxt by (simp add: word_less_nat_alt word_le_nat_alt)
    ultimately show ?thesis
      using ok i Nil nxt alloc_live_small [OF ok]
      by (auto simp: in_use_def alloc_ok_def fun_eq_iff)
  next
    case (snoc fs x)
    then have "i = x" "reg' = reg\<lparr>free_indices := fs\<rparr>"
      using take by (auto simp: take_index_def split: if_splits)
    then show ?thesis
      using ok snoc alloc_live_small [OF ok] by (auto simp: in_use_def alloc_ok_def fun_eq_iff)
  qed
  then show "i < registry_capacity reg" "\<not> in_use reg i" "in_use reg' = (in_use reg)(i := True)"
    "alloc_ok (reg'\<lparr>live := live reg' + 1\<rparr>)" by simp_all
qed

lemma issued_for_append: "issued_for i (hs @ [(j, g)]) = issued_for i hs @ (if i = j then [g] else [])"
  by (auto simp: issued_for_def)

lemma slot_ok_cong:
  assumes "slot_at reg' i = slot_at reg i" "in_use reg' i = in_use reg i"
    "\<And>g. (i, g) \<in> pend' \<longleftrightarrow> (i, g) \<in> pend" "issued_for i hs' = issued_for i hs"
  shows "slot_ok reg' pend' hs' i = slot_ok reg pend hs i"
  using assms by (simp add: slot_ok_def)

lemma alloc_ok_set_slot [simp]: "alloc_ok (set_slot i f reg) = alloc_ok reg"
  by (simp add: alloc_ok_def)

lemma alloc_ok_poison [simp]: "alloc_ok (reg\<lparr>alloc_poisoned := b\<rparr>) = alloc_ok reg"
  by (simp add: alloc_ok_def)

lemma registry_inv_poison [simp]:
  "registry_inv (s\<lparr>registry := registry s\<lparr>alloc_poisoned := b\<rparr>\<rparr>) = registry_inv s"
proof -
  have "slot_ok (registry s\<lparr>alloc_poisoned := b\<rparr>) pend hs i = slot_ok (registry s) pend hs i" for pend hs i
    by (rule slot_ok_cong) simp_all
  then show ?thesis by (simp add: registry_inv_def)
qed

text \<open>\<open>reserve\<close> on a registry in its invariant.\<close>

lemma reserve_cases:
  assumes "alloc_ok reg"
  obtains (poisoned) "alloc_poisoned reg" "reserve reg = (Inl Lock_Poisoned, reg)"
    | (full) "\<not> alloc_poisoned reg" "free_indices reg = []" "next_unused reg = registry_capacity reg"
        "reserve reg = (Inl (Registry_Capacity_Exceeded (registry_capacity reg)), reg\<lparr>alloc_poisoned := True\<rparr>)"
    | (ok) i reg1 where "\<not> alloc_poisoned reg" "take_index reg = Some (i, reg1)"
        "reserve reg = (Inr (i, slot_generation (slot_at reg i) + 1),
           (set_slot i (\<lambda>slot. slot\<lparr>slot_generation := slot_generation (slot_at reg i) + 1\<rparr>) reg1)\<lparr>live := live reg + 1\<rparr>)"
proof (cases "alloc_poisoned reg")
  case True
  then show ?thesis using poisoned by (simp add: reserve_def)
next
  case False
  show ?thesis
  proof (cases "take_index reg")
    case None
    then have "free_indices reg = []" "next_unused reg = registry_capacity reg"
      using assms by (auto simp: take_index_def alloc_ok_def split: if_splits)
    then show ?thesis using full False None by (simp add: reserve_def)
  next
    case (Some a)
    obtain i reg1 where a: "a = (i, reg1)" by (cases a)
    have "unat i < length (registry_slots reg1)"
      using take_index_ok(1) [OF assms] take_index_frame(2) alloc_index [OF assms] Some a by simp
    then show ?thesis
      using ok [OF False Some [unfolded a]] False Some a take_index_frame [OF Some [unfolded a]]
      by (simp add: reserve_def Let_def slot_at_def)
  qed
qed

lemma registry_inv_reserve:
  assumes inv: "registry_inv s" and res: "reserve (registry s) = (Inr h, reg)"
  shows "registry_inv (s\<lparr>registry := reg, pending := insert h (pending s), issued := issued s @ [h]\<rparr>)"
proof -
  have alloc: "alloc_ok (registry s)" using inv by (simp add: registry_inv_def)
  from reserve_cases [OF alloc] res obtain i reg1 where
    take: "take_index (registry s) = Some (i, reg1)" and
    h: "h = (i, slot_generation (slot_at (registry s) i) + 1)" and
    reg: "reg = (set_slot i (\<lambda>slot. slot\<lparr>slot_generation := slot_generation (slot_at (registry s) i) + 1\<rparr>) reg1)\<lparr>live := live (registry s) + 1\<rparr>"
    by (cases rule: reserve_cases [OF alloc]) auto
  note t = take_index_ok [OF alloc take] and f = take_index_frame [OF take]
  have len: "unat i < length (registry_slots reg1)" using alloc_index [OF alloc t(1)] f(2) by simp
  have i_ok: "slot_ok (registry s) (pending s) (issued s) i" using inv t(1) by (simp add: registry_inv_def)
  have free: "slot_owner (slot_at (registry s) i) = None" "(i, g) \<notin> pending s" for g
    using i_ok t(2) inv by (auto simp: slot_ok_def Let_def registry_inv_def)
  have use: "in_use reg j = (in_use (registry s) j \<or> j = i)" for j using t(3) by (simp add: reg)
  have slot: "slot_at reg j = (if j = i then (slot_at (registry s) i)\<lparr>slot_generation := snd h\<rparr> else slot_at (registry s) j)" for j
    using slot_at_set_slot [OF len] f(1) by (simp add: reg h)
  have "slot_ok reg (insert h (pending s)) (issued s @ [h]) j" if "j < registry_capacity (registry s)" for j
  proof (cases "j = i")
    case True
    show ?thesis
      using i_ok t(2) free by (simp add: True slot_ok_def Let_def use slot h issued_for_append)
  next
    case False
    then have "slot_ok reg (insert h (pending s)) (issued s @ [h]) j = slot_ok (registry s) (pending s) (issued s) j"
      by (intro slot_ok_cong) (simp_all add: use slot h issued_for_append)
    then show ?thesis using inv that by (simp add: registry_inv_def)
  qed
  moreover have "alloc_ok reg" "registry_capacity reg = registry_capacity (registry s)"
    using t(4) f(3,4) by (simp_all add: reg alloc_ok_def)
  moreover have "\<forall>(j, g) \<in> insert h (pending s). j < registry_capacity (registry s) \<and> slot_generation (slot_at reg j) = g"
    using inv t(1) free(2) by (auto simp: registry_inv_def slot h)
  moreover have "\<forall>h' \<in> set (issued s @ [h]). fst h' < registry_capacity (registry s)"
    using registry_invD(5) [OF inv] t(1) h by auto
  ultimately show ?thesis unfolding registry_inv_def by simp
qed

lemma registry_inv_commit:
  assumes inv: "registry_inv s" and pend: "runner_handle r \<in> pending s"
    and com: "commit (fst (runner_handle r)) r (registry s) = (res, reg)"
  shows "registry_inv (s\<lparr>registry := reg, pending := pending s - {runner_handle r}\<rparr>)" "res = Inr ()"
proof -
  obtain i g where h: "runner_handle r = (i, g)" by (cases "runner_handle r")
  have i: "i < registry_capacity (registry s)" "slot_generation (slot_at (registry s) i) = g" and
    alloc: "alloc_ok (registry s)" and i_ok: "slot_ok (registry s) (pending s) (issued s) i"
    using registry_invD [OF inv] pend h by simp_all
  note len = alloc_index [OF alloc i(1)]
  have reg: "reg = set_slot i (\<lambda>slot. slot\<lparr>slot_owner := Some r\<rparr>) (registry s)" and "res = Inr ()"
    using com len h by (simp_all add: commit_def)
  then show "res = Inr ()" by simp
  have slot: "slot_at reg j = (if j = i then (slot_at (registry s) i)\<lparr>slot_owner := Some r\<rparr> else slot_at (registry s) j)" for j
    using slot_at_set_slot [OF len] by (simp add: reg)
  have use: "in_use reg = in_use (registry s)" by (simp add: reg)
  have "slot_ok reg (pending s - {(i, g)}) (issued s) j" if "j < registry_capacity (registry s)" for j
  proof (cases "j = i")
    case True
    have "in_use (registry s) i" using slot_okD(4) [OF i_ok] i(2) pend h by simp
    then show ?thesis using slot_okD(1,2) [OF i_ok] h i(2) by (simp add: True slot_ok_def Let_def use slot)
  next
    case False
    then have "slot_ok reg (pending s - {(i, g)}) (issued s) j = slot_ok (registry s) (pending s) (issued s) j"
      by (intro slot_ok_cong) (simp_all add: use slot)
    then show ?thesis using inv that by (simp add: registry_inv_def)
  qed
  moreover have "slot_generation (slot_at reg j) = slot_generation (slot_at (registry s) j)" for j
    by (simp add: slot)
  ultimately show "registry_inv (s\<lparr>registry := reg, pending := pending s - {runner_handle r}\<rparr>)"
    using alloc h registry_invD(3,4,5) [OF inv] by (intro registry_invI) (auto simp: reg)
qed

text \<open>A handle that was handed out is current only while its slot is in use.\<close>

lemma odd_of_nat_word: "of_nat (2 * k + 1) \<noteq> (of_nat (2 * n) :: u32)"
proof
  assume "of_nat (2 * k + 1) = (of_nat (2 * n) :: u32)"
  then have "even (of_nat (2 * k + 1) :: u32) \<longleftrightarrow> even (of_nat (2 * n) :: u32)" by simp
  then show False by simp
qed

lemma issued_odd:
  assumes "slot_ok reg pend hs i" "(i, g) \<in> set hs" "slot_generation (slot_at reg i) = g"
  shows "in_use reg i"
proof (rule ccontr)
  assume "\<not> in_use reg i"
  with assms have "g = of_nat (2 * length (issued_for i hs))" by (simp add: slot_ok_def Let_def)
  moreover have "g \<in> set (issued_for i hs)" using assms(2) by (force simp: issued_for_def)
  then obtain k where "g = of_nat (2 * k + 1)" using slot_okD(1) [OF assms(1)]
    by (metis (no_types, lifting) ex_map_conv in_set_conv_nth nth_map)
  ultimately show False by (metis odd_of_nat_word)
qed

lemma remove_cases:
  assumes inv: "registry_inv s" and handed: "(i, g) \<in> set (issued s)" and settled: "(i, g) \<notin> pending s"
  obtains (poisoned) "alloc_poisoned (registry s)" "remove i g (registry s) = (Inl Lock_Poisoned, registry s)"
    | (stale) "remove i g (registry s) = (Inr None, registry s)" "lookup (registry s) i g = None"
    | (current) r where "i < registry_capacity (registry s)" "slot_generation (slot_at (registry s) i) = g"
        "slot_owner (slot_at (registry s) i) = Some r" "lookup (registry s) i g = Some r"
        "remove i g (registry s) =
           (Inr (Some r), (set_slot i (\<lambda>slot. slot\<lparr>slot_generation := g + 1, slot_owner := None\<rparr>) (registry s))
              \<lparr>free_indices := free_indices (registry s) @ [i], live := live (registry s) - 1\<rparr>)"
proof (cases "alloc_poisoned (registry s)")
  case True
  then show ?thesis using poisoned by (simp add: remove_def)
next
  case False
  show ?thesis
  proof (cases "i < registry_capacity (registry s) \<and> slot_generation (slot_at (registry s) i) = g")
    case True
    then have ok: "slot_ok (registry s) (pending s) (issued s) i" using registry_invD(2) [OF inv] by simp
    then obtain r where "slot_owner (slot_at (registry s) i) = Some r"
      using issued_odd [OF ok handed] slot_okD(4) [OF ok] True settled by auto
    then show ?thesis
      using True False by (intro current [of r]) (auto simp: remove_def lookup_def slot_at_def Let_def)
  qed (use False in \<open>intro stale; auto simp: remove_def lookup_def slot_at_def Let_def\<close>)
qed

lemma alloc_ok_release:
  assumes "alloc_ok reg" "in_use reg i"
  shows "alloc_ok (reg\<lparr>free_indices := free_indices reg @ [i], live := live reg - 1\<rparr>)"
proof -
  have "length (free_indices reg) = card (set (free_indices reg))"
    using assms(1) by (simp add: alloc_ok_def distinct_card)
  also have "\<dots> = card (unat ` set (free_indices reg))" by (simp add: card_image inj_on_def word_unat_eq_iff)
  also have "\<dots> \<le> card ({..<unat (next_unused reg)} - {unat i})"
    using assms
    by (intro card_mono) (auto simp: alloc_ok_def in_use_def word_less_nat_alt dest: word_unat_eq_iff [THEN iffD2])
  also have "\<dots> = unat (next_unused reg) - 1"
    using assms(2) by (simp add: in_use_def word_less_nat_alt)
  finally have "length (free_indices reg) < unat (next_unused reg)"
    using assms(2) unfolding in_use_def word_less_nat_alt by linarith
  then have "unat (live reg) > 0" using assms(1) by (simp add: alloc_ok_def)
  then have "unat (live reg - 1) + 1 = unat (live reg)"
    using unat_minus_one [of "live reg"] by (metis Suc_eq_plus1 Suc_diff_1 unat_0 less_irrefl)
  then show ?thesis using assms unfolding alloc_ok_def in_use_def by simp
qed

lemma registry_inv_remove:
  assumes inv: "registry_inv s" and h: "(i, g) \<in> set (issued s)" "(i, g) \<notin> pending s"
    and rem: "remove i g (registry s) = (res, reg)"
  shows "registry_inv (s\<lparr>registry := reg\<rparr>)"
  using inv h
proof (cases rule: remove_cases)
  case (current r)
  let ?old = "registry s"
  have reg: "reg = (set_slot i (\<lambda>slot. slot\<lparr>slot_generation := g + 1, slot_owner := None\<rparr>) ?old)
      \<lparr>free_indices := free_indices ?old @ [i], live := live ?old - 1\<rparr>"
    using rem current(5) by simp
  have alloc: "alloc_ok ?old" and i_ok: "slot_ok ?old (pending s) (issued s) i"
    using registry_invD(1,2) [OF inv] current(1) by simp_all
  have i_use: "in_use ?old i" using slot_okD(4) [OF i_ok] current(3) by simp
  have use: "in_use reg j = (in_use ?old j \<and> j \<noteq> i)" for j by (auto simp: reg in_use_def)
  have slot: "slot_at reg j = (if j = i then \<lparr>slot_generation = g + 1, slot_owner = None\<rparr> else slot_at ?old j)" for j
    using slot_at_set_slot [OF alloc_index [OF alloc current(1)]] by (simp add: reg)
  have none: "(i, g') \<notin> pending s" for g'
    using registry_invD(4) [OF inv] current(2) h(2) by metis
  have "slot_ok reg (pending s) (issued s) j" if "j < registry_capacity ?old" for j
  proof (cases "j = i")
    case True
    show ?thesis using slot_okD(1,2) [OF i_ok] i_use current(2) none by (simp add: True slot_ok_def Let_def use slot)
  next
    case False
    then have "slot_ok reg (pending s) (issued s) j = slot_ok ?old (pending s) (issued s) j"
      by (intro slot_ok_cong) (simp_all add: use slot)
    then show ?thesis using inv that by (simp add: registry_inv_def)
  qed
  moreover have "j < registry_capacity ?old \<and> slot_generation (slot_at reg j) = g'" if "(j, g') \<in> pending s" for j g'
    using registry_invD(3,4) [OF inv that] none that by (auto simp: slot)
  moreover have "alloc_ok reg" "registry_capacity reg = registry_capacity ?old"
    using alloc_ok_release [OF alloc i_use] by (simp_all add: reg alloc_ok_def)
  ultimately show ?thesis using registry_invD(5) [OF inv] by (intro registry_invI) simp_all
qed (use inv rem in simp_all)

lemma registry_inv_step:
  assumes "registry_inv s" "registry_step s s'"
  shows "registry_inv s'"
  using assms(2)
proof cases
  case (reserve_panic p reg)
  have alloc: "alloc_ok (registry s)" using assms(1) by (simp add: registry_inv_def)
  have "reg = registry s \<or> reg = registry s\<lparr>alloc_poisoned := True\<rparr>"
    using reserve_panic(2) by (cases rule: reserve_cases [OF alloc]) auto
  then show ?thesis using assms(1) reserve_panic(1) by auto
qed (use assms(1) registry_inv_reserve registry_inv_commit(1) registry_inv_remove in auto)

lemma registry_capacity_value:
  "unat (registry_capacity (registry_with_capacity capacity)) = min (max (unat capacity) 1) 4294967294"
proof -
  have m: "unat (min (max capacity 1) 0xFFFFFFFE) = min (max (unat capacity) 1) 4294967294"
    by (simp add: min_def max_def word_le_nat_alt)
  have "unat (ucast (min (max capacity 1) 0xFFFFFFFE) :: u32) = unat (min (max capacity 1) 0xFFFFFFFE) mod 4294967296"
    by (simp add: unsigned_ucast_eq take_bit_eq_mod)
  then show ?thesis using m by (simp add: registry_with_capacity_def Let_def)
qed

lemma registry_inv_init: "fresh_registry s \<Longrightarrow> registry_inv s"
  using registry_capacity_value
  by (auto simp: fresh_registry_def intro!: registry_invI)
     (simp_all add: registry_with_capacity_def Let_def alloc_ok_def slot_ok_def issued_for_def slot_at_def in_use_def
       word_le_nat_alt word_less_nat_alt)

interpretation registry: invariant_system fresh_registry registry_step registry_inv
  by unfold_locales (auto intro: registry_inv_init registry_inv_step)

section \<open>Properties\<close>

lemma lookup_slot_at:
  "lookup reg i g = (if i < registry_capacity reg \<and> slot_generation (slot_at reg i) = g
     then slot_owner (slot_at reg i) else None)"
  by (auto simp: lookup_def slot_at_def Let_def not_le)

lemma unused_lookup:
  assumes "registry_inv s" "i < registry_capacity (registry s)" "\<not> in_use (registry s) i"
  shows "slot_owner (slot_at (registry s) i) = None" "(i, g) \<notin> pending s"
  using slot_okD(4) [OF registry_invD(2) [OF assms(1,2)]] assms(3) registry_invD(4) [OF assms(1)] by auto

lemma lookup_reserve:
  assumes inv: "registry_inv s" and res: "reserve (registry s) = (Inr h, reg)"
  shows "lookup reg = lookup (registry s)" "h \<notin> pending s" "lookup (registry s) (fst h) (snd h) = None"
proof -
  note alloc = registry_invD(1) [OF inv]
  obtain i reg1 where
    take: "take_index (registry s) = Some (i, reg1)" and
    h: "h = (i, slot_generation (slot_at (registry s) i) + 1)" and
    reg: "reg = (set_slot i (\<lambda>slot. slot\<lparr>slot_generation := slot_generation (slot_at (registry s) i) + 1\<rparr>) reg1)\<lparr>live := live (registry s) + 1\<rparr>"
    using res by (cases rule: reserve_cases [OF alloc]) auto
  note t = take_index_ok [OF alloc take] and f = take_index_frame [OF take]
  note free = unused_lookup [OF inv t(1,2)]
  have "unat i < length (registry_slots reg1)" using alloc_index [OF alloc t(1)] f(2) by simp
  from slot_at_set_slot [OF this] f(1) have slot:
    "slot_at reg j = (if j = i then (slot_at (registry s) i)\<lparr>slot_generation := snd h\<rparr> else slot_at (registry s) j)" for j
    by (simp add: reg h)
  have "registry_capacity reg = registry_capacity (registry s)" using f(3) by (simp add: reg)
  then show "lookup reg = lookup (registry s)"
    using free(1) by (auto simp: fun_eq_iff lookup_slot_at slot)
  show "h \<notin> pending s" "lookup (registry s) (fst h) (snd h) = None"
    using free by (simp_all add: h lookup_slot_at)
qed

lemma lookup_commit:
  assumes inv: "registry_inv s" and pend: "runner_handle r \<in> pending s"
    and com: "commit (fst (runner_handle r)) r (registry s) = (res, reg)"
  shows "lookup reg i g = (if (i, g) = runner_handle r then Some r else lookup (registry s) i g)"
proof -
  obtain j k where h: "runner_handle r = (j, k)" by (cases "runner_handle r")
  have j: "j < registry_capacity (registry s)" "slot_generation (slot_at (registry s) j) = k"
    using registry_invD(3,4) [OF inv] pend h by simp_all
  note len = alloc_index [OF registry_invD(1) [OF inv] j(1)]
  have reg: "reg = set_slot j (\<lambda>slot. slot\<lparr>slot_owner := Some r\<rparr>) (registry s)"
    using com len h by (simp add: commit_def)
  then show ?thesis
    using slot_at_set_slot [OF len] j h by (auto simp: lookup_slot_at)
qed

lemma lookup_remove:
  assumes inv: "registry_inv s" and h: "(i, g) \<in> set (issued s)" "(i, g) \<notin> pending s"
    and rem: "remove i g (registry s) = (Inr x, reg)"
  shows "x = lookup (registry s) i g \<and>
    lookup reg j k = (if (j, k) = (i, g) then None else lookup (registry s) j k)"
  using inv h
proof (cases rule: remove_cases)
  case (current r)
  have reg: "x = Some r" "reg = (set_slot i (\<lambda>slot. slot\<lparr>slot_generation := g + 1, slot_owner := None\<rparr>) (registry s))
      \<lparr>free_indices := free_indices (registry s) @ [i], live := live (registry s) - 1\<rparr>"
    using rem current(5) by simp_all
  show ?thesis
    using slot_at_set_slot [OF alloc_index [OF registry_invD(1) [OF inv] current(1)]] current(2,4) reg(1)
    by (auto simp: lookup_slot_at reg(2))
qed (use rem in auto)

text \<open>
  C10: the registry behaves as a table from handles to runners. Reserving changes no entry and returns a
  handle that is neither pending nor in the table; committing a pending handle never fails and adds
  exactly its entry; removing a handle that was handed out returns its entry, if any, and deletes
  exactly it. So a handle of a removed actor never reaches the slot's next tenant.
\<close>

theorem registry_is_handle_table:
  assumes "registry_reach s"
  shows "(reserve (registry s) = (Inr h, reg) \<longrightarrow>
        lookup reg = lookup (registry s) \<and> h \<notin> pending s \<and> lookup (registry s) (fst h) (snd h) = None) \<and>
     (runner_handle r \<in> pending s \<and> commit (fst (runner_handle r)) r (registry s) = (res, reg) \<longrightarrow>
        res = Inr () \<and> lookup reg i g = (if (i, g) = runner_handle r then Some r else lookup (registry s) i g)) \<and>
     ((j, k) \<in> set (issued s) - pending s \<and> remove j k (registry s) = (Inr x, reg) \<longrightarrow>
        x = lookup (registry s) j k \<and> lookup reg i g = (if (i, g) = (j, k) then None else lookup (registry s) i g))"
proof -
  note inv = registry.reach_inv [OF assms]
  show ?thesis
    using lookup_reserve [OF inv] lookup_commit [OF inv] registry_inv_commit(2) [OF inv] lookup_remove [OF inv]
    by blast
qed

lemma distinct_by_index: "(\<And>i. distinct (issued_for i hs)) \<Longrightarrow> distinct hs"
proof (induction hs)
  case (Cons h hs)
  have "distinct (issued_for i hs)" for i
    using Cons.prems [of i] by (auto simp: issued_for_def split: if_splits)
  moreover have "h \<notin> set hs"
    using Cons.prems [of "fst h"] by (force simp: issued_for_def)
  ultimately show ?case using Cons.IH by simp
qed simp

lemma odd_generations_distinct:
  assumes "n \<le> 2147483648"
  shows "distinct (map (\<lambda>k. of_nat (2 * k + 1) :: u32) [0..<n])"
proof -
  have "k = k'" if "of_nat (2 * k + 1) = (of_nat (2 * k' + 1) :: u32)" "k < n" "k' < n" for k k' :: nat
  proof -
    have "2 * k + 1 < 2 ^ LENGTH(32)" "2 * k' + 1 < 2 ^ LENGTH(32)" using that assms by simp_all
    then have "2 * k + 1 = 2 * k' + 1" using that(1) by (metis of_nat_inverse)
    then show ?thesis by simp
  qed
  then show ?thesis by (simp only: distinct_map) (auto simp: inj_on_def)
qed

text \<open>
  Handles are never handed out twice within 2147483648 reservations: a slot hands out the odd
  generations in turn, and only the wrap-around of the 32-bit generation repeats one.
\<close>

theorem handles_are_distinct:
  assumes "registry_reach s" "length (issued s) \<le> 2147483648"
  shows "distinct (issued s)"
proof (rule distinct_by_index)
  fix i
  note inv = registry.reach_inv [OF assms(1)]
  show "distinct (issued_for i (issued s))"
  proof (cases "i < registry_capacity (registry s)")
    case True
    have "length (issued_for i (issued s)) \<le> 2147483648"
      unfolding issued_for_def length_map by (rule order_trans [OF length_filter_le assms(2)])
    then show ?thesis
      using slot_okD(1) [OF registry_invD(2) [OF inv True]] odd_generations_distinct by metis
  next
    case False
    then have "filter (\<lambda>h. fst h = i) (issued s) = []"
      using registry_invD(5) [OF inv] unfolding filter_empty_conv by blast
    then show ?thesis by (simp add: issued_for_def)
  qed
qed

lemma snapshot_filter:
  "concat (map (\<lambda>i. case f i of None \<Rightarrow> [] | Some r \<Rightarrow> [r]) xs) = map (\<lambda>i. the (f i)) (filter (\<lambda>i. f i \<noteq> None) xs)"
  by (induction xs) (auto split: option.splits)

text \<open>The slots in use, as positions: those with a runner and those being spawned.\<close>

definition used_positions :: "registry \<Rightarrow> nat set" where
  "used_positions reg = {k. k < unat (next_unused reg) \<and> in_use reg (of_nat k)}"

lemma position_word:
  assumes "k < unat (w :: u32)"
  shows "unat (of_nat k :: u32) = k" "(of_nat k :: u32) < w"
proof -
  have "k < 2 ^ LENGTH(32)" using assms word_nat_bound [of w] by simp
  then show "unat (of_nat k :: u32) = k" by (rule of_nat_inverse [OF refl])
  then show "(of_nat k :: u32) < w" using assms by (simp add: word_less_nat_alt)
qed

lemma card_used_positions:
  assumes "alloc_ok reg"
  shows "card (used_positions reg) = unat (live reg)"
proof -
  have "of_nat k \<in> set (free_indices reg) \<longleftrightarrow> k \<in> unat ` set (free_indices reg)" if "k < unat (next_unused reg)" for k
    using position_word(1) [OF that] by (metis image_iff word_unat_eq_iff)
  then have "used_positions reg = {..<unat (next_unused reg)} - unat ` set (free_indices reg)"
    using position_word(2) by (auto simp: used_positions_def in_use_def)
  moreover have "unat ` set (free_indices reg) \<subseteq> {..<unat (next_unused reg)}"
    using assms by (auto simp: alloc_ok_def word_less_nat_alt)
  moreover have "card (unat ` set (free_indices reg)) = length (free_indices reg)"
    using assms by (simp add: card_image inj_on_def word_unat_eq_iff alloc_ok_def distinct_card)
  ultimately show ?thesis using assms by (simp add: card_Diff_subset alloc_ok_def) linarith
qed

lemma used_split:
  assumes inv: "registry_inv s"
  defines "owned \<equiv> {k. k < unat (next_unused (registry s)) \<and> slot_owner (registry_slots (registry s) ! k) \<noteq> None}"
  shows "used_positions (registry s) = owned \<union> (unat \<circ> fst) ` pending s" "owned \<inter> (unat \<circ> fst) ` pending s = {}"
    "card ((unat \<circ> fst) ` pending s) = card (pending s)"
proof -
  note cap = registry_invD(1) [OF inv, unfolded alloc_ok_def]
  have ok: "slot_ok (registry s) (pending s) (issued s) (of_nat k)" if "k < unat (next_unused (registry s))" for k
    using position_word(2) [OF that] cap by (intro registry_invD(2) [OF inv]) (auto intro: order_less_le_trans)
  have slot: "slot_at (registry s) (of_nat k) = registry_slots (registry s) ! k" if "k < unat (next_unused (registry s))" for k
    using position_word(1) [OF that] by (simp add: slot_at_def)
  have pend: "in_use (registry s) i \<and> (i, slot_generation (slot_at (registry s) i)) \<in> pending s \<and> slot_owner (slot_at (registry s) i) = None"
    if "(i, g) \<in> pending s" for i g
    using slot_okD(4,5) [OF registry_invD(2) [OF inv registry_invD(3) [OF inv that]]] registry_invD(4) [OF inv that] that
    by (cases "slot_owner (slot_at (registry s) i)") auto
  show "used_positions (registry s) = owned \<union> (unat \<circ> fst) ` pending s"
  proof (intro equalityI subsetI)
    fix k assume k: "k \<in> used_positions (registry s)"
    then have lt: "k < unat (next_unused (registry s))" and use: "in_use (registry s) (of_nat k)"
      by (simp_all add: used_positions_def)
    then show "k \<in> owned \<union> (unat \<circ> fst) ` pending s"
      using slot_okD(4) [OF ok [OF lt]] slot [OF lt] position_word(1) [OF lt] by (force simp: owned_def)
  next
    fix k assume "k \<in> owned \<union> (unat \<circ> fst) ` pending s"
    then consider "k \<in> owned" | i g where "(i, g) \<in> pending s" "k = unat i" by auto
    then show "k \<in> used_positions (registry s)"
    proof cases
      case 1
      then have lt: "k < unat (next_unused (registry s))" by (simp add: owned_def)
      then show ?thesis using 1 slot_okD(4) [OF ok [OF lt]] slot [OF lt] by (simp add: owned_def used_positions_def)
    next
      case 2
      then show ?thesis using pend [OF 2(1)] by (simp add: used_positions_def in_use_def word_less_nat_alt)
    qed
  qed
  show "owned \<inter> (unat \<circ> fst) ` pending s = {}"
    using pend by (auto simp: owned_def slot_at_def)
  show "card ((unat \<circ> fst) ` pending s) = card (pending s)"
    using registry_invD(4) [OF inv]
    by (intro card_image inj_onI) (auto dest!: word_unat_eq_iff [THEN iffD2], metis)
qed

abbreviation owner_at :: "registry \<Rightarrow> nat \<Rightarrow> actor_runner option" where
  "owner_at reg k \<equiv> slot_owner (registry_slots reg ! k)"

abbreviation owned_positions :: "registry \<Rightarrow> nat list" where
  "owned_positions reg \<equiv> filter (\<lambda>k. owner_at reg k \<noteq> None) [0..<unat (next_unused reg)]"

lemma owner_lookup:
  assumes inv: "registry_inv s" and k: "k < unat (next_unused (registry s))" "owner_at (registry s) k = Some r"
  shows "lookup (registry s) (fst (runner_handle r)) (snd (runner_handle r)) = Some r" "fst (runner_handle r) = of_nat k"
proof -
  have lt: "of_nat k < registry_capacity (registry s)"
    using position_word(2) [OF k(1)] registry_invD(1) [OF inv] by (auto simp: alloc_ok_def intro: order_less_le_trans)
  have "slot_at (registry s) (of_nat k) = registry_slots (registry s) ! k"
    using position_word(1) [OF k(1)] by (simp add: slot_at_def)
  then show "lookup (registry s) (fst (runner_handle r)) (snd (runner_handle r)) = Some r" "fst (runner_handle r) = of_nat k"
    using slot_okD(3) [OF registry_invD(2) [OF inv lt], of r] k(2) lt by (simp_all add: lookup_slot_at)
qed

lemma lookup_owner:
  assumes inv: "registry_inv s" and l: "lookup (registry s) i g = Some r"
  shows "\<exists>k < unat (next_unused (registry s)). owner_at (registry s) k = Some r"
proof -
  have i: "i < registry_capacity (registry s)" "slot_owner (slot_at (registry s) i) = Some r"
    using l by (auto simp: lookup_slot_at split: if_splits)
  then have "in_use (registry s) i" using slot_okD(4) [OF registry_invD(2) [OF inv i(1)]] by simp
  then show ?thesis using i(2) by (auto simp: in_use_def word_less_nat_alt slot_at_def)
qed

lemma live_counts:
  assumes inv: "registry_inv s"
  shows "card (pending s) + length (owned_positions (registry s)) = unat (live (registry s))"
proof -
  let ?owned = "{k. k < unat (next_unused (registry s)) \<and> owner_at (registry s) k \<noteq> None}"
  have len: "length (owned_positions (registry s)) = card ?owned"
    by (subst distinct_card [symmetric]) (auto intro: arg_cong [where f = card])
  have fin: "finite (used_positions (registry s))" by (simp add: used_positions_def)
  then have "card (used_positions (registry s)) = card ?owned + card (pending s)"
    unfolding used_split(1) [OF inv] using used_split(2,3) [OF inv] by (simp add: card_Un_disjoint)
  then show ?thesis
    using card_used_positions [OF registry_invD(1) [OF inv]] len by simp
qed

lemma owned_distinct:
  assumes inv: "registry_inv s"
  shows "distinct (map (\<lambda>k. the (owner_at (registry s) k)) (owned_positions (registry s)))"
proof -
  have "k = k'" if "k < unat (next_unused (registry s))" "owner_at (registry s) k = Some r"
      "k' < unat (next_unused (registry s))" "owner_at (registry s) k' = Some r" for k k' r
    using owner_lookup(2) [OF inv that(1,2)] owner_lookup(2) [OF inv that(3,4)] position_word(1) that(1,3) by metis
  then show ?thesis by (auto simp: distinct_map inj_on_def)
qed

lemma snapshot_exact:
  assumes "registry_inv s" "\<not> alloc_poisoned (registry s)"
  shows "\<exists>rs. snapshot_live (registry s) = Inr rs \<and> distinct rs \<and>
     live_count (registry s) = Inr (of_nat (card (pending s) + length rs)) \<and>
     (\<forall>r. r \<in> set rs \<longleftrightarrow> lookup (registry s) (fst (runner_handle r)) (snd (runner_handle r)) = Some r)"
proof -
  note inv = assms(1)
  let ?rs = "map (\<lambda>k. the (owner_at (registry s) k)) (owned_positions (registry s))"
  have "snapshot_live (registry s) = Inr ?rs"
    using assms(2) by (simp add: snapshot_live_def snapshot_filter)
  moreover have "live_count (registry s) = Inr (of_nat (card (pending s) + length ?rs))"
    using assms(2) live_counts [OF inv] by (simp add: live_count_def)
  moreover have "r \<in> set ?rs \<longleftrightarrow> lookup (registry s) (fst (runner_handle r)) (snd (runner_handle r)) = Some r" for r
    using owner_lookup(1) [OF inv] lookup_owner [OF inv] by (force simp: image_iff)
  ultimately show ?thesis using owned_distinct [OF inv] by blast
qed

text \<open>
  C34: while the registry is not poisoned, \<open>live_count\<close> is the number of spawns in progress plus the
  number of registered actors, and \<open>snapshot_live\<close> lists exactly the registered actors, each once.
\<close>

theorem live_count_is_exact:
  assumes "registry_reach s" "\<not> alloc_poisoned (registry s)"
  shows "\<exists>rs. snapshot_live (registry s) = Inr rs \<and> distinct rs \<and>
     live_count (registry s) = Inr (of_nat (card (pending s) + length rs)) \<and>
     (\<forall>r. r \<in> set rs \<longleftrightarrow> lookup (registry s) (fst (runner_handle r)) (snd (runner_handle r)) = Some r)"
  using registry.reach_inv [OF assms(1)] assms(2) by (rule snapshot_exact)

lemma poisoned_step: "registry_step s s' \<Longrightarrow> alloc_poisoned (registry s) \<Longrightarrow> alloc_poisoned (registry s')"
  by (erule registry_step.cases) (auto simp: reserve_def commit_def remove_def split: if_splits)

lemma poisoned_star: "registry_step\<^sup>*\<^sup>* s s' \<Longrightarrow> alloc_poisoned (registry s) \<Longrightarrow> alloc_poisoned (registry s')"
  by (induction rule: rtranclp.induct) (auto intro: poisoned_step)

text \<open>
  C35: running out of slots disables the registry for good. \<open>reserve\<close> panics with the capacity message
  only when as many actors are live or being spawned as the registry has slots; the panic is raised
  with the allocation mutex held, and from then on every \<open>reserve\<close>, \<open>remove\<close>, \<open>snapshot_live\<close> and
  \<open>live_count\<close> panics, so no actor can be removed and \<open>dispose\<close> cannot finish.
\<close>

theorem capacity_panic_disables_registry:
  assumes "registry_reach s" "reserve (registry s) = (Inl p, reg)" "registry_step\<^sup>*\<^sup>* (s\<lparr>registry := reg\<rparr>) s'"
  shows "(p = Registry_Capacity_Exceeded (registry_capacity (registry s)) \<longrightarrow>
       unat (live (registry s)) = unat (registry_capacity (registry s))) \<and>
     (fst (reserve (registry s')) = Inl Lock_Poisoned \<and> fst (remove i g (registry s')) = Inl Lock_Poisoned \<and>
      snapshot_live (registry s') = Inl Lock_Poisoned \<and> live_count (registry s') = Inl Lock_Poisoned)"
proof -
  note alloc = registry_invD(1) [OF registry.reach_inv [OF assms(1)]]
  have "alloc_poisoned reg"
    using assms(2) by (cases rule: reserve_cases [OF alloc]) auto
  moreover have full: "p = Registry_Capacity_Exceeded (registry_capacity (registry s)) \<longrightarrow>
       unat (live (registry s)) = unat (registry_capacity (registry s))"
    using assms(2) alloc by (cases rule: reserve_cases [OF alloc]) (auto simp: alloc_ok_def)
  ultimately have "alloc_poisoned (registry s')"
    using poisoned_star [OF assms(3)] by simp
  then show ?thesis
    using full by (simp add: reserve_def remove_def snapshot_live_def live_count_def)
qed

lemma pending_lookup:
  assumes "registry_inv s" "h \<in> pending s"
  shows "lookup (registry s) (fst h) (snd h) = None"
proof -
  obtain i g where h: "h = (i, g)" by (cases h)
  note i = registry_invD(3,4) [OF assms(1) assms(2) [unfolded h]]
  show ?thesis
    using slot_okD(5) [OF registry_invD(2) [OF assms(1) i(1)]] assms(2) i by (cases "slot_owner (slot_at (registry s) i)") (auto simp: lookup_slot_at h)
qed

lemma lookup_handle:
  assumes "registry_inv s" "lookup (registry s) i g = Some r"
  shows "runner_handle r = (i, g)"
  using assms(2) slot_okD(3) [OF registry_invD(2) [OF assms(1)], of i r] by (auto simp: lookup_slot_at split: if_splits)

lemma actor_ref_eqI:
  "ref_index x = ref_index y \<Longrightarrow> ref_generation x = ref_generation y \<Longrightarrow> ref_alias x = ref_alias y \<Longrightarrow> x = (y::actor_ref)"
  by (rule actor_ref.equality) simp_all

text \<open>Concrete use: a registry of two slots.\<close>

definition use_reserve :: "registry_use \<Rightarrow> registry_use" where
  "use_reserve s = (case reserve (registry s) of
      (Inr h, reg) \<Rightarrow> s\<lparr>registry := reg, pending := insert h (pending s), issued := issued s @ [h]\<rparr>
    | (Inl p, reg) \<Rightarrow> s\<lparr>registry := reg\<rparr>)"

definition use_commit :: "actor_runner \<Rightarrow> registry_use \<Rightarrow> registry_use" where
  "use_commit r s = s\<lparr>registry := snd (commit (fst (runner_handle r)) r (registry s)),
     pending := pending s - {runner_handle r}\<rparr>"

definition use_remove :: "handle \<Rightarrow> registry_use \<Rightarrow> registry_use" where
  "use_remove h s = s\<lparr>registry := snd (remove (fst h) (snd h) (registry s))\<rparr>"

lemma use_reach:
  "registry_reach s \<Longrightarrow> registry_reach (use_reserve s)"
  "registry_reach s \<Longrightarrow> runner_handle r \<in> pending s \<Longrightarrow> registry_reach (use_commit r s)"
  "registry_reach s \<Longrightarrow> h \<in> set (issued s) - pending s \<Longrightarrow> registry_reach (use_remove h s)"
proof -
  show "registry_reach s \<Longrightarrow> registry_reach (use_reserve s)"
    by (erule reach_step)
       (auto simp: use_reserve_def split: prod.splits sum.splits intro: registry_step.reserve registry_step.reserve_panic)
  show "registry_reach s \<Longrightarrow> runner_handle r \<in> pending s \<Longrightarrow> registry_reach (use_commit r s)"
    by (erule reach_step) (auto simp: use_commit_def intro!: registry_step.commit [where res = "fst (commit (fst (runner_handle r)) r (registry s))"])
  show "registry_reach s \<Longrightarrow> h \<in> set (issued s) - pending s \<Longrightarrow> registry_reach (use_remove h s)"
    by (erule reach_step, cases h) (auto simp: use_remove_def
        intro!: registry_step.remove [where res = "fst (remove (fst h) (snd h) (registry s))"])
qed

definition demo_runner :: "u32 \<Rightarrow> u32 \<Rightarrow> actor_runner" where
  "demo_runner i g = \<lparr>runner_ref = \<lparr>ref_index = i, ref_generation = g, ref_alias = None\<rparr>,
     runner_dispatcher = 0, runner_mailbox_capacity = 1024\<rparr>"

definition two_slots_use :: registry_use where
  "two_slots_use = \<lparr>registry = registry_with_capacity 2, pending = {}, issued = []\<rparr>"

text \<open>Slot 0 has had one tenant and its second one is being spawned.\<close>

definition reused_use :: registry_use where
  "reused_use = use_reserve (use_remove (0, 1) (use_commit (demo_runner 0 1) (use_reserve two_slots_use)))"

definition committed_use :: registry_use where
  "committed_use = use_commit (demo_runner 0 1) (use_reserve two_slots_use)"

lemma two_slots_registry:
  "registry_with_capacity 2 = \<lparr>registry_slots = [\<lparr>slot_generation = 0, slot_owner = None\<rparr>,
     \<lparr>slot_generation = 0, slot_owner = None\<rparr>], registry_capacity = 2, free_indices = [], next_unused = 0, live = 0,
     alloc_poisoned = False\<rparr>"
proof -
  have "min (max (2::usize) 1) 0xFFFFFFFE = 2" by (simp add: min_def max_def word_le_nat_alt)
  moreover have "replicate 2 x = [x, x]" for x :: registry_slot by (simp add: numeral_2_eq_2)
  ultimately show ?thesis by (simp add: registry_with_capacity_def Let_def)
qed

lemmas use_simps = use_reserve_def use_commit_def use_remove_def two_slots_use_def demo_runner_def runner_handle_def
  two_slots_registry reserve_def take_index_def set_slot_def commit_def remove_def Let_def

lemma committed_use_eq:
  "committed_use = \<lparr>registry = \<lparr>registry_slots = [\<lparr>slot_generation = 1, slot_owner = Some (demo_runner 0 1)\<rparr>,
       \<lparr>slot_generation = 0, slot_owner = None\<rparr>], registry_capacity = 2, free_indices = [], next_unused = 1, live = 1,
       alloc_poisoned = False\<rparr>, pending = {}, issued = [(0, 1)]\<rparr>"
  by (simp add: committed_use_def use_simps)

lemma reused_use_eq:
  "reused_use = \<lparr>registry = \<lparr>registry_slots = [\<lparr>slot_generation = 3, slot_owner = None\<rparr>,
       \<lparr>slot_generation = 0, slot_owner = None\<rparr>], registry_capacity = 2, free_indices = [], next_unused = 1, live = 1,
       alloc_poisoned = False\<rparr>, pending = {(0, 3)}, issued = [(0, 1), (0, 3)]\<rparr>"
  unfolding reused_use_def committed_use_def [symmetric] committed_use_eq
  by (simp add: use_simps)

lemma demo_use_reach: "registry_reach two_slots_use" "registry_reach committed_use" "registry_reach reused_use"
proof -
  show two: "registry_reach two_slots_use" by (rule reach_init) (auto simp: fresh_registry_def two_slots_use_def)
  then show com: "registry_reach committed_use"
    unfolding committed_use_def by (intro use_reach) (simp_all add: use_simps)
  then show "registry_reach reused_use"
    unfolding reused_use_def committed_use_def [symmetric] by (intro use_reach) (simp_all add: committed_use_eq)
qed

theorem registry_is_handle_table_witness:
  "lookup (registry committed_use) 0 1 = Some (demo_runner 0 1) \<and>
   lookup (snd (remove 0 1 (registry committed_use))) 0 1 = None"
proof -
  have "remove 0 1 (registry committed_use) = (Inr (Some (demo_runner 0 1)), snd (remove 0 1 (registry committed_use)))"
    by (simp add: committed_use_eq remove_def Let_def)
  moreover have "(0, 1) \<in> set (issued committed_use) - pending committed_use" by (simp add: committed_use_eq)
  ultimately show ?thesis
    using registry_is_handle_table [OF demo_use_reach(2), where j = 0 and k = 1 and i = 0 and g = 1] by metis
qed

theorem handles_are_distinct_witness: "issued reused_use = [(0, 1), (0, 3)] \<and> distinct (issued reused_use)"
  using handles_are_distinct [OF demo_use_reach(3)] by (simp add: reused_use_eq)

theorem live_count_is_exact_witness:
  "live_count (registry reused_use) = Inr 1 \<and> (\<exists>rs. snapshot_live (registry reused_use) = Inr rs \<and>
     live_count (registry reused_use) = Inr (of_nat (card (pending reused_use) + length rs)))"
proof -
  have "\<not> alloc_poisoned (registry reused_use)" by (simp add: reused_use_eq)
  from live_count_is_exact [OF demo_use_reach(3) this] show ?thesis
    by (auto simp: live_count_def reused_use_eq)
qed

definition full_use :: registry_use where
  "full_use = use_reserve (use_reserve two_slots_use)"

theorem capacity_panic_disables_registry_witness:
  "fst (reserve (registry full_use)) = Inl (Registry_Capacity_Exceeded 2) \<and>
   live_count (registry (use_reserve full_use)) = Inl Lock_Poisoned"
proof -
  have full: "reserve (registry full_use) =
     (Inl (Registry_Capacity_Exceeded 2), (registry full_use)\<lparr>alloc_poisoned := True\<rparr>)"
    by (simp add: full_use_def use_simps word_le_nat_alt)
  have reach: "registry_reach full_use"
    unfolding full_use_def by (intro use_reach demo_use_reach)
  have "live_count ((registry full_use)\<lparr>alloc_poisoned := True\<rparr>) = Inl Lock_Poisoned"
    using capacity_panic_disables_registry [OF reach full rtranclp.rtrancl_refl] by simp
  then show ?thesis using full by (simp add: use_reserve_def)
qed

end
