(* ===== verification/Actor_Context.thy ===== *)
theory Actor_Context
  imports Registry
begin

text \<open>
  The context of an actor (\<^verbatim>\<open>actor_base.rs\<close>), its mail (\<^verbatim>\<open>messages/actor_mail.rs\<close>) and the future that
  brings an actor back to its dispatcher (\<^verbatim>\<open>actor_await.rs\<close>). A \<open>OnceLock\<close> is an option that is set at
  most once. A dispatcher is named by its id, which is its position in the system; the thread-local
  \<open>current_actor_dispatcher\<close> is the parameter \<open>current\<close>.
\<close>

section \<open>Mail\<close>

text \<open>The sender is a reference of any kind, of type \<open>'r\<close>.\<close>

record ('m, 'r) actor_mail =
  mail_message :: 'm
  mail_sender :: "'r option"

definition new_mail :: "'m \<Rightarrow> 'r option \<Rightarrow> ('m, 'r) actor_mail" where
  "new_mail message sender = \<lparr>mail_message = message, mail_sender = sender\<rparr>"

definition into_parts :: "('m, 'r) actor_mail \<Rightarrow> 'm \<times> 'r option" where
  "into_parts mail = (mail_message mail, mail_sender mail)"

section \<open>Context\<close>

record actor_context =
  ctx_dispatcher :: "nat option"
  ctx_self_ref :: "actor_ref option"

definition new_context :: actor_context where
  "new_context = \<lparr>ctx_dispatcher = None, ctx_self_ref = None\<rparr>"

definition initialize :: "nat \<Rightarrow> actor_ref \<Rightarrow> actor_context \<Rightarrow> unit result \<times> actor_context" where
  "initialize actor_dispatcher actor_ref ctx =
     (if ctx_dispatcher ctx \<noteq> None then (Inl Context_Already_Initialized, ctx)
      else let ctx' = ctx\<lparr>ctx_dispatcher := Some actor_dispatcher\<rparr> in
        if ctx_self_ref ctx' \<noteq> None then (Inl Context_Already_Initialized, ctx')
        else (Inr (), ctx'\<lparr>ctx_self_ref := Some actor_ref\<rparr>))"

definition context_dispatcher :: "actor_context \<Rightarrow> nat result" where
  "context_dispatcher ctx = (case ctx_dispatcher ctx of None \<Rightarrow> Inl Context_Not_Initialized | Some d \<Rightarrow> Inr d)"

definition self_ref_trait :: "actor_context \<Rightarrow> actor_ref result" where
  "self_ref_trait ctx = (case ctx_self_ref ctx of None \<Rightarrow> Inl Context_Not_Initialized | Some r \<Rightarrow> Inr r)"

text \<open>The mail that \<open>ActorContext::post\<close> hands to the target.\<close>

definition context_post :: "'m \<Rightarrow> actor_context \<Rightarrow> ('m, actor_ref) actor_mail result" where
  "context_post message ctx =
     (case self_ref_trait ctx of Inl p \<Rightarrow> Inl p | Inr self \<Rightarrow> Inr (new_mail message (Some self)))"

definition verify_context :: "nat option \<Rightarrow> actor_context \<Rightarrow> unit result" where
  "verify_context current ctx =
     (case current of
        None \<Rightarrow> (case context_dispatcher ctx of Inl p \<Rightarrow> Inl p | Inr _ \<Rightarrow> Inl Context_Wrong_Dispatcher)
      | Some current_id \<Rightarrow>
          (case context_dispatcher ctx of
             Inl p \<Rightarrow> Inl p
           | Inr d \<Rightarrow> if current_id \<noteq> d then Inl Context_Wrong_Dispatcher else Inr ()))"

text \<open>The default methods of \<open>ActorBase\<close>; \<open>actor_context_of\<close> is what the user's actor returns as its context.\<close>

definition base_self_ref :: "('actor \<Rightarrow> actor_context) \<Rightarrow> 'actor \<Rightarrow> actor_ref result" where
  "base_self_ref actor_context_of actor = self_ref_trait (actor_context_of actor)"

definition base_post :: "('actor \<Rightarrow> actor_context) \<Rightarrow> 'm \<Rightarrow> 'actor \<Rightarrow> ('m, actor_ref) actor_mail result" where
  "base_post actor_context_of message actor = context_post message (actor_context_of actor)"

definition base_verify_context :: "('actor \<Rightarrow> actor_context) \<Rightarrow> nat option \<Rightarrow> 'actor \<Rightarrow> unit result" where
  "base_verify_context actor_context_of current actor = verify_context current (actor_context_of actor)"

section \<open>Returning to the dispatcher\<close>

record actor_awaiter =
  await_dispatcher :: nat
  await_scheduled :: bool

definition join :: "actor_context \<Rightarrow> actor_awaiter result" where
  "join ctx = (case context_dispatcher ctx of
      Inl p \<Rightarrow> Inl p
    | Inr d \<Rightarrow> Inr \<lparr>await_dispatcher = d, await_scheduled = False\<rparr>)"

text \<open>
  One poll: whether it is ready, the dispatchers on which it enqueues a continuation that wakes the
  task, and the awaiter it leaves.
\<close>

definition poll_await :: "nat option \<Rightarrow> actor_awaiter \<Rightarrow> bool \<times> nat list \<times> actor_awaiter" where
  "poll_await current w =
     (if current = Some (await_dispatcher w) then (True, [], w)
      else if await_scheduled w then (False, [], w)
      else (False, [await_dispatcher w], w\<lparr>await_scheduled := True\<rparr>))"

primrec poll_awaits :: "nat option list \<Rightarrow> actor_awaiter \<Rightarrow> bool \<times> nat list \<times> actor_awaiter" where
  "poll_awaits [] w = (False, [], w)"
| "poll_awaits (current # rest) w =
     (case poll_await current w of
        (True, ds, w') \<Rightarrow> (True, ds, w')
      | (False, ds, w') \<Rightarrow> (case poll_awaits rest w' of (ready, ds', w'') \<Rightarrow> (ready, ds @ ds', w'')))"

lemma poll_awaits_scheduled:
  "await_scheduled w \<Longrightarrow> poll_awaits cs w = (Some (await_dispatcher w) \<in> set cs, [], w)"
  by (induction cs) (auto simp: poll_await_def)

text \<open>
  An actor that joins its dispatcher resumes there and nowhere else. Polled any number of times on
  any threads, \<open>ActorAwait::join\<close> becomes ready exactly when one of the polls runs on the actor's own
  dispatcher; it enqueues one continuation on that dispatcher at its first poll if that poll runs
  elsewhere, and none otherwise. A context that no spawn has initialized cannot be joined.
\<close>

theorem join_resumes_on_own_dispatcher:
  "(ctx_dispatcher ctx = None \<longrightarrow> join ctx = Inl Context_Not_Initialized) \<and>
   (ctx_dispatcher ctx = Some d \<longrightarrow>
      (\<exists>w. join ctx = Inr w \<and>
         fst (poll_awaits cs w) = (Some d \<in> set cs) \<and>
         fst (snd (poll_awaits cs w)) = (if cs = [] \<or> hd cs = Some d then [] else [d])))"
  by (cases cs) (auto simp: join_def context_dispatcher_def poll_await_def poll_awaits_scheduled)

theorem join_resumes_on_own_dispatcher_witness:
  "\<exists>w. join \<lparr>ctx_dispatcher = Some 2, ctx_self_ref = None\<rparr> = Inr w \<and>
     fst (poll_awaits [None, Some 0, Some 2] w) \<and> fst (snd (poll_awaits [None, Some 0, Some 2] w)) = [2]"
  using join_resumes_on_own_dispatcher [of "\<lparr>ctx_dispatcher = Some 2, ctx_self_ref = None\<rparr>" 2 "[None, Some 0, Some 2]"]
  by simp

text \<open>
  A context is bound once. Initializing a fresh context binds it to the dispatcher and the reference
  given; from then on \<open>verify_context\<close> accepts exactly that dispatcher's thread, mail posted through it
  carries that reference as its sender, and initializing it again panics and changes nothing. Before that every access panics.
\<close>

theorem context_is_bound_once:
  "verify_context current new_context = Inl Context_Not_Initialized \<and>
   context_post message new_context = Inl Context_Not_Initialized \<and>
   (\<exists>ctx. initialize d self new_context = (Inr (), ctx) \<and>
      (verify_context current ctx = Inr ()) = (current = Some d) \<and>
      context_post message ctx = Inr (new_mail message (Some self)) \<and>
      initialize d' self' ctx = (Inl Context_Already_Initialized, ctx))"
  by (auto simp: new_context_def verify_context_def context_post_def self_ref_trait_def initialize_def
      context_dispatcher_def split: option.split)

end
