(* ===== verification/Ask_System.thy ===== *)
theory Ask_System
  imports Prelude
begin

text \<open>
  Requests with a reply: the awaiter of \<^verbatim>\<open>internals/ask_awaiter.rs\<close>, the table of pending requests with
  its timeout sweeper of \<^verbatim>\<open>internals/ask_system.rs\<close>, and the reply reference of
  \<^verbatim>\<open>internals/ask_reply_actor_ref.rs\<close>. The operations on the state of one awaiter run under its mutex and
  are atomic. Awaiters are named by natural numbers; a weak reference to an awaiter upgrades exactly
  while the store holds it. The table is used by any number of threads: the two halves of \<open>register\<close> and of \<open>stop\<close>,
  between which other threads may run, a round of the sweeper, a reply, a poll and the drop of an awaiter are one step each. Times are natural numbers on one clock, durations are milliseconds.
  \<open>will_wake\<close> and the downcast of a response belong to the standard library and the message types:
  they are parameters.
\<close>

section \<open>One awaiter\<close>

datatype ask_error = Ask_Timeout | Response_Type_Mismatch

fun ask_error_text :: "ask_error \<Rightarrow> string" where
  "ask_error_text Ask_Timeout = ''ask timed out''"
| "ask_error_text Response_Type_Mismatch = ''ask response type mismatch''"

record ('m, 'w) awaiter =
  response :: "'m option"
  completed :: bool
  timed_out :: bool
  waker :: "'w option"
  state_poisoned :: bool

definition new_awaiter :: "('m, 'w) awaiter" where
  "new_awaiter = \<lparr>response = None, completed = False, timed_out = False, waker = None, state_poisoned = False\<rparr>"

text \<open>\<open>complete\<close> returns the waker it wakes.\<close>

definition complete :: "'m option \<Rightarrow> bool \<Rightarrow> ('m, 'w) awaiter \<Rightarrow> 'w option result \<times> ('m, 'w) awaiter" where
  "complete resp to st =
     (if state_poisoned st then (Inl Lock_Poisoned, st)
      else if completed st then (Inr None, st)
      else (Inr (waker st), st\<lparr>response := resp, timed_out := to, completed := True, waker := None\<rparr>))"

definition set_response :: "'m \<Rightarrow> ('m, 'w) awaiter \<Rightarrow> 'w option result \<times> ('m, 'w) awaiter" where
  "set_response m = complete (Some m) False"

definition set_timeout :: "('m, 'w) awaiter \<Rightarrow> 'w option result \<times> ('m, 'w) awaiter" where
  "set_timeout = complete None True"

datatype 'r ask_poll = Ask_Pending | Ask_Ready "ask_error + 'r"

definition poll_ask ::
    "('w \<Rightarrow> 'w \<Rightarrow> bool) \<Rightarrow> ('m \<Rightarrow> 'r option) \<Rightarrow> 'w \<Rightarrow> ('m, 'w) awaiter \<Rightarrow> 'r ask_poll result \<times> ('m, 'w) awaiter" where
  "poll_ask will_wake downcast w st =
     (if state_poisoned st then (Inl Lock_Poisoned, st)
      else if \<not> completed st then
        (let replace = (case waker st of Some current \<Rightarrow> \<not> will_wake current w | None \<Rightarrow> True)
         in (Inr Ask_Pending, if replace then st\<lparr>waker := Some w\<rparr> else st))
      else if timed_out st then (Inr (Ask_Ready (Inl Ask_Timeout)), st)
      else case response st of
        None \<Rightarrow> (Inl Ask_Response_Consumed, st\<lparr>state_poisoned := True\<rparr>)
      | Some m \<Rightarrow>
          (Inr (Ask_Ready (case downcast m of Some r \<Rightarrow> Inr r | None \<Rightarrow> Inl Response_Type_Mismatch)),
           st\<lparr>response := None\<rparr>))"

text \<open>What can happen to an awaiter, and the trace it leaves: results of polls and wakes.\<close>

datatype ('m, 'w) ask_event = Reply 'm | Timeout_Event | Poll_Event 'w

datatype ('w, 'r) ask_output = Woke 'w | Polled "'r ask_poll result"

fun ask_events ::
    "('w \<Rightarrow> 'w \<Rightarrow> bool) \<Rightarrow> ('m \<Rightarrow> 'r option) \<Rightarrow> ('m, 'w) ask_event list \<Rightarrow> ('m, 'w) awaiter
     \<Rightarrow> ('w, 'r) ask_output list \<times> ('m, 'w) awaiter" where
  "ask_events ww dc [] st = ([], st)"
| "ask_events ww dc (e # es) st =
     (let (out, st') =
        (case e of
           Reply m \<Rightarrow> (case set_response m st of (Inr (Some w), st') \<Rightarrow> ([Woke w], st') | (_, st') \<Rightarrow> ([], st'))
         | Timeout_Event \<Rightarrow> (case set_timeout st of (Inr (Some w), st') \<Rightarrow> ([Woke w], st') | (_, st') \<Rightarrow> ([], st'))
         | Poll_Event w \<Rightarrow> (case poll_ask ww dc w st of (r, st') \<Rightarrow> ([Polled r], st')));
          (outs, st'') = ask_events ww dc es st'
      in (out @ outs, st''))"

text \<open>The answer that the first completing event determines.\<close>

fun first_answer :: "('m \<Rightarrow> 'r option) \<Rightarrow> ('m, 'w) ask_event list \<Rightarrow> (ask_error + 'r) option" where
  "first_answer dc [] = None"
| "first_answer dc (Reply m # es) = Some (case dc m of Some r \<Rightarrow> Inr r | None \<Rightarrow> Inl Response_Type_Mismatch)"
| "first_answer dc (Timeout_Event # es) = Some (Inl Ask_Timeout)"
| "first_answer dc (Poll_Event w # es) = first_answer dc es"

fun polls :: "('m, 'w) ask_event list \<Rightarrow> 'w list" where
  "polls [] = []"
| "polls (Poll_Event w # es) = w # polls es"
| "polls (_ # es) = polls es"

definition answered :: "('m \<Rightarrow> 'r option) \<Rightarrow> (ask_error + 'r) \<Rightarrow> ('m, 'w) awaiter \<Rightarrow> bool" where
  "answered dc a st \<longleftrightarrow> \<not> state_poisoned st \<and> completed st \<and> waker st = None \<and>
     (if timed_out st then a = Inl Ask_Timeout
      else \<exists>m. response st = Some m \<and> a = (case dc m of Some r \<Rightarrow> Inr r | None \<Rightarrow> Inl Response_Type_Mismatch))"

lemma answered_poll:
  "answered dc a st \<Longrightarrow> fst (poll_ask ww dc w st) = Inr (Ask_Ready a)"
  by (auto simp: answered_def poll_ask_def split: if_splits)

lemma answered_complete:
  assumes "answered dc a st"
  shows "set_response m st = (Inr None, st)" "set_timeout st = (Inr None, st)"
  using assms by (simp_all add: answered_def set_response_def set_timeout_def complete_def)

text \<open>With no poll after the answer, later events change nothing.\<close>

lemma answered_stays:
  assumes "answered dc a st" "polls es = []"
  shows "ask_events ww dc es st = ([], st)"
  using assms(2)
proof (induction es)
  case (Cons e es)
  then show ?case using answered_complete [OF assms(1)] by (cases e) (auto simp: Let_def)
qed simp

lemma pending_events:
  assumes "\<not> completed st" "\<not> state_poisoned st" "first_answer dc es = None"
  shows "fst (ask_events ww dc es st) = map (\<lambda>_. Polled (Inr Ask_Pending)) (polls es)"
    and "\<not> completed (snd (ask_events ww dc es st))" "\<not> state_poisoned (snd (ask_events ww dc es st))"
    and "waker (snd (ask_events ww dc es st)) = None \<longleftrightarrow> waker st = None \<and> polls es = []"
proof -
  have "fst (ask_events ww dc es st) = map (\<lambda>_. Polled (Inr Ask_Pending)) (polls es) \<and>
      \<not> completed (snd (ask_events ww dc es st)) \<and> \<not> state_poisoned (snd (ask_events ww dc es st)) \<and>
      (waker (snd (ask_events ww dc es st)) = None \<longleftrightarrow> waker st = None \<and> polls es = [])"
    using assms
  proof (induction es arbitrary: st)
    case (Cons e es)
    then obtain w where e: "e = Poll_Event w" by (cases e) auto
    let ?st = "snd (poll_ask ww dc w st)"
    have st: "poll_ask ww dc w st = (Inr Ask_Pending, ?st)" "\<not> completed ?st" "\<not> state_poisoned ?st" "waker ?st \<noteq> None"
      using Cons.prems by (auto simp: poll_ask_def Let_def split: option.splits)
    then show ?case using Cons.IH [of ?st] Cons.prems(3) e by (auto simp: Let_def split: prod.splits)
  qed simp
  then show "fst (ask_events ww dc es st) = map (\<lambda>_. Polled (Inr Ask_Pending)) (polls es)"
    "\<not> completed (snd (ask_events ww dc es st))" "\<not> state_poisoned (snd (ask_events ww dc es st))"
    "waker (snd (ask_events ww dc es st)) = None \<longleftrightarrow> waker st = None \<and> polls es = []" by simp_all
qed

lemma ask_events_append:
  "ask_events ww dc (es @ es') st =
     (let (o1, st1) = ask_events ww dc es st; (o2, st2) = ask_events ww dc es' st1 in (o1 @ o2, st2))"
  by (induction es arbitrary: st) (auto simp: Let_def split: prod.splits)

lemma pending_waker:
  assumes "\<not> completed st" "\<not> state_poisoned st" "first_answer dc es = None" "polls es \<noteq> []"
  shows "\<exists>w. waker (snd (ask_events ww dc es st)) = Some w \<and> (w = last (polls es) \<or> ww w (last (polls es)))"
  using assms
proof (induction es rule: rev_induct)
  case (snoc e es)
  have answers: "first_answer dc es = None" and "\<exists>w. e = Poll_Event w"
    using snoc.prems(3) by (induction es rule: polls.induct; cases e; simp)+
  then obtain w where e: "e = Poll_Event w" by blast
  have polls: "polls (es @ [e]) = polls es @ [w]" using e by (induction es rule: polls.induct) simp_all
  show ?case
    using pending_events(2,3) [OF snoc.prems(1,2) answers, of ww] e polls
    by (auto simp: ask_events_append poll_ask_def Let_def split: prod.splits option.splits)
qed simp

lemma completing_event:
  assumes "\<not> completed st" "\<not> state_poisoned st" "first_answer dc [c] = Some a"
  shows "\<exists>st'. ask_events ww dc [c] st = ((case waker st of None \<Rightarrow> [] | Some w \<Rightarrow> [Woke w]), st') \<and> answered dc a st'"
  using assms
  by (intro exI [of _ "snd (ask_events ww dc [c] st)"], cases c)
     (auto simp: set_response_def set_timeout_def complete_def answered_def split: option.splits)

text \<open>
  An ask is answered once. Polls before the first completion (a reply or a timeout) return
  \<open>Pending\<close>; if there was one, that completion wakes one waker, equivalent to that of the last poll;
  replies and timeouts after it change nothing; and the next poll returns the answer of the first
  completion: the reply, a type mismatch, or the timeout.
\<close>

theorem ask_answered_once:
  assumes "first_answer dc before = None" "first_answer dc [c] = Some a" "polls late = []"
  shows "\<exists>wakes. fst (ask_events will_wake dc (before @ [c] @ late @ [Poll_Event w]) new_awaiter) =
       map (\<lambda>_. Polled (Inr Ask_Pending)) (polls before) @ wakes @ [Polled (Inr (Ask_Ready a))] \<and>
     (if polls before = [] then wakes = []
      else \<exists>v. wakes = [Woke v] \<and> (v = last (polls before) \<or> will_wake v (last (polls before))))"
proof -
  have new: "\<not> completed new_awaiter" "\<not> state_poisoned new_awaiter" "waker new_awaiter = None"
    by (simp_all add: new_awaiter_def)
  obtain o1 st1 where run1: "ask_events will_wake dc before new_awaiter = (o1, st1)" by fastforce
  note p = pending_events [OF new(1,2) assms(1), of will_wake, unfolded run1, simplified new(3) fst_conv snd_conv]
  from completing_event [OF p(2,3) assms(2)] obtain st2 where
    run2: "ask_events will_wake dc [c] st1 = ((case waker st1 of None \<Rightarrow> [] | Some w \<Rightarrow> [Woke w]), st2)" and
    ans: "answered dc a st2" by blast
  have run3: "ask_events will_wake dc (late @ [Poll_Event w]) st2 = ([Polled (Inr (Ask_Ready a))], snd (poll_ask will_wake dc w st2))"
    using answered_poll [OF ans, of will_wake w]
    by (cases "poll_ask will_wake dc w st2") (simp add: ask_events_append answered_stays [OF ans assms(3)])
  have "fst (ask_events will_wake dc (before @ [c] @ late @ [Poll_Event w]) new_awaiter) =
      o1 @ (case waker st1 of None \<Rightarrow> [] | Some w \<Rightarrow> [Woke w]) @ [Polled (Inr (Ask_Ready a))]"
    unfolding ask_events_append [of _ _ before] ask_events_append [of _ _ "[c]"] by (simp add: run1 run2 run3 del: ask_events.simps)
  then show ?thesis
    using p pending_waker [OF new(1,2) assms(1), of will_wake] run1
    by (cases "polls before = []") auto
qed

theorem ask_answered_once_witness:
  "\<exists>wakes. fst (ask_events (=) Some ([Poll_Event ''a'', Poll_Event ''b''] @ [Reply 7] @ [Timeout_Event, Reply 8]
      @ [Poll_Event ''b'']) new_awaiter) =
     map (\<lambda>_. Polled (Inr Ask_Pending)) [''a'', ''b''] @ wakes @ [Polled (Inr (Ask_Ready (Inr (7::nat))))] \<and>
     wakes = [Woke ''b'']"
  using ask_answered_once [of Some "[Poll_Event ''a'', Poll_Event ''b'']" "Reply 7" "Inr (7::nat)" "[Timeout_Event, Reply 8]"
      "(=)" "''b''"] by auto

section \<open>The table of pending asks\<close>

record ask_slot =
  slot_awaiter :: nat
  slot_deadline :: nat

text \<open>
  \<open>registering\<close> holds deadline and address of the asks that are between the two halves of \<open>register\<close>, \<open>stopping\<close>
  is set between the two halves of the first \<open>stop\<close>, and \<open>sweeper_alive\<close> is false once the sweeper has panicked.
\<close>

record ('m, 'w) ask_system =
  ask_slots :: "ask_slot option list"
  slot_mask :: usize
  ask_stopped :: bool
  awaiters :: "nat \<Rightarrow> ('m, 'w) awaiter option"
  registering :: "nat \<Rightarrow> (nat \<times> usize) option"
  stopping :: bool
  sweeper_alive :: bool

definition SWEEP_CAP :: nat where "SWEEP_CAP = 100"

definition MIN_SLOT_COUNT :: nat where "MIN_SLOT_COUNT = 2 ^ 18"

fun next_power_of_two :: "nat \<Rightarrow> nat" where
  "next_power_of_two n = (if n \<le> 1 then 1 else 2 * next_power_of_two ((n + 1) div 2))"

declare next_power_of_two.simps [simp del]

definition new_ask_system :: "nat \<Rightarrow> ('m, 'w) ask_system" where
  "new_ask_system slot_count_hint =
     (let slot_count = max (next_power_of_two (max slot_count_hint 1)) MIN_SLOT_COUNT
      in \<lparr>ask_slots = replicate slot_count None, slot_mask = of_nat (slot_count - 1), ask_stopped = False,
          awaiters = Map.empty, registering = Map.empty, stopping = False, sweeper_alive = True\<rparr>)"

text \<open>The slot index is taken from the address of the awaiter.\<close>

definition slot_index_of :: "usize \<Rightarrow> usize \<Rightarrow> nat" where
  "slot_index_of m address = unat (drop_bit 5 address AND m)"

definition reserve_slot :: "nat \<Rightarrow> nat \<Rightarrow> nat \<Rightarrow> ('m, 'w) ask_system \<Rightarrow> ('m, 'w) ask_system" where
  "reserve_slot index a deadline s =
     s\<lparr>ask_slots := (ask_slots s)[index := Some \<lparr>slot_awaiter = a, slot_deadline = deadline\<rparr>]\<rparr>"

text \<open>\<open>register\<close> up to the creation of the awaiter, the rest, and both together when no other thread runs in between.\<close>

definition register_check :: "nat \<Rightarrow> nat \<Rightarrow> nat \<Rightarrow> usize \<Rightarrow> ('m, 'w) ask_system \<Rightarrow> unit result \<times> ('m, 'w) ask_system" where
  "register_check now timeout a address s =
     (if ask_stopped s then (Inl Ask_System_Stopped, s)
      else (Inr (), s\<lparr>awaiters := (awaiters s)(a \<mapsto> new_awaiter), registering := (registering s)(a \<mapsto> (now + timeout, address))\<rparr>))"

definition register_reserve :: "nat \<Rightarrow> ('m, 'w) ask_system \<Rightarrow> ('m, 'w) ask_system" where
  "register_reserve a s =
     (case registering s a of
        None \<Rightarrow> s
      | Some (deadline, address) \<Rightarrow>
          reserve_slot (slot_index_of (slot_mask s) address) a deadline (s\<lparr>registering := (registering s)(a := None)\<rparr>))"

definition register :: "nat \<Rightarrow> nat \<Rightarrow> nat \<Rightarrow> usize \<Rightarrow> ('m, 'w) ask_system \<Rightarrow> unit result \<times> ('m, 'w) ask_system" where
  "register now timeout a address s =
     (case register_check now timeout a address s of
        (Inl p, s') \<Rightarrow> (Inl p, s')
      | (Inr _, s') \<Rightarrow> (Inr (), register_reserve a s'))"

text \<open>
  A weak reference calls \<open>set_response\<close> or \<open>set_timeout\<close> on its awaiter while it is alive. The call panics
  when the mutex of the awaiter is poisoned.
\<close>

definition on_awaiter ::
    "(('m, 'w) awaiter \<Rightarrow> 'w option result \<times> ('m, 'w) awaiter) \<Rightarrow> nat \<Rightarrow> ('m, 'w) ask_system \<Rightarrow> unit result \<times> ('m, 'w) ask_system" where
  "on_awaiter f a s =
     (case awaiters s a of
        None \<Rightarrow> (Inr (), s)
      | Some st \<Rightarrow> (map_sum id (\<lambda>_. ()) (fst (f st)), s\<lparr>awaiters := (awaiters s)(a \<mapsto> snd (f st))\<rparr>))"

definition reply_post :: "nat \<Rightarrow> 'm \<Rightarrow> ('m, 'w) ask_system \<Rightarrow> unit result \<times> ('m, 'w) ask_system" where
  "reply_post a m s = on_awaiter (set_response m) a s"

text \<open>The task that owns an awaiter polls it with waker \<open>w\<close>; \<open>same\<close> is what \<open>will_wake\<close> answers.\<close>

definition poll_awaiter :: "bool \<Rightarrow> nat \<Rightarrow> 'w \<Rightarrow> ('m, 'w) ask_system \<Rightarrow> ('m, 'w) ask_system" where
  "poll_awaiter same a w s =
     (case awaiters s a of
        None \<Rightarrow> s
      | Some st \<Rightarrow> s\<lparr>awaiters := (awaiters s)(a \<mapsto> snd (poll_ask (\<lambda>_ _. same) (\<lambda>m. Some m) w st))\<rparr>)"

definition drop_awaiter :: "nat \<Rightarrow> ('m, 'w) ask_system \<Rightarrow> ('m, 'w) ask_system" where
  "drop_awaiter a s = s\<lparr>awaiters := (awaiters s)(a := None)\<rparr>"

text \<open>The sweep over the slots: what is left in each slot, the awaiters to time out and the next deadline.\<close>

fun sweep_slots ::
    "nat \<Rightarrow> (nat \<Rightarrow> bool) \<Rightarrow> ask_slot option list \<Rightarrow> nat option \<Rightarrow> ask_slot option list \<times> nat list \<times> nat option" where
  "sweep_slots now alive [] nd = ([], [], nd)"
| "sweep_slots now alive (None # slots) nd =
     (let (slots', expired, nd') = sweep_slots now alive slots nd in (None # slots', expired, nd'))"
| "sweep_slots now alive (Some entry # slots) nd =
     (if slot_deadline entry \<le> now \<or> \<not> alive (slot_awaiter entry)
      then let (slots', expired, nd') = sweep_slots now alive slots nd
           in (None # slots', (if alive (slot_awaiter entry) then [slot_awaiter entry] else []) @ expired, nd')
      else let nd1 = (case nd of None \<Rightarrow> slot_deadline entry | Some current \<Rightarrow> min current (slot_deadline entry));
               (slots', expired, nd') = sweep_slots now alive slots (Some nd1)
           in (Some entry # slots', expired, nd'))"

fun time_out_all :: "nat list \<Rightarrow> ('m, 'w) ask_system \<Rightarrow> unit result \<times> ('m, 'w) ask_system" where
  "time_out_all [] s = (Inr (), s)"
| "time_out_all (a # expired) s =
     (case on_awaiter set_timeout a s of
        (Inl p, s') \<Rightarrow> (Inl p, s')
      | (Inr _, s') \<Rightarrow> time_out_all expired s')"

text \<open>
  One round of \<open>run_sweeper\<close>: it returns how long the sweeper then waits. A panic ends the sweeper.
\<close>

definition sweep :: "nat \<Rightarrow> ('m, 'w) ask_system \<Rightarrow> nat result \<times> ('m, 'w) ask_system" where
  "sweep now s =
     (if ask_stopped s \<or> \<not> sweeper_alive s then (Inr 0, s)
      else let (slots', expired, next_deadline) = sweep_slots now (\<lambda>a. awaiters s a \<noteq> None) (ask_slots s) None
           in case time_out_all expired (s\<lparr>ask_slots := slots'\<rparr>) of
                (Inl p, s') \<Rightarrow> (Inl p, s'\<lparr>sweeper_alive := False\<rparr>)
              | (Inr _, s') \<Rightarrow>
                  (Inr (case next_deadline of None \<Rightarrow> SWEEP_CAP | Some deadline \<Rightarrow> min (deadline - now) SWEEP_CAP), s'))"

text \<open>
  \<open>stop\<close>: the swap of the flag, and the loop over the slots after the sweeper has been joined. A panic leaves the
  remaining slots as they are.
\<close>

definition stop_flag :: "('m, 'w) ask_system \<Rightarrow> ('m, 'w) ask_system" where
  "stop_flag s = (if ask_stopped s then s else s\<lparr>ask_stopped := True, stopping := True\<rparr>)"

fun drain_slots ::
    "ask_slot option list \<Rightarrow> ('m, 'w) ask_system \<Rightarrow> unit result \<times> ask_slot option list \<times> ('m, 'w) ask_system" where
  "drain_slots [] s = (Inr (), [], s)"
| "drain_slots (None # slots) s = (case drain_slots slots s of (res, slots', s') \<Rightarrow> (res, None # slots', s'))"
| "drain_slots (Some entry # slots) s =
     (case on_awaiter set_timeout (slot_awaiter entry) s of
        (Inl p, s') \<Rightarrow> (Inl p, None # slots, s')
      | (Inr _, s') \<Rightarrow> (case drain_slots slots s' of (res, slots', s'') \<Rightarrow> (res, None # slots', s'')))"

definition stop_drain :: "('m, 'w) ask_system \<Rightarrow> unit result \<times> ('m, 'w) ask_system" where
  "stop_drain s =
     (if \<not> stopping s then (Inr (), s)
      else case drain_slots (ask_slots s) (s\<lparr>stopping := False\<rparr>) of
             (res, slots', s') \<Rightarrow> (res, s'\<lparr>ask_slots := slots'\<rparr>))"

definition stop_asks :: "('m, 'w) ask_system \<Rightarrow> unit result \<times> ('m, 'w) ask_system" where
  "stop_asks s = (if ask_stopped s then (Inr (), s) else stop_drain (stop_flag s))"

section \<open>Sweeping\<close>

definition due :: "nat \<Rightarrow> (nat \<Rightarrow> bool) \<Rightarrow> ask_slot \<Rightarrow> bool" where
  "due now alive entry \<longleftrightarrow> slot_deadline entry \<le> now \<or> \<not> alive (slot_awaiter entry)"

lemma sweep_slots_spec:
  assumes "sweep_slots now alive slots nd = (slots', expired, nd')"
  shows "slots' = map (\<lambda>slot. case slot of None \<Rightarrow> None | Some e \<Rightarrow> if due now alive e then None else Some e) slots"
    and "set expired = {slot_awaiter e |e. Some e \<in> set slots \<and> due now alive e \<and> alive (slot_awaiter e)}"
    and "case nd' of None \<Rightarrow> nd = None \<and> (\<forall>e. Some e \<in> set slots \<longrightarrow> due now alive e)
       | Some d \<Rightarrow> (\<forall>d0. nd = Some d0 \<longrightarrow> d \<le> d0) \<and>
                   (\<forall>e. Some e \<in> set slots \<longrightarrow> due now alive e \<or> d \<le> slot_deadline e)"
proof -
  have "slots' = map (\<lambda>slot. case slot of None \<Rightarrow> None | Some e \<Rightarrow> if due now alive e then None else Some e) slots \<and>
    set expired = {slot_awaiter e |e. Some e \<in> set slots \<and> due now alive e \<and> alive (slot_awaiter e)} \<and>
    (case nd' of None \<Rightarrow> nd = None \<and> (\<forall>e. Some e \<in> set slots \<longrightarrow> due now alive e)
       | Some d \<Rightarrow> (\<forall>d0. nd = Some d0 \<longrightarrow> d \<le> d0) \<and>
                   (\<forall>e. Some e \<in> set slots \<longrightarrow> due now alive e \<or> d \<le> slot_deadline e))"
    using assms
  proof (induction slots arbitrary: nd slots' expired nd')
    case (Cons slot slots)
    show ?case
    proof (cases slot)
      case None
      then show ?thesis using Cons.prems Cons.IH [of nd] by (auto split: prod.splits option.splits)
    next
      case (Some e)
      show ?thesis
      proof (cases "due now alive e")
        case True
        then show ?thesis using Cons.prems Cons.IH [of nd] Some
          by (auto simp: due_def split: prod.splits option.splits if_splits)
      next
        case False
        then have le: "\<not> slot_deadline e \<le> now" "alive (slot_awaiter e)" by (simp_all add: due_def)
        let ?nd = "case nd of None \<Rightarrow> slot_deadline e | Some current \<Rightarrow> min current (slot_deadline e)"
        obtain s1 x1 n1 where rec: "sweep_slots now alive slots (Some ?nd) = (s1, x1, n1)" by (metis prod_cases3)
        then have out: "slots' = Some e # s1" "expired = x1" "nd' = n1"
          using Cons.prems Some le by simp_all
        show ?thesis
          using Cons.IH [OF rec] out Some False by (auto split: option.splits)
      qed
    qed
  qed (auto split: option.splits)
  then show "slots' = map (\<lambda>slot. case slot of None \<Rightarrow> None | Some e \<Rightarrow> if due now alive e then None else Some e) slots"
    "set expired = {slot_awaiter e |e. Some e \<in> set slots \<and> due now alive e \<and> alive (slot_awaiter e)}"
    "case nd' of None \<Rightarrow> nd = None \<and> (\<forall>e. Some e \<in> set slots \<longrightarrow> due now alive e)
       | Some d \<Rightarrow> (\<forall>d0. nd = Some d0 \<longrightarrow> d \<le> d0) \<and>
                   (\<forall>e. Some e \<in> set slots \<longrightarrow> due now alive e \<or> d \<le> slot_deadline e)" by blast+
qed

definition timeout_of :: "('m, 'w) awaiter \<Rightarrow> ('m, 'w) awaiter" where
  "timeout_of st = snd (set_timeout st)"

lemma timeout_of_idem: "timeout_of (timeout_of st) = timeout_of st"
  by (simp add: timeout_of_def set_timeout_def complete_def)

lemma on_awaiter_frame [simp]:
  "ask_slots (snd (on_awaiter f a s)) = ask_slots s" "ask_stopped (snd (on_awaiter f a s)) = ask_stopped s"
  "slot_mask (snd (on_awaiter f a s)) = slot_mask s" "registering (snd (on_awaiter f a s)) = registering s"
  "stopping (snd (on_awaiter f a s)) = stopping s" "sweeper_alive (snd (on_awaiter f a s)) = sweeper_alive s"
  "b \<noteq> a \<Longrightarrow> awaiters (snd (on_awaiter f a s)) b = awaiters s b"
  by (simp_all add: on_awaiter_def split: option.splits)

text \<open>What the loops over awaiters leave alone, whether they panic or not.\<close>

definition same_table :: "('m, 'w) ask_system \<Rightarrow> ('m, 'w) ask_system \<Rightarrow> bool" where
  "same_table s s' \<longleftrightarrow> ask_slots s' = ask_slots s \<and> ask_stopped s' = ask_stopped s \<and> slot_mask s' = slot_mask s \<and>
     registering s' = registering s \<and> stopping s' = stopping s \<and> sweeper_alive s' = sweeper_alive s"

lemma same_table_on_awaiter: "same_table s (snd (on_awaiter f a s))"
  by (simp add: same_table_def)

lemma same_table_trans: "same_table s s' \<Longrightarrow> same_table s' s'' \<Longrightarrow> same_table s s''"
  by (simp add: same_table_def)

lemma time_out_all_frame: "same_table s (snd (time_out_all xs s))"
proof (induction xs arbitrary: s)
  case (Cons a xs)
  then show ?case using same_table_on_awaiter [of s set_timeout a]
    by (auto split: prod.split sum.split intro: same_table_trans)
qed (simp add: same_table_def)

lemma drain_slots_frame: "same_table s (snd (snd (drain_slots slots s)))"
proof (induction slots s rule: drain_slots.induct)
  case (3 entry slots s)
  then show ?case using same_table_on_awaiter [of s set_timeout "slot_awaiter entry"]
    by (auto split: prod.splits sum.splits intro: same_table_trans)
qed (auto simp: same_table_def split: prod.splits)

lemma time_out_all_other: "a \<notin> set xs \<Longrightarrow> awaiters (snd (time_out_all xs s)) a = awaiters s a"
proof (induction xs arbitrary: s)
  case (Cons b xs)
  obtain res s' where run: "on_awaiter set_timeout b s = (res, s')" by fastforce
  then have "awaiters s' a = awaiters s a" using on_awaiter_frame(7) [of a b set_timeout s] Cons.prems by simp
  then show ?case using Cons run by (simp split: sum.split)
qed simp

lemma drain_slots_other:
  assumes "\<forall>e. Some e \<in> set slots \<longrightarrow> slot_awaiter e \<noteq> a"
  shows "awaiters (snd (snd (drain_slots slots s))) a = awaiters s a"
  using assms
proof (induction slots s rule: drain_slots.induct)
  case (3 entry slots s)
  then have "slot_awaiter entry \<noteq> a" by simp
  then have "awaiters (snd (on_awaiter set_timeout (slot_awaiter entry) s)) a = awaiters s a" by (simp add: eq_commute)
  then show ?case using 3 by (auto split: prod.splits sum.splits)
qed (auto split: prod.splits)

lemma drain_slots_subset: "Some e \<in> set (fst (snd (drain_slots slots s))) \<Longrightarrow> Some e \<in> set slots"
  by (induction slots s rule: drain_slots.induct) (auto split: prod.splits sum.splits)

text \<open>When no mutex is poisoned the loops come to their end.\<close>

definition no_poison :: "('m, 'w) ask_system \<Rightarrow> bool" where
  "no_poison s \<longleftrightarrow> (\<forall>a st. awaiters s a = Some st \<longrightarrow> \<not> state_poisoned st)"

lemma on_awaiter_ok:
  assumes "no_poison s"
  shows "on_awaiter set_timeout a s = (Inr (), s\<lparr>awaiters := (awaiters s)(a := map_option timeout_of (awaiters s a))\<rparr>)"
  using assms by (auto simp: on_awaiter_def no_poison_def timeout_of_def set_timeout_def complete_def fun_upd_idem split: option.split)

lemma timeout_of_poison: "state_poisoned (timeout_of st) = state_poisoned st"
  by (simp add: timeout_of_def set_timeout_def complete_def)

lemma no_poison_timeout:
  "no_poison s \<Longrightarrow> no_poison (s\<lparr>awaiters := (awaiters s)(a := map_option timeout_of (awaiters s a))\<rparr>)"
  by (auto simp: no_poison_def timeout_of_poison split: if_splits)

lemma time_out_all_ok:
  assumes "no_poison s"
  shows "time_out_all xs s =
    (Inr (), s\<lparr>awaiters := (\<lambda>a. if a \<in> set xs then map_option timeout_of (awaiters s a) else awaiters s a)\<rparr>)"
  using assms
proof (induction xs arbitrary: s)
  case (Cons x xs)
  show ?case
    using Cons.IH [OF no_poison_timeout [OF Cons.prems, of x]] on_awaiter_ok [OF Cons.prems, of x]
    by (auto simp: fun_eq_iff option.map_comp comp_def timeout_of_idem intro!: arg_cong [where f = "\<lambda>x. s\<lparr>awaiters := x\<rparr>"])
qed simp

lemma drain_slots_ok:
  assumes "no_poison s"
  shows "drain_slots slots s = (Inr (), replicate (length slots) None,
     s\<lparr>awaiters := (\<lambda>a. if \<exists>e. Some e \<in> set slots \<and> slot_awaiter e = a then map_option timeout_of (awaiters s a) else awaiters s a)\<rparr>)"
  using assms
proof (induction slots s rule: drain_slots.induct)
  case (3 entry slots s)
  note ok = on_awaiter_ok [OF 3(2), of "slot_awaiter entry"]
  show ?case
    using 3(1) [OF ok [symmetric] refl no_poison_timeout [OF 3(2)]] ok
    by (auto simp: fun_eq_iff option.map_comp comp_def timeout_of_idem intro!: arg_cong [where f = "\<lambda>x. s\<lparr>awaiters := x\<rparr>"])
qed simp_all

lemma sweep_ok:
  assumes "\<not> ask_stopped s" "sweeper_alive s" "no_poison s"
  shows "\<exists>wait s'. sweep now s = (Inr wait, s') \<and>
     (\<forall>a. awaiters s' a = (if \<exists>e. Some e \<in> set (ask_slots s) \<and> slot_awaiter e = a \<and> slot_deadline e \<le> now
             then map_option timeout_of (awaiters s a) else awaiters s a)) \<and>
     length (ask_slots s') = length (ask_slots s) \<and>
     (\<forall>i < length (ask_slots s). ask_slots s' ! i =
        (case ask_slots s ! i of None \<Rightarrow> None
         | Some e \<Rightarrow> if slot_deadline e \<le> now \<or> awaiters s (slot_awaiter e) = None then None else Some e)) \<and>
     wait \<le> 100 \<and> (\<forall>e. Some e \<in> set (ask_slots s') \<longrightarrow> now + wait \<le> slot_deadline e)"
proof -
  obtain slots' expired nd' where sw: "sweep_slots now (\<lambda>a. awaiters s a \<noteq> None) (ask_slots s) None = (slots', expired, nd')"
    by (metis prod_cases3)
  note spec = sweep_slots_spec [OF sw]
  let ?wait = "case nd' of None \<Rightarrow> SWEEP_CAP | Some deadline \<Rightarrow> min (deadline - now) SWEEP_CAP"
  let ?s' = "s\<lparr>ask_slots := slots', awaiters := (\<lambda>a. if a \<in> set expired then map_option timeout_of (awaiters s a) else awaiters s a)\<rparr>"
  have "no_poison (s\<lparr>ask_slots := slots'\<rparr>)" using assms(3) by (simp add: no_poison_def)
  from time_out_all_ok [OF this] have "time_out_all expired (s\<lparr>ask_slots := slots'\<rparr>) = (Inr (), ?s')" by (simp cong: if_cong)
  then have run: "sweep now s = (Inr ?wait, ?s')" using assms(1,2) sw by (simp add: sweep_def)
  have "awaiters ?s' a = (if \<exists>e. Some e \<in> set (ask_slots s) \<and> slot_awaiter e = a \<and> slot_deadline e \<le> now
             then map_option timeout_of (awaiters s a) else awaiters s a)" for a
    using spec(2) by (cases "awaiters s a") (auto simp: due_def)
  moreover have "ask_slots ?s' ! i = (case ask_slots s ! i of None \<Rightarrow> None
      | Some e \<Rightarrow> if slot_deadline e \<le> now \<or> awaiters s (slot_awaiter e) = None then None else Some e)"
    if "i < length (ask_slots s)" for i
    using that unfolding spec(1) by (simp add: due_def split: option.split)
  moreover have "?wait \<le> 100" unfolding SWEEP_CAP_def by (simp split: option.split)
  moreover have "now + ?wait \<le> slot_deadline e" if e: "Some e \<in> set (ask_slots ?s')" for e
  proof -
    have e': "Some e \<in> set (ask_slots s)" "\<not> due now (\<lambda>a. awaiters s a \<noteq> None) e"
      using e unfolding spec(1) by (auto split: option.splits if_splits)
    then obtain d where "nd' = Some d" "d \<le> slot_deadline e"
      using spec(3) by (auto split: option.splits)
    then show ?thesis using e'(2) unfolding due_def by (cases "d \<le> now") auto
  qed
  moreover have "length (ask_slots ?s') = length (ask_slots s)" unfolding spec(1) by simp
  ultimately show ?thesis using run by blast
qed

text \<open>
  A sweep that starts at time \<open>now\<close>, with no awaiter's mutex poisoned, times out exactly the awaiters that are still alive and whose
  entry is due, leaves exactly the entries of living awaiters that are not due, and makes the sweeper
  wait no longer than 100 milliseconds and no longer than until the first of the remaining deadlines.
\<close>

theorem sweep_times_out_due_asks:
  assumes "\<not> ask_stopped s" "sweeper_alive s" "no_poison s"
  shows "\<exists>wait s'. sweep now s = (Inr wait, s') \<and>
     (\<forall>a. awaiters s' a = (if \<exists>e. Some e \<in> set (ask_slots s) \<and> slot_awaiter e = a \<and> slot_deadline e \<le> now
             then map_option timeout_of (awaiters s a) else awaiters s a)) \<and>
     (\<forall>i < length (ask_slots s). ask_slots s' ! i =
        (case ask_slots s ! i of None \<Rightarrow> None
         | Some e \<Rightarrow> if slot_deadline e \<le> now \<or> awaiters s (slot_awaiter e) = None then None else Some e)) \<and>
     wait \<le> 100 \<and> (\<forall>e. Some e \<in> set (ask_slots s') \<longrightarrow> now + wait \<le> slot_deadline e)"
  using sweep_ok [OF assms, of now] by blast

section \<open>Histories of the table\<close>

text \<open>\<open>Op_Register\<close> and \<open>Op_Stop\<close> are the two halves without an interruption.\<close>

datatype ('m, 'w) ask_op =
    Op_Check nat nat nat usize
  | Op_Reserve nat
  | Op_Register nat nat nat usize
  | Op_Reply nat 'm
  | Op_Poll bool nat 'w
  | Op_Drop nat
  | Op_Sweep nat
  | Op_Flag
  | Op_Drain
  | Op_Stop

fun ask_op_step :: "('m, 'w) ask_op \<Rightarrow> ('m, 'w) ask_system \<Rightarrow> ('m, 'w) ask_system" where
  "ask_op_step (Op_Check now timeout a address) s = snd (register_check now timeout a address s)"
| "ask_op_step (Op_Reserve a) s = register_reserve a s"
| "ask_op_step (Op_Register now timeout a address) s = snd (register now timeout a address s)"
| "ask_op_step (Op_Reply a m) s = snd (reply_post a m s)"
| "ask_op_step (Op_Poll same a w) s = poll_awaiter same a w s"
| "ask_op_step (Op_Drop a) s = drop_awaiter a s"
| "ask_op_step (Op_Sweep now) s = snd (sweep now s)"
| "ask_op_step Op_Flag s = stop_flag s"
| "ask_op_step Op_Drain s = snd (stop_drain s)"
| "ask_op_step Op_Stop s = snd (stop_asks s)"

abbreviation ask_ops :: "('m, 'w) ask_op list \<Rightarrow> ('m, 'w) ask_system \<Rightarrow> ('m, 'w) ask_system" where
  "ask_ops ops s \<equiv> fold ask_op_step ops s"

text \<open>Operations that are not about awaiter \<open>a\<close> itself.\<close>

fun not_about :: "nat \<Rightarrow> ('m, 'w) ask_op \<Rightarrow> bool" where
  "not_about a (Op_Check now timeout b address) \<longleftrightarrow> b \<noteq> a"
| "not_about a (Op_Reserve b) \<longleftrightarrow> b \<noteq> a"
| "not_about a (Op_Register now timeout b address) \<longleftrightarrow> b \<noteq> a"
| "not_about a (Op_Reply b m) \<longleftrightarrow> b \<noteq> a"
| "not_about a (Op_Poll same b w) \<longleftrightarrow> b \<noteq> a"
| "not_about a (Op_Drop b) \<longleftrightarrow> b \<noteq> a"
| "not_about a _ \<longleftrightarrow> True"

definition unattended :: "nat \<Rightarrow> ('m, 'w) ask_system \<Rightarrow> bool" where
  "unattended a s \<longleftrightarrow> (\<forall>e. Some e \<in> set (ask_slots s) \<longrightarrow> slot_awaiter e \<noteq> a)"

lemma unattended_reserve: "unattended a s \<Longrightarrow> b \<noteq> a \<Longrightarrow> unattended a (reserve_slot i b d s)"
  using set_update_subset_insert by (fastforce simp: unattended_def reserve_slot_def)

lemma unattended_register:
  assumes "unattended a s" "b \<noteq> a"
  shows "unattended a (register_reserve b s)" "awaiters (register_reserve b s) = awaiters s"
  using assms unattended_reserve [of a "s\<lparr>registering := (registering s)(b := None)\<rparr>" b]
  by (auto simp: register_reserve_def unattended_def reserve_slot_def split: option.splits)

lemma unattended_check:
  assumes "unattended a s" "b \<noteq> a"
  shows "unattended a (snd (register_check now timeout b address s))"
    "awaiters (snd (register_check now timeout b address s)) a = awaiters s a"
  using assms by (simp_all add: register_check_def unattended_def)

lemma unattended_sweep:
  assumes "unattended a s"
  shows "unattended a (snd (sweep now s)) \<and> awaiters (snd (sweep now s)) a = awaiters s a"
proof (cases "ask_stopped s \<or> \<not> sweeper_alive s")
  case False
  obtain slots' expired nd' where sw: "sweep_slots now (\<lambda>a. awaiters s a \<noteq> None) (ask_slots s) None = (slots', expired, nd')"
    by (metis prod_cases3)
  note spec = sweep_slots_spec [OF sw]
  have "a \<notin> set expired" using spec(2) assms by (auto simp: unattended_def)
  note other = time_out_all_other [OF this, of "s\<lparr>ask_slots := slots'\<rparr>"]
  have "Some e \<in> set slots' \<Longrightarrow> Some e \<in> set (ask_slots s)" for e
    unfolding spec(1) by (auto split: option.splits if_splits)
  then have un: "unattended a (s\<lparr>ask_slots := slots'\<rparr>)" using assms by (auto simp: unattended_def)
  obtain res s' where run: "time_out_all expired (s\<lparr>ask_slots := slots'\<rparr>) = (res, s')" by fastforce
  have "unattended a s'" "awaiters s' a = awaiters s a"
    using un other time_out_all_frame [of "s\<lparr>ask_slots := slots'\<rparr>" expired] run by (simp_all add: unattended_def same_table_def)
  then show ?thesis using False sw run by (auto simp: sweep_def unattended_def split: sum.split)
qed (use assms in \<open>auto simp: sweep_def\<close>)

lemma unattended_drain:
  assumes "unattended a s"
  shows "unattended a (snd (stop_drain s)) \<and> awaiters (snd (stop_drain s)) a = awaiters s a"
  using assms drain_slots_other [of "ask_slots s" a "s\<lparr>stopping := False\<rparr>"] drain_slots_subset [of _ "ask_slots s" "s\<lparr>stopping := False\<rparr>"]
  by (auto simp: stop_drain_def unattended_def split: prod.splits)

lemma unattended_step:
  assumes un: "unattended a s" and other: "not_about a op"
  shows "unattended a (ask_op_step op s) \<and> awaiters (ask_op_step op s) a = awaiters s a"
proof (cases op)
  case (Op_Register now timeout b address)
  then have b: "b \<noteq> a" using other by simp
  obtain res s1 where s1: "register_check now timeout b address s = (res, s1)" by fastforce
  then show ?thesis
    using unattended_check [OF un b, of now timeout address] unattended_register [of a s1 b] b Op_Register
    by (auto simp: register_def split: sum.split)
next
  case (Op_Reply b m)
  then show ?thesis using assms on_awaiter_frame(7) [of a b "set_response m" s] by (simp add: reply_post_def unattended_def)
next
  case (Op_Poll same b w)
  then show ?thesis using assms by (auto simp: poll_awaiter_def unattended_def split: option.splits)
next
  case Op_Stop
  then show ?thesis using un unattended_drain [of a "stop_flag s"] by (auto simp: stop_asks_def stop_flag_def unattended_def)
qed (use assms in \<open>simp_all add: unattended_check unattended_register unattended_sweep unattended_drain,
     simp_all add: drop_awaiter_def stop_flag_def unattended_def\<close>)

lemma unattended_ops:
  assumes "unattended a s" "\<forall>op \<in> set ops. not_about a op"
  shows "awaiters (ask_ops ops s) a = awaiters s a"
  using assms
proof (induction ops arbitrary: s)
  case (Cons op ops)
  then show ?case using unattended_step [of a s op] by simp
qed simp

lemma register_eq:
  "\<not> ask_stopped s \<Longrightarrow> register now timeout a address s =
     (Inr (), reserve_slot (slot_index_of (slot_mask s) address) a (now + timeout)
       (s\<lparr>awaiters := (awaiters s)(a \<mapsto> new_awaiter), registering := (registering s)(a := None)\<rparr>))"
  by (simp add: register_def register_check_def register_reserve_def)

text \<open>
  C32: a later ask can take the table slot of an earlier one, because the slot is computed from the
  address of the awaiter and overwritten without a look at what it holds. The earlier ask is then never
  timed out: whatever asks, replies to others, sweeps or even a stop of the ask system follow, its
  awaiter stays uncompleted, so a task that awaits it without receiving a reply waits for ever.
\<close>

theorem overwritten_ask_never_times_out:
  assumes "\<not> ask_stopped s" "a \<noteq> b" "unattended a s"
    "slot_index_of (slot_mask s) address = slot_index_of (slot_mask s) address'"
    "slot_index_of (slot_mask s) address < length (ask_slots s)"
    "\<forall>op \<in> set ops. not_about a op"
  shows "awaiters (ask_ops (Op_Register now timeout a address # Op_Register now' timeout' b address' # ops) s) a
     = Some new_awaiter"
proof -
  let ?s1 = "snd (register now timeout a address s)"
  let ?s2 = "snd (register now' timeout' b address' ?s1)"
  have "ask_slots ?s2 = (ask_slots s)[slot_index_of (slot_mask s) address := Some \<lparr>slot_awaiter = b, slot_deadline = now' + timeout'\<rparr>]"
    using assms(1,4) by (simp add: register_eq reserve_slot_def)
  then have un: "unattended a ?s2"
    using assms(2,3) set_update_subset_insert unfolding unattended_def by fastforce
  have "awaiters ?s2 a = Some new_awaiter"
    using assms(1,2) by (simp add: register_eq reserve_slot_def)
  then show ?thesis using unattended_ops [OF un assms(6)] by simp
qed

text \<open>After a stop nothing times an awaiter out any more.\<close>

definition stopped_for_good :: "('m, 'w) ask_system \<Rightarrow> bool" where
  "stopped_for_good s \<longleftrightarrow> ask_stopped s \<and> \<not> stopping s"

lemma stopped_for_good_step:
  assumes "stopped_for_good s" "not_about a op"
  shows "stopped_for_good (ask_op_step op s) \<and> awaiters (ask_op_step op s) a = awaiters s a"
  using assms
  by (cases op)
     (auto simp: stopped_for_good_def register_check_def register_reserve_def register_def reserve_slot_def reply_post_def poll_awaiter_def
        drop_awaiter_def sweep_def stop_flag_def stop_drain_def stop_asks_def split: option.splits)

lemma stopped_for_good_ops:
  assumes "stopped_for_good s" "\<forall>op \<in> set ops. not_about a op"
  shows "awaiters (ask_ops ops s) a = awaiters s a"
  using assms
proof (induction ops arbitrary: s)
  case (Cons op ops)
  then show ?case using stopped_for_good_step [of s a op] by simp
qed simp

lemma stop_asks_stops: "stopped_for_good (snd (stop_asks s)) \<or> ask_stopped s"
  using drain_slots_frame [of "s\<lparr>ask_stopped := True, stopping := False\<rparr>" "ask_slots s"]
  by (auto simp: stop_asks_def stop_drain_def stop_flag_def stopped_for_good_def same_table_def split: prod.splits)

text \<open>
  C33: an ask that races with a stop can stay pending for ever. Take a new ask, of which the table knows nothing yet. If the ask system stops after a call of \<open>register\<close> has seen it running and
  before that call has entered its slot, the ask is not timed out by the stop, nor by anything later: whatever other asks, replies
  to others, sweeps and stops follow, its awaiter stays uncompleted.
\<close>

theorem ask_racing_stop_stays_pending:
  assumes "\<not> ask_stopped s" "unattended a s" "\<forall>op \<in> set ops. not_about a op"
  shows "awaiters (ask_ops (Op_Check now timeout a address # Op_Stop # Op_Reserve a # ops) s) a = Some new_awaiter"
proof -
  let ?s1 = "snd (register_check now timeout a address s)"
  let ?s2 = "snd (stop_asks ?s1)"
  have s1: "unattended a ?s1" "\<not> ask_stopped ?s1" "awaiters ?s1 a = Some new_awaiter"
    using assms(1,2) by (simp_all add: register_check_def unattended_def)
  have "awaiters ?s2 a = Some new_awaiter" using unattended_step [OF s1(1), of Op_Stop] s1(3) by simp
  moreover have "stopped_for_good ?s2" using stop_asks_stops [of ?s1] s1(2) by blast
  moreover have "stopped_for_good (register_reserve a x) = stopped_for_good x" "awaiters (register_reserve a x) = awaiters x" for x :: "('a, 'b) ask_system"
    by (simp_all add: register_reserve_def reserve_slot_def stopped_for_good_def split: option.split prod.split)
  ultimately show ?thesis using stopped_for_good_ops [of "register_reserve a ?s2" ops a] assms(3) by simp
qed

section \<open>Asks that end\<close>

text \<open>
  A future is not polled again after it has returned its response, which is the contract of \<open>Future::poll\<close>: then no awaiter is ever poisoned.
\<close>

fun poll_allowed :: "('m, 'w) ask_op \<Rightarrow> ('m, 'w) ask_system \<Rightarrow> bool" where
  "poll_allowed (Op_Poll same b w) s \<longleftrightarrow>
     (case awaiters s b of None \<Rightarrow> True | Some st \<Rightarrow> completed st \<and> \<not> timed_out st \<longrightarrow> response st \<noteq> None)"
| "poll_allowed _ s \<longleftrightarrow> True"

fun well_polled :: "('m, 'w) ask_op list \<Rightarrow> ('m, 'w) ask_system \<Rightarrow> bool" where
  "well_polled [] s \<longleftrightarrow> True"
| "well_polled (op # ops) s \<longleftrightarrow> poll_allowed op s \<and> well_polled ops (ask_op_step op s)"

lemma well_polled_append: "well_polled (ops @ ops') s \<longleftrightarrow> well_polled ops s \<and> well_polled ops' (ask_ops ops s)"
  by (induction ops arbitrary: s) auto

text \<open>Every step then leaves each awaiter as it is, or answers, times out or polls it.\<close>

definition healthy :: "('m, 'w) ask_system \<Rightarrow> bool" where
  "healthy s \<longleftrightarrow> no_poison s \<and> sweeper_alive s"

lemma stop_drain_ok:
  assumes "no_poison s" "stopping s"
  shows "stop_drain s = (Inr (), s\<lparr>stopping := False, ask_slots := replicate (length (ask_slots s)) None,
     awaiters := (\<lambda>a. if \<exists>e. Some e \<in> set (ask_slots s) \<and> slot_awaiter e = a then map_option timeout_of (awaiters s a) else awaiters s a)\<rparr>)"
proof -
  have "no_poison (s\<lparr>stopping := False\<rparr>)" using assms(1) by (simp add: no_poison_def)
  from drain_slots_ok [OF this] show ?thesis using assms(2) by (simp add: stop_drain_def cong: if_cong)
qed

lemma no_poison_map: "no_poison s \<Longrightarrow> (\<And>a. awaiters s' a = awaiters s a \<or> awaiters s' a = map_option timeout_of (awaiters s a)) \<Longrightarrow> no_poison s'"
proof -
  assume ok: "no_poison s" and same: "\<And>a. awaiters s' a = awaiters s a \<or> awaiters s' a = map_option timeout_of (awaiters s a)"
  have "\<not> state_poisoned st" if "awaiters s' a = Some st" for a st
    using ok same [of a] that by (cases "awaiters s a") (auto simp: no_poison_def timeout_of_poison)
  then show ?thesis by (simp add: no_poison_def)
qed

lemma healthy_drain: "healthy s \<Longrightarrow> healthy (snd (stop_drain s))"
proof (cases "stopping s")
  case True
  assume "healthy s"
  then show ?thesis using stop_drain_ok [of s] True no_poison_map [of s] by (auto simp: healthy_def)
qed (simp add: stop_drain_def)

lemma sweep_alive: "no_poison s \<Longrightarrow> sweeper_alive (snd (sweep now s)) = sweeper_alive s"
proof -
  assume ok: "no_poison s"
  obtain slots' expired nd' where sw: "sweep_slots now (\<lambda>a. awaiters s a \<noteq> None) (ask_slots s) None = (slots', expired, nd')"
    by (metis prod_cases3)
  have "no_poison (s\<lparr>ask_slots := slots'\<rparr>)" using ok by (simp add: no_poison_def)
  from time_out_all_ok [OF this] show ?thesis using sw by (simp add: sweep_def)
qed

lemma healthy_sweep_awaiters:
  assumes "healthy s" "\<not> ask_stopped s"
  shows "awaiters (snd (sweep now s)) a = (if \<exists>e. Some e \<in> set (ask_slots s) \<and> slot_awaiter e = a \<and> slot_deadline e \<le> now
     then map_option timeout_of (awaiters s a) else awaiters s a)"
    "i < length (ask_slots s) \<Longrightarrow> ask_slots (snd (sweep now s)) ! i =
       (case ask_slots s ! i of None \<Rightarrow> None
        | Some e \<Rightarrow> if slot_deadline e \<le> now \<or> awaiters s (slot_awaiter e) = None then None else Some e)"
proof -
  have ok: "sweeper_alive s" "no_poison s" using assms(1) by (simp_all add: healthy_def)
  from sweep_ok [OF assms(2) ok, of now] obtain wait s' where sw: "sweep now s = (Inr wait, s')" and
    aw: "\<forall>a. awaiters s' a = (if \<exists>e. Some e \<in> set (ask_slots s) \<and> slot_awaiter e = a \<and> slot_deadline e \<le> now
             then map_option timeout_of (awaiters s a) else awaiters s a)" and
    sl: "\<forall>i < length (ask_slots s). ask_slots s' ! i = (case ask_slots s ! i of None \<Rightarrow> None
        | Some e \<Rightarrow> if slot_deadline e \<le> now \<or> awaiters s (slot_awaiter e) = None then None else Some e)" by blast
  show "awaiters (snd (sweep now s)) a = (if \<exists>e. Some e \<in> set (ask_slots s) \<and> slot_awaiter e = a \<and> slot_deadline e \<le> now
     then map_option timeout_of (awaiters s a) else awaiters s a)" using sw aw by simp
  show "i < length (ask_slots s) \<Longrightarrow> ask_slots (snd (sweep now s)) ! i =
       (case ask_slots s ! i of None \<Rightarrow> None
        | Some e \<Rightarrow> if slot_deadline e \<le> now \<or> awaiters s (slot_awaiter e) = None then None else Some e)" using sw sl by simp
qed

lemma healthy_sweep:
  assumes "healthy s"
  shows "healthy (snd (sweep now s))"
proof (cases "ask_stopped s")
  case False
  have "no_poison s" using assms by (simp add: healthy_def)
  moreover from this have "no_poison (snd (sweep now s))"
    by (rule no_poison_map) (simp add: healthy_sweep_awaiters [OF assms False])
  ultimately show ?thesis using sweep_alive [of s now] assms by (simp add: healthy_def)
qed (use assms in \<open>simp add: sweep_def\<close>)

lemma healthy_step:
  assumes "healthy s" "poll_allowed op s"
  shows "healthy (ask_op_step op s)"
proof (cases op)
  case (Op_Poll same b w)
  then show ?thesis
    using assms by (auto simp: healthy_def no_poison_def poll_awaiter_def poll_ask_def Let_def split: option.splits)
next
  case (Op_Reply b m)
  then show ?thesis
    using assms by (auto simp: healthy_def no_poison_def reply_post_def on_awaiter_def set_response_def complete_def split: option.splits)
next
  case Op_Stop
  have "healthy (stop_flag s)" using assms(1) by (simp add: healthy_def no_poison_def stop_flag_def)
  from healthy_drain [OF this] show ?thesis using Op_Stop assms(1) by (simp add: stop_asks_def)
next
  case (Op_Register now timeout b address)
  then show ?thesis
    using assms(1) by (cases "ask_stopped s")
      (auto simp: register_eq, auto simp: register_def register_check_def healthy_def no_poison_def reserve_slot_def new_awaiter_def split: if_splits)
next
  case (Op_Sweep now)
  then show ?thesis using healthy_sweep [OF assms(1)] by simp
next
  case Op_Drain
  then show ?thesis using healthy_drain [OF assms(1)] by simp
qed (use assms(1) in \<open>auto simp: healthy_def no_poison_def register_check_def register_reserve_def
      reserve_slot_def new_awaiter_def drop_awaiter_def stop_flag_def split: if_splits option.splits\<close>)

lemma healthy_ops: "healthy s \<Longrightarrow> well_polled ops s \<Longrightarrow> healthy (ask_ops ops s)"
  by (induction ops arbitrary: s) (auto intro: healthy_step)

text \<open>What all operations leave alone.\<close>

lemma sweep_frame:
  "slot_mask (snd (sweep now s)) = slot_mask s" "ask_stopped (snd (sweep now s)) = ask_stopped s"
  "registering (snd (sweep now s)) = registering s" "stopping (snd (sweep now s)) = stopping s"
  "length (ask_slots (snd (sweep now s))) = length (ask_slots s)"
proof -
  obtain slots' expired nd' where sw: "sweep_slots now (\<lambda>a. awaiters s a \<noteq> None) (ask_slots s) None = (slots', expired, nd')"
    by (metis prod_cases3)
  obtain res s' where run: "time_out_all expired (s\<lparr>ask_slots := slots'\<rparr>) = (res, s')" by fastforce
  have "same_table (s\<lparr>ask_slots := slots'\<rparr>) s'" "length slots' = length (ask_slots s)"
    using time_out_all_frame [of "s\<lparr>ask_slots := slots'\<rparr>" expired] run sweep_slots_spec(1) [OF sw] by simp_all
  then show "slot_mask (snd (sweep now s)) = slot_mask s" "ask_stopped (snd (sweep now s)) = ask_stopped s"
    "registering (snd (sweep now s)) = registering s" "stopping (snd (sweep now s)) = stopping s"
    "length (ask_slots (snd (sweep now s))) = length (ask_slots s)"
    using sw run by (auto simp: sweep_def same_table_def split: sum.split)
qed

lemma drain_length: "length (fst (snd (drain_slots slots s))) = length slots"
  by (induction slots s rule: drain_slots.induct) (auto split: prod.splits sum.splits)

lemma stop_drain_frame:
  "slot_mask (snd (stop_drain s)) = slot_mask s" "ask_stopped (snd (stop_drain s)) = ask_stopped s"
  "registering (snd (stop_drain s)) = registering s" "length (ask_slots (snd (stop_drain s))) = length (ask_slots s)"
  using drain_slots_frame [of "s\<lparr>stopping := False\<rparr>" "ask_slots s"] drain_length [of "ask_slots s" "s\<lparr>stopping := False\<rparr>"]
  by (auto simp: stop_drain_def same_table_def split: prod.splits)

lemmas register_defs = register_def register_check_def register_reserve_def reserve_slot_def

lemma op_frame: "slot_mask (ask_op_step op s) = slot_mask s \<and> length (ask_slots (ask_op_step op s)) = length (ask_slots s)"
  by (cases op) (auto simp: register_defs reply_post_def poll_awaiter_def drop_awaiter_def sweep_frame stop_drain_frame
      stop_flag_def stop_asks_def split: option.splits)

text \<open>Operations that leave awaiter \<open>a\<close> alive and slot \<open>i\<close> to it.\<close>

fun leaves_slot :: "usize \<Rightarrow> nat \<Rightarrow> nat \<Rightarrow> ('m, 'w) ask_op \<Rightarrow> bool" where
  "leaves_slot msk i a (Op_Check now timeout b address) \<longleftrightarrow> b \<noteq> a \<and> slot_index_of msk address \<noteq> i"
| "leaves_slot msk i a (Op_Reserve b) \<longleftrightarrow> b \<noteq> a"
| "leaves_slot msk i a (Op_Register now timeout b address) \<longleftrightarrow> b \<noteq> a \<and> slot_index_of msk address \<noteq> i"
| "leaves_slot msk i a (Op_Drop b) \<longleftrightarrow> b \<noteq> a"
| "leaves_slot msk i a _ \<longleftrightarrow> True"

text \<open>No registration in progress, but that of \<open>a\<close> itself, will take slot \<open>i\<close>.\<close>

definition others_elsewhere :: "nat \<Rightarrow> nat \<Rightarrow> ('m, 'w) ask_system \<Rightarrow> bool" where
  "others_elsewhere i a s \<longleftrightarrow>
     (\<forall>b deadline address. b \<noteq> a \<and> registering s b = Some (deadline, address) \<longrightarrow> slot_index_of (slot_mask s) address \<noteq> i)"

lemma others_step:
  assumes "others_elsewhere i a s" "leaves_slot (slot_mask s) i a op"
  shows "others_elsewhere i a (ask_op_step op s)" "registering (ask_op_step op s) a = registering s a"
  using assms
  by (cases op; auto simp: others_elsewhere_def register_defs reply_post_def poll_awaiter_def drop_awaiter_def sweep_frame stop_drain_frame
      stop_flag_def stop_asks_def split: option.splits if_splits)+

text \<open>Between the two halves of its registration an ask waits for its slot, and afterwards it has an entry until it is completed.\<close>

definition waiting :: "nat \<Rightarrow> nat \<Rightarrow> nat \<Rightarrow> usize \<Rightarrow> ('m, 'w) ask_system \<Rightarrow> bool" where
  "waiting i a d address s \<longleftrightarrow> i < length (ask_slots s) \<and> slot_index_of (slot_mask s) address = i \<and> \<not> ask_stopped s \<and>
     registering s a = Some (d, address) \<and> awaiters s a \<noteq> None \<and> others_elsewhere i a s"

definition attended :: "nat \<Rightarrow> nat \<Rightarrow> nat \<Rightarrow> ('m, 'w) ask_system \<Rightarrow> bool" where
  "attended i a d s \<longleftrightarrow> i < length (ask_slots s) \<and> others_elsewhere i a s \<and> (\<exists>st. awaiters s a = Some st \<and>
     (completed st \<or> \<not> stopped_for_good s \<and> ask_slots s ! i = Some \<lparr>slot_awaiter = a, slot_deadline = d\<rparr>))"

lemma timeout_of_completes: "\<not> state_poisoned st \<Longrightarrow> completed (timeout_of st)" "completed st \<Longrightarrow> timeout_of st = st"
  by (simp_all add: timeout_of_def set_timeout_def complete_def)

text \<open>An awaiter that is completed stays so, and none disappears, unless it is registered anew or dropped.\<close>

lemma sweep_keeps:
  assumes "awaiters s a = Some st" "healthy s"
  shows "awaiters (snd (sweep now s)) a = Some st \<or> awaiters (snd (sweep now s)) a = Some (timeout_of st)"
proof (cases "ask_stopped s")
  case False
  then show ?thesis using healthy_sweep_awaiters(1) [OF assms(2), of now a] assms(1) by simp
qed (use assms in \<open>simp add: sweep_def\<close>)

lemma drain_keeps:
  assumes "awaiters s a = Some st" "healthy s"
  shows "awaiters (snd (stop_drain s)) a = Some st \<or> awaiters (snd (stop_drain s)) a = Some (timeout_of st)"
  using stop_drain_ok [of s] assms by (cases "stopping s") (auto simp: healthy_def stop_drain_def)

lemma waiting_step:
  assumes "waiting i a d address s" "leaves_slot (slot_mask s) i a op" "op \<noteq> Op_Flag" "op \<noteq> Op_Stop" "healthy s"
  shows "waiting i a d address (ask_op_step op s)"
proof -
  obtain st where st: "awaiters s a = Some st" using assms(1) by (auto simp: waiting_def)
  have "\<not> ask_stopped (ask_op_step op s) \<and> awaiters (ask_op_step op s) a \<noteq> None"
    using assms st sweep_keeps [OF st assms(5)] drain_keeps [OF st assms(5)]
    by (cases op) (auto simp: waiting_def register_defs reply_post_def on_awaiter_def poll_awaiter_def drop_awaiter_def sweep_frame
        stop_drain_frame split: option.splits)
  then show ?thesis
    using assms(1) others_step [of i a s op] assms(2) op_frame [of op s] by (simp add: waiting_def)
qed

lemma waiting_ops:
  assumes "waiting i a d address s" "\<forall>op \<in> set ops. leaves_slot (slot_mask s) i a op \<and> op \<noteq> Op_Flag \<and> op \<noteq> Op_Stop"
    "healthy s" "well_polled ops s"
  shows "waiting i a d address (ask_ops ops s) \<and> slot_mask (ask_ops ops s) = slot_mask s"
  using assms
proof (induction ops arbitrary: s)
  case (Cons op ops)
  then show ?case
    using waiting_step [of i a d address s op] healthy_step [of s op] op_frame [of op s] by simp
qed simp

lemma waiting_reserve:
  assumes "waiting i a d address s"
  shows "attended i a d (register_reserve a s)"
  using assms by (auto simp: waiting_def attended_def register_reserve_def reserve_slot_def others_elsewhere_def stopped_for_good_def)

lemma slot_entry_exists:
  assumes "i < length slots" "slots ! i = Some \<lparr>slot_awaiter = a, slot_deadline = d\<rparr>"
  shows "\<exists>e. Some e \<in> set slots \<and> slot_awaiter e = a \<and> slot_deadline e = d"
  using nth_mem [OF assms(1)] assms(2) by force

lemma attended_sweep:
  assumes at: "attended i a d s" and ok: "healthy s"
  shows "attended i a d (snd (sweep now s))"
    "\<not> ask_stopped s \<Longrightarrow> d \<le> now \<Longrightarrow> \<exists>st. awaiters (snd (sweep now s)) a = Some st \<and> completed st"
proof -
  obtain st where st: "i < length (ask_slots s)" "awaiters s a = Some st"
    "completed st \<or> \<not> stopped_for_good s \<and> ask_slots s ! i = Some \<lparr>slot_awaiter = a, slot_deadline = d\<rparr>"
    using at by (auto simp: attended_def)
  have poison: "\<not> state_poisoned st" using ok st(2) by (simp add: healthy_def no_poison_def)
  have "attended i a d (snd (sweep now s)) \<and>
      (\<not> ask_stopped s \<and> d \<le> now \<longrightarrow> (\<exists>st. awaiters (snd (sweep now s)) a = Some st \<and> completed st))"
  proof (cases "ask_stopped s")
    case False
    note new = healthy_sweep_awaiters(1) [OF ok False, of now a] healthy_sweep_awaiters(2) [OF ok False st(1), of now]
    have "completed st \<or> (if d \<le> now then awaiters (snd (sweep now s)) a = Some (timeout_of st)
        else ask_slots (snd (sweep now s)) ! i = Some \<lparr>slot_awaiter = a, slot_deadline = d\<rparr>)"
    proof (cases "completed st")
      case False
      then have entry: "ask_slots s ! i = Some \<lparr>slot_awaiter = a, slot_deadline = d\<rparr>" using st(3) by simp
      have "d \<le> now \<Longrightarrow> \<exists>e. Some e \<in> set (ask_slots s) \<and> slot_awaiter e = a \<and> slot_deadline e \<le> now"
        using slot_entry_exists [OF st(1) entry] by blast
      then show ?thesis using new st(2) entry by simp
    qed simp
    then show ?thesis
      using sweep_keeps [OF st(2) ok, of now] timeout_of_completes [of st] poison at st(1) False
      by (cases "completed st"; cases "d \<le> now") (auto simp: attended_def sweep_frame others_elsewhere_def stopped_for_good_def)
  qed (use at in \<open>simp add: sweep_def\<close>)
  then show "attended i a d (snd (sweep now s))"
    "\<not> ask_stopped s \<Longrightarrow> d \<le> now \<Longrightarrow> \<exists>st. awaiters (snd (sweep now s)) a = Some st \<and> completed st" by blast+
qed

lemma attended_drain:
  assumes at: "attended i a d s" and ok: "healthy s"
  shows "attended i a d (snd (stop_drain s))" "ask_stopped s \<Longrightarrow> \<exists>st. awaiters (snd (stop_drain s)) a = Some st \<and> completed st"
proof -
  obtain st where st: "i < length (ask_slots s)" "awaiters s a = Some st" "others_elsewhere i a s"
    "completed st \<or> \<not> stopped_for_good s \<and> ask_slots s ! i = Some \<lparr>slot_awaiter = a, slot_deadline = d\<rparr>"
    using at by (auto simp: attended_def)
  have poison: "\<not> state_poisoned st" "no_poison s" using ok st(2) by (simp_all add: healthy_def no_poison_def)
  have drained: "\<exists>st'. awaiters (snd (stop_drain s)) a = Some st' \<and> completed st'" if "stopping s"
  proof (cases "completed st")
    case True
    then show ?thesis using drain_keeps [OF st(2) ok] timeout_of_completes(2) [of st] by auto
  next
    case False
    then have "\<exists>e. Some e \<in> set (ask_slots s) \<and> slot_awaiter e = a" using slot_entry_exists [OF st(1)] st(4) by blast
    then show ?thesis
      using stop_drain_ok [OF poison(2) that] st(2) timeout_of_completes(1) [OF poison(1)] by simp
  qed
  show "attended i a d (snd (stop_drain s))"
  proof (cases "stopping s")
    case True
    then show ?thesis using drained st(1,3) by (auto simp: attended_def stop_drain_frame others_elsewhere_def)
  qed (use at in \<open>simp add: stop_drain_def\<close>)
  show "\<exists>st. awaiters (snd (stop_drain s)) a = Some st \<and> completed st" if "ask_stopped s"
    using drained st(2,4) that by (cases "stopping s") (auto simp: stopped_for_good_def stop_drain_def)
qed

lemma attended_flag: "attended i a d s \<Longrightarrow> attended i a d (stop_flag s)"
  by (auto simp: attended_def stop_flag_def stopped_for_good_def others_elsewhere_def)

lemma attended_step:
  assumes at: "attended i a d s" and other: "leaves_slot (slot_mask s) i a op" and ok: "healthy s"
  shows "attended i a d (ask_op_step op s)"
proof (cases op)
  case (Op_Sweep now)
  then show ?thesis using attended_sweep(1) [OF at ok] by simp
next
  case Op_Drain
  then show ?thesis using attended_drain(1) [OF at ok] by simp
next
  case Op_Flag
  then show ?thesis using attended_flag [OF at] by simp
next
  case Op_Stop
  have "healthy (stop_flag s)" using ok by (simp add: healthy_def no_poison_def stop_flag_def)
  from attended_drain(1) [OF attended_flag [OF at] this] show ?thesis using at Op_Stop by (simp add: stop_asks_def)
next
  case (Op_Reserve b)
  then show ?thesis
    using at other others_step(1) [OF _ other] unfolding attended_def
    by (auto simp: register_reserve_def reserve_slot_def others_elsewhere_def stopped_for_good_def nth_list_update split: option.splits)
next
  case (Op_Register now timeout b address)
  then show ?thesis
    using at other others_step(1) [OF _ other] unfolding attended_def
    by (auto simp: register_defs stopped_for_good_def split: option.splits)
qed (use at other others_step(1) [OF _ other] in \<open>auto simp: attended_def register_check_def reply_post_def on_awaiter_def set_response_def complete_def
      poll_awaiter_def poll_ask_def Let_def drop_awaiter_def stopped_for_good_def others_elsewhere_def split: option.splits\<close>)

lemma attended_ops:
  assumes "attended i a d s" "\<forall>op \<in> set ops. leaves_slot (slot_mask s) i a op" "healthy s" "well_polled ops s"
  shows "attended i a d (ask_ops ops s)"
  using assms
proof (induction ops arbitrary: s)
  case (Cons op ops)
  then show ?case using attended_step [of i a d s op] healthy_step [of s op] op_frame [of op s] by simp
qed simp

text \<open>
  C28: every other ask ends. Start from a healthy system (no awaiter's mutex poisoned, the sweeper thread alive, the slot of the ask inside the table), take an
  ask whose call of \<open>register\<close> found the system running, and suppose that the system is not stopped before that call has entered its slot, that no other ask takes the slot, that its awaiter is kept, and that no future is polled again
  after it returned its response. Then after any interleaved history of asks, replies, polls, drops, sweeps and stops, a
  sweep at or after its deadline, if the system is not stopped by then, or the end of a stop leaves it completed, by a reply or by the timeout.
\<close>

theorem ask_ends_by_deadline:
  assumes "healthy s" "\<not> ask_stopped s" "i = slot_index_of (slot_mask s) address" "i < length (ask_slots s)" "others_elsewhere i a s"
    "\<forall>op \<in> set ops. leaves_slot (slot_mask s) i a op \<and> op \<noteq> Op_Flag \<and> op \<noteq> Op_Stop"
    "\<forall>op \<in> set ops'. leaves_slot (slot_mask s) i a op"
    "well_polled (Op_Check now timeout a address # ops @ Op_Reserve a # ops') s"
    "s' = ask_ops (Op_Check now timeout a address # ops @ Op_Reserve a # ops') s"
  shows "(\<not> ask_stopped s' \<and> now + timeout \<le> later \<longrightarrow> (\<exists>st. awaiters (snd (sweep later s')) a = Some st \<and> completed st)) \<and>
     (\<exists>st. awaiters (snd (stop_drain (stop_flag s'))) a = Some st \<and> completed st)"
proof -
  let ?s1 = "snd (register_check now timeout a address s)"
  let ?s2 = "ask_ops ops ?s1"
  have polled: "well_polled ops ?s1" "well_polled ops' (register_reserve a ?s2)"
    using assms(8) by (simp_all add: well_polled_append)
  have s1: "waiting i a (now + timeout) address ?s1" "slot_mask ?s1 = slot_mask s"
    using assms(2-5) by (auto simp: waiting_def register_check_def others_elsewhere_def)
  have healthy1: "healthy ?s1" using healthy_step [OF assms(1), of "Op_Check now timeout a address"] by simp
  have s2: "waiting i a (now + timeout) address ?s2" "slot_mask ?s2 = slot_mask s"
    using waiting_ops [OF s1(1) _ healthy1 polled(1)] assms(6) s1(2) by simp_all
  have healthy2: "healthy (register_reserve a ?s2)"
    using healthy_step [OF healthy_ops [OF healthy1 polled(1)], of "Op_Reserve a"] by simp
  have at: "attended i a (now + timeout) s'"
    using attended_ops [OF waiting_reserve [OF s2(1)] _ healthy2 polled(2)] op_frame [of "Op_Reserve a" ?s2] s2(2) assms(7,9) by simp
  have healthy': "healthy s'" using healthy_ops [OF healthy2 polled(2)] assms(9) by simp
  have flag: "healthy (stop_flag s')" "ask_stopped (stop_flag s')"
    using healthy' by (simp_all add: healthy_def no_poison_def stop_flag_def)
  show ?thesis
    using attended_sweep(2) [OF at healthy'] attended_drain(2) [OF attended_flag [OF at] flag] by blast
qed

section \<open>Bounds and concrete runs\<close>

lemma next_power_of_two_spec: "\<exists>k. next_power_of_two n = 2 ^ k \<and> n \<le> 2 ^ k \<and> (n \<le> 2 ^ j \<longrightarrow> k \<le> j)"
proof (induction n arbitrary: j rule: next_power_of_two.induct)
  case (1 n)
  show ?case
  proof (cases "n \<le> 1")
    case True
    then show ?thesis by (intro exI [of _ 0]) (simp add: next_power_of_two.simps)
  next
    case False
    from 1 [OF False, of "j - 1"] obtain k where k: "next_power_of_two ((n + 1) div 2) = 2 ^ k" "(n + 1) div 2 \<le> 2 ^ k"
      "(n + 1) div 2 \<le> 2 ^ (j - 1) \<longrightarrow> k \<le> j - 1" by blast
    have "n \<le> 2 ^ Suc k" using k(2) by simp
    moreover have "Suc k \<le> j" if "n \<le> 2 ^ j"
    proof -
      have "j \<noteq> 0" using that False by (intro notI) simp
      then obtain i where i: "j = Suc i" by (cases j) auto
      then have "(n + 1) div 2 \<le> 2 ^ i" using that by simp
      then show ?thesis using k(3) i by simp
    qed
    ultimately show ?thesis
      using k(1) False by (intro exI [of _ "Suc k"]) (subst next_power_of_two.simps, auto)
  qed
qed

text \<open>
  Whatever capacity up to \<open>2 ^ 63\<close> the system is built with, the table has a power-of-two number
  of slots, at least the requested one and at least 262144, and the slot index computed from any
  address is within the table, so registering an ask never panics on the index.
\<close>

theorem ask_slot_in_bounds:
  assumes "hint \<le> 2 ^ 63"
    and "s = new_ask_system hint"
  shows "slot_index_of (slot_mask s) address < length (ask_slots s) \<and> hint \<le> length (ask_slots s)
     \<and> (\<exists>k. length (ask_slots s) = 2 ^ k \<and> 18 \<le> k)"
proof -
  obtain k where k: "next_power_of_two (max hint 1) = 2 ^ k" "max hint 1 \<le> 2 ^ k" "max hint 1 \<le> 2 ^ 63 \<longrightarrow> k \<le> 63"
    using next_power_of_two_spec by blast
  have "max hint 1 \<le> 2 ^ 63" using assms by simp
  with k(3) have k63: "max k 18 \<le> 63" by simp
  have "max (2 ^ k) (2 ^ 18) = (2::nat) ^ max k 18"
    using max_of_mono [of "\<lambda>k. (2::nat) ^ k" k 18] by (simp add: mono_def)
  then have count: "max (next_power_of_two (max hint 1)) MIN_SLOT_COUNT = 2 ^ max k 18"
    unfolding k(1) MIN_SLOT_COUNT_def .
  have msk: "of_nat (2 ^ max k 18 - 1) = (2 ^ max k 18 - 1 :: usize)"
    by (simp add: of_nat_diff)
  have "unat (w AND (2 ^ max k 18 - 1) :: usize) < 2 ^ max k 18" for w
    unfolding unat_and_mask by simp
  moreover have "(2::nat) ^ k \<le> 2 ^ max k 18" by simp
  then have "hint \<le> 2 ^ max k 18" using k(2) by (meson max.boundedE order_trans)
  ultimately show ?thesis
    using count msk unfolding assms(2) by (auto simp: new_ask_system_def slot_index_of_def Let_def intro: exI [of _ "max k 18"])
qed

theorem ask_slot_in_bounds_witness:
  "slot_index_of (slot_mask (new_ask_system 300000 :: (nat, nat) ask_system)) 0xFFFFFFFFFFFFFFF0
     < length (ask_slots (new_ask_system 300000 :: (nat, nat) ask_system))"
  using ask_slot_in_bounds [of 300000 "new_ask_system 300000 :: (nat, nat) ask_system" "0xFFFFFFFFFFFFFFF0", OF _ refl]
  by simp

text \<open>A table of two slots; addresses 0 and 64 share a slot, 0 and 32 do not.\<close>

definition small_asks :: "(nat, nat) ask_system" where
  "small_asks = \<lparr>ask_slots = [None, None], slot_mask = 1, ask_stopped = False, awaiters = Map.empty, registering = Map.empty,
     stopping = False, sweeper_alive = True\<rparr>"

lemma small_index: "slot_index_of 1 0 = 0" "slot_index_of 1 64 = 0" "slot_index_of 1 32 = 1"
  by (simp_all add: slot_index_of_def)

theorem sweep_times_out_due_asks_witness:
  "let s = snd (register 0 50 1 0 small_asks) in
     awaiters (snd (sweep 60 s)) 1 = Some (timeout_of new_awaiter) \<and> fst (sweep 20 s) = Inr 30"
proof -
  let ?s = "snd (register 0 50 1 0 small_asks)"
  have s: "\<not> ask_stopped ?s" "sweeper_alive ?s" "no_poison ?s" "ask_slots ?s = [Some \<lparr>slot_awaiter = 1, slot_deadline = 50\<rparr>, None]"
    "awaiters ?s 1 = Some new_awaiter"
    by (simp_all add: register_defs small_asks_def small_index no_poison_def new_awaiter_def)
  obtain wait s' where sw: "sweep 60 ?s = (Inr wait, s')" and
    aw: "\<forall>a. awaiters s' a = (if \<exists>e. Some e \<in> set (ask_slots ?s) \<and> slot_awaiter e = a \<and> slot_deadline e \<le> 60
             then map_option timeout_of (awaiters ?s a) else awaiters ?s a)"
    using sweep_times_out_due_asks [OF s(1-3), of 60] by blast
  have "awaiters (snd (sweep 60 ?s)) 1 = Some (timeout_of new_awaiter)" using sw aw s(4,5) by fastforce
  moreover have "fst (sweep 20 ?s) = Inr 30" using s by (simp add: sweep_def SWEEP_CAP_def)
  ultimately show ?thesis by (simp add: Let_def)
qed

theorem overwritten_ask_never_times_out_witness:
  "awaiters (ask_ops [Op_Register 0 50 1 0, Op_Register 10 50 2 64, Op_Sweep 1000, Op_Stop] small_asks) 1 = Some new_awaiter"
  using overwritten_ask_never_times_out [of small_asks 1 2 0 64 "[Op_Sweep 1000, Op_Stop]" 0 50 10 50]
  by (simp add: small_asks_def small_index unattended_def)

theorem ask_racing_stop_stays_pending_witness:
  "awaiters (ask_ops [Op_Check 0 50 1 0, Op_Stop, Op_Reserve 1, Op_Sweep 1000, Op_Stop] small_asks) 1 = Some new_awaiter"
  using ask_racing_stop_stays_pending [of small_asks 1 "[Op_Sweep 1000, Op_Stop]" 0 50 0]
  by (simp add: small_asks_def unattended_def)

theorem ask_ends_by_deadline_witness:
  "\<exists>st. awaiters (snd (stop_drain (stop_flag
       (ask_ops [Op_Check 0 50 1 0, Op_Register 10 50 2 32, Op_Reserve 1, Op_Poll True 1 9, Op_Sweep 20] small_asks)))) 1 = Some st
     \<and> completed st"
proof -
  have "well_polled (Op_Check 0 50 1 0 # [Op_Register 10 50 2 32] @ Op_Reserve 1 # [Op_Poll True 1 9, Op_Sweep 20]) small_asks"
    by (auto simp: register_defs small_asks_def new_awaiter_def split: option.split)
  then show ?thesis
    using ask_ends_by_deadline [of small_asks 0 0 1 "[Op_Register 10 50 2 32]" "[Op_Poll True 1 9, Op_Sweep 20]" 0 50, OF _ _ _ _ _ _ _ _ refl]
    by (simp add: small_asks_def small_index healthy_def no_poison_def others_elsewhere_def)
qed

end
