(* ===== verification/Messaging.thy ===== *)
theory Messaging
  imports Actor_Context Ask_System Runner_Machine
begin

text \<open>
  References and the calls made through them: \<^verbatim>\<open>internals/actor_ref.rs\<close>, the reply reference of \<^verbatim>\<open>internals/ask_reply_actor_ref.rs\<close>, the \<open>post\<close> and
  \<open>kill\<close> of \<^verbatim>\<open>internals/registry.rs\<close>, and the receive of \<^verbatim>\<open>internals/actor_runner.rs\<close>. The state composes the registry of \<open>Registry\<close>, the runner machine of \<open>Runner_Machine\<close>
  for every handle, and the ask system of \<open>Ask_System\<close>. A call is what its thread does when no other thread interrupts it; the interleavings
  are the subject of the theories it is composed from.
\<close>

section \<open>State\<close>

text \<open>The implementations of \<open>ActorRefTrait\<close>.\<close>

datatype any_ref = To_Actor actor_ref | To_Ask nat

type_synonym 'm mail = "('m, any_ref) actor_mail"

record ('m, 'w) messaging =
  actors :: registry
  runners :: "handle \<Rightarrow> 'm mail runner"
  asks :: "('m, 'w) ask_system"

section \<open>Calls\<close>

text \<open>A thread runs \<open>enqueue_only\<close> and \<open>schedule_self\<close>, or \<open>kill\<close>, to its end, which takes at most six steps.\<close>

definition runner_call :: "nat \<Rightarrow> 'a thread_pc \<Rightarrow> 'a runner \<Rightarrow> 'a runner" where
  "runner_call t pc s = (advance (\<lambda>s. thread_step t (threads s t) s) ^^ 6) (set_thread t pc s)"

definition on_runner :: "u32 \<Rightarrow> u32 \<Rightarrow> ('m mail runner \<Rightarrow> 'm mail runner) \<Rightarrow> ('m, 'w) messaging \<Rightarrow> ('m, 'w) messaging" where
  "on_runner index generation f s =
     (case lookup (actors s) index generation of
        None \<Rightarrow> s
      | Some _ \<Rightarrow> s\<lparr>runners := (runners s)((index, generation) := f (runners s (index, generation)))\<rparr>)"

definition registry_post :: "nat \<Rightarrow> u32 \<Rightarrow> u32 \<Rightarrow> 'm mail \<Rightarrow> ('m, 'w) messaging \<Rightarrow> ('m, 'w) messaging" where
  "registry_post t index generation mail s = on_runner index generation (runner_call t (T_Post mail)) s"

definition registry_kill :: "nat \<Rightarrow> u32 \<Rightarrow> u32 \<Rightarrow> ('m, 'w) messaging \<Rightarrow> ('m, 'w) messaging" where
  "registry_kill t index generation s = on_runner index generation (runner_call t T_Kill) s"

definition new_actor_ref :: "u32 \<Rightarrow> u32 \<Rightarrow> string option \<Rightarrow> actor_ref" where
  "new_actor_ref index generation al = \<lparr>ref_index = index, ref_generation = generation, ref_alias = al\<rparr>"

definition actor_ref_post :: "nat \<Rightarrow> actor_ref \<Rightarrow> 'm \<Rightarrow> any_ref option \<Rightarrow> ('m, 'w) messaging \<Rightarrow> ('m, 'w) messaging" where
  "actor_ref_post t r message sender s = registry_post t (ref_index r) (ref_generation r) (new_mail message sender) s"

definition actor_ref_post_mail :: "nat \<Rightarrow> actor_ref \<Rightarrow> 'm mail \<Rightarrow> ('m, 'w) messaging \<Rightarrow> ('m, 'w) messaging" where
  "actor_ref_post_mail t r mail s = registry_post t (ref_index r) (ref_generation r) mail s"

definition actor_ref_kill :: "nat \<Rightarrow> actor_ref \<Rightarrow> ('m, 'w) messaging \<Rightarrow> ('m, 'w) messaging" where
  "actor_ref_kill t r s = registry_kill t (ref_index r) (ref_generation r) s"

text \<open>A reply panics when the mutex of the awaiter is poisoned.\<close>

definition ask_reply_post :: "nat \<Rightarrow> 'm \<Rightarrow> any_ref option \<Rightarrow> ('m, 'w) messaging \<Rightarrow> unit result \<times> ('m, 'w) messaging" where
  "ask_reply_post a message sender s =
     (case reply_post a message (asks s) of (res, asks') \<Rightarrow> (res, s\<lparr>asks := asks'\<rparr>))"

text \<open>The trait's methods on a reference of either kind.\<close>

fun ref_post :: "nat \<Rightarrow> any_ref \<Rightarrow> 'm \<Rightarrow> any_ref option \<Rightarrow> ('m, 'w) messaging \<Rightarrow> unit result \<times> ('m, 'w) messaging" where
  "ref_post t (To_Actor r) message sender s = (Inr (), actor_ref_post t r message sender s)"
| "ref_post t (To_Ask a) message sender s = ask_reply_post a message sender s"

fun ref_post_mail :: "nat \<Rightarrow> any_ref \<Rightarrow> 'm mail \<Rightarrow> ('m, 'w) messaging \<Rightarrow> unit result \<times> ('m, 'w) messaging" where
  "ref_post_mail t (To_Actor r) mail s = (Inr (), actor_ref_post_mail t r mail s)"
| "ref_post_mail t (To_Ask a) mail s = (case into_parts mail of (message, sender) \<Rightarrow> ask_reply_post a message sender s)"

fun ref_kill :: "nat \<Rightarrow> any_ref \<Rightarrow> ('m, 'w) messaging \<Rightarrow> ('m, 'w) messaging" where
  "ref_kill t (To_Actor r) s = actor_ref_kill t r s"
| "ref_kill t (To_Ask a) s = s"

text \<open>\<open>ActorRef::ask\<close>; \<open>a\<close> names the awaiter that \<open>register\<close> makes at \<open>address\<close>.\<close>

definition actor_ref_ask ::
    "nat \<Rightarrow> actor_ref \<Rightarrow> 'm \<Rightarrow> nat \<Rightarrow> nat \<Rightarrow> nat \<Rightarrow> usize \<Rightarrow> ('m, 'w) messaging \<Rightarrow> nat result \<times> ('m, 'w) messaging" where
  "actor_ref_ask t r message now timeout a address s =
     (case register now timeout a address (asks s) of
        (Inl p, asks') \<Rightarrow> (Inl p, s\<lparr>asks := asks'\<rparr>)
      | (Inr _, asks') \<Rightarrow> (Inr a, actor_ref_post t r message (Some (To_Ask a)) (s\<lparr>asks := asks'\<rparr>)))"

text \<open>What \<open>create_receive_future\<close> hands to the actor.\<close>

definition create_receive_future :: "'m mail \<Rightarrow> ('m \<Rightarrow> any_ref option \<Rightarrow> 'res) \<Rightarrow> 'res" where
  "create_receive_future mail on_receive = (case into_parts mail of (message, sender) \<Rightarrow> on_receive message sender)"

section \<open>Posting to a runner\<close>

text \<open>A runner at which no thread is in the middle of anything.\<close>

definition quiet_runner :: "'a runner \<Rightarrow> bool" where
  "quiet_runner s \<longleftrightarrow> (\<forall>t. threads s t = T_Idle) \<and> (\<forall>(u, m, ready) \<in> set (mailbox s). ready)"

lemma quiet_publish: "\<forall>(u, m, ready) \<in> set mb. ready \<Longrightarrow> mb_publish t (mb_claim t m mb) = mb @ [(t, m, True)]"
  by (auto simp: mb_publish_def mb_claim_def intro: map_idI)

lemma post_call:
  assumes "quiet_runner s" "lifecycle_state s = LIFECYCLE_RUNNING" "length (mailbox s) < mailbox_capacity s"
    "owner s \<notin> stopped_dispatchers s"
  shows "runner_call t (T_Post m) s =
    s\<lparr>mailbox := mailbox s @ [(t, m, True)], posted := posted s @ [m], is_scheduled := True,
      queued := (if is_scheduled s then queued s else add_mset (owner s) (queued s))\<rparr>"
  using assms quiet_publish [of "mailbox s" t m]
  by (auto simp: runner_call_def quiet_runner_def numeral_eq_Suc advance_def set_thread_def schedule_on_def fun_upd_idem_iff
      split: if_splits)

lemma refused_call:
  assumes "quiet_runner s" "lifecycle_state s \<noteq> LIFECYCLE_RUNNING \<or> mailbox_capacity s \<le> length (mailbox s)"
  shows "runner_call t (T_Post m) s = s"
  using assms
  by (auto simp: runner_call_def quiet_runner_def numeral_eq_Suc advance_def set_thread_def fun_upd_idem_iff)

section \<open>Serving one mail\<close>

text \<open>The worker of a dispatcher takes the entry of the runner and executes it; \<open>us\<close> is what the user code does.\<close>

definition serve :: "nat \<Rightarrow> user_outcome list \<Rightarrow> 'a runner \<Rightarrow> 'a runner" where
  "serve d us s = fold (\<lambda>u. advance (\<lambda>s. execute_step d u (workers s d) s)) us
     (set_worker d W_CheckActive (s\<lparr>queued := queued s - {#d#}\<rparr>))"

definition idle_runner :: "'a runner \<Rightarrow> bool" where
  "idle_runner s \<longleftrightarrow> quiet_runner s \<and> owner s \<notin> stopped_dispatchers s \<and> lifecycle_state s = LIFECYCLE_RUNNING \<and> mailbox s = [] \<and> 0 < mailbox_capacity s \<and>
     \<not> is_scheduled s \<and> \<not> is_active (driver s) \<and> slot_lock s = None \<and> queued s = {#} \<and> (\<forall>d. workers s d = W_Idle)"

lemma serve_star: "d \<in># queued s \<Longrightarrow> workers s d = W_Idle \<Longrightarrow> runner_step\<^sup>*\<^sup>* s (serve d us s)"
proof -
  assume start: "d \<in># queued s" "workers s d = W_Idle"
  have "runner_step\<^sup>*\<^sup>* x (fold (\<lambda>u. advance (\<lambda>s. execute_step d u (workers s d) s)) us x)" for x
  proof (induction us arbitrary: x)
    case (Cons u us)
    let ?x = "advance (\<lambda>s. execute_step d u (workers s d) s) x"
    have "?x = x \<or> runner_step x ?x" by (auto simp: advance_def split: option.split intro: runner_step.execute)
    then show ?case using Cons [of ?x] by (auto intro: converse_rtranclp_into_rtranclp)
  qed simp
  then show ?thesis unfolding serve_def using runner_step.take [OF start] by (rule converse_rtranclp_into_rtranclp [rotated])
qed

lemma serve_one:
  assumes "idle_runner s"
  shows "serve (owner s) (replicate 9 U_Done) (runner_call t (T_Post m) s) =
    s\<lparr>posted := posted s @ [m], dequeued := dequeued s @ [m], received := received s @ [m]\<rparr>"
proof -
  have quiet: "quiet_runner s" "lifecycle_state s = LIFECYCLE_RUNNING" "length (mailbox s) < mailbox_capacity s" "owner s \<notin> stopped_dispatchers s"
    using assms by (simp_all add: idle_runner_def)
  show ?thesis
    unfolding post_call [OF quiet]
    using assms
    by (simp add: idle_runner_def serve_def numeral_eq_Suc advance_def set_worker_def schedule_on_def fun_upd_idem_iff)
qed

section \<open>Properties\<close>

text \<open>
  C29: an ask is a round trip. Let a registered actor be idle (running, with room in an empty mailbox) on a dispatcher that is not stopped, let the ask system not be stopped,
  and let the calls below run without interruption. An ask through the reference of the actor posts its message with a reply reference; the worker of
  the actor's dispatcher, if the receive neither panics nor waits, receives exactly this mail and leaves the actor idle again; until the reply the ask is pending, and a message of the type the
  ask expects that the actor posts to the sender of the mail is what the ask returns. No other actor is touched.
\<close>

theorem ask_round_trip:
  assumes "lookup (actors s) (ref_index r) (ref_generation r) = Some runner" "\<not> ask_stopped (asks s)"
    and "idle_runner (runners s (ref_index r, ref_generation r))" and "downcast reply = Some v"
  shows "\<exists>s1 mail. actor_ref_ask t r message now timeout a address s = (Inr a, s1) \<and>
    (let h = (ref_index r, ref_generation r); served = serve (owner (runners s h)) (replicate 9 U_Done) (runners s1 h) in
      received served = received (runners s h) @ [mail] \<and> idle_runner served \<and> (\<forall>h'. h' \<noteq> h \<longrightarrow> runners s1 h' = runners s h') \<and>
      create_receive_future mail (\<lambda>m sender. m = message \<and> sender = Some (To_Ask a)) \<and>
      (\<exists>st. awaiters (asks s1) a = Some st \<and> fst (poll_ask will_wake downcast w st) = Inr Ask_Pending) \<and>
      (\<exists>s2 st. ref_post t' (the (mail_sender mail)) reply None s1 = (Inr (), s2) \<and> awaiters (asks s2) a = Some st \<and>
         fst (poll_ask will_wake downcast w st) = Inr (Ask_Ready (Inr v))))"
proof -
  let ?h = "(ref_index r, ref_generation r)" and ?mail = "new_mail message (Some (To_Ask a))"
  let ?asks = "reserve_slot (slot_index_of (slot_mask (asks s)) address) a (now + timeout)
       ((asks s)\<lparr>awaiters := (awaiters (asks s))(a \<mapsto> new_awaiter), registering := (registering (asks s))(a := None)\<rparr>)"
  let ?s1 = "s\<lparr>asks := ?asks, runners := (runners s)(?h := runner_call t (T_Post ?mail) (runners s ?h))\<rparr>"
  have ask: "actor_ref_ask t r message now timeout a address s = (Inr a, ?s1)"
    using assms(1,2) by (simp add: actor_ref_ask_def register_eq actor_ref_post_def registry_post_def on_runner_def)
  have "awaiters ?asks a = Some new_awaiter" by (simp add: reserve_slot_def)
  moreover from this have "reply_post a reply ?asks =
      (Inr (), ?asks\<lparr>awaiters := (awaiters ?asks)(a \<mapsto> new_awaiter\<lparr>response := Some reply, completed := True\<rparr>)\<rparr>)"
    by (simp add: reply_post_def on_awaiter_def set_response_def complete_def new_awaiter_def)
  moreover have "idle_runner (runners s ?h\<lparr>posted := x, dequeued := y, received := z\<rparr>)" for x y z
    using assms(3) by (simp add: idle_runner_def quiet_runner_def)
  ultimately show ?thesis
    using serve_one [OF assms(3), of t ?mail] assms(4)
    by (intro exI [of _ ?s1] exI [of _ ?mail])
       (simp add: ask Let_def create_receive_future_def into_parts_def new_mail_def ask_reply_post_def poll_ask_def new_awaiter_def)
qed

text \<open>An idle actor, the tenant of slot 0, in a table of two slots, with an ask table of two slots.\<close>

definition demo_messaging :: "(nat, nat) messaging" where
  "demo_messaging = \<lparr>actors = registry committed_use, runners = (\<lambda>_. new_runner 0 4), asks = small_asks\<rparr>"

lemma demo_messaging_facts:
  "lookup (actors demo_messaging) 0 1 = Some (demo_runner 0 1)" "lookup (actors demo_messaging) 0 3 = None"
  "\<not> ask_stopped (asks demo_messaging)" "idle_runner (runners demo_messaging h)"
  by (simp_all add: demo_messaging_def committed_use_eq lookup_def small_asks_def idle_runner_def quiet_runner_def new_runner_def new_driver_def)

theorem ask_round_trip_witness:
  "\<exists>s1. actor_ref_ask 3 (new_actor_ref 0 1 None) 7 100 50 1 0 demo_messaging = (Inr 1, s1) \<and>
     (\<exists>mail. received (serve 0 (replicate 9 U_Done) (runners s1 (0, 1))) = [mail] \<and> mail_message mail = 7)"
  using ask_round_trip [of demo_messaging "new_actor_ref 0 1 None" "demo_runner 0 1" Some 8 8 3 7 100 50 1 0 "(=)" 9 2] demo_messaging_facts
  by (auto simp: new_actor_ref_def demo_messaging_def new_runner_def create_receive_future_def into_parts_def Let_def)

text \<open>
  Mail that cannot be delivered is dropped without a trace. An uninterrupted post through a reference whose actor is gone, or to
  an actor that is killed or whose mailbox is full and that no other thread is calling, leaves everything as it was: no error, no dead
  letter. An ask through such a reference, while the ask system is not stopped, is registered all the same, as an ask without an answer.
\<close>

theorem undeliverable_mail_is_dropped:
  assumes "lookup (actors s) (ref_index r) (ref_generation r) = None \<or>
    quiet_runner (runners s (ref_index r, ref_generation r)) \<and>
      (lifecycle_state (runners s (ref_index r, ref_generation r)) \<noteq> LIFECYCLE_RUNNING \<or>
       mailbox_capacity (runners s (ref_index r, ref_generation r)) \<le> length (mailbox (runners s (ref_index r, ref_generation r))))"
  shows "actor_ref_post t r message sender s = s \<and>
    (\<not> ask_stopped (asks s) \<longrightarrow> (\<exists>s1. actor_ref_ask t r message now timeout a address s = (Inr a, s1) \<and>
       runners s1 = runners s \<and> awaiters (asks s1) a = Some new_awaiter))"
proof -
  have same: "actor_ref_post t r message sender x = x" if "actors x = actors s" "runners x = runners s" for x :: "('a, 'b) messaging" and sender
    using assms that refused_call [of "runners s (ref_index r, ref_generation r)" t "new_mail message sender"]
    by (auto simp: actor_ref_post_def registry_post_def on_runner_def fun_upd_idem split: option.split)
  then show ?thesis
    by (auto simp: actor_ref_ask_def register_eq same reserve_slot_def)
qed

theorem undeliverable_mail_is_dropped_witness:
  "actor_ref_post 3 (new_actor_ref 0 3 None) 7 None demo_messaging = demo_messaging"
  using undeliverable_mail_is_dropped [of demo_messaging "new_actor_ref 0 3 None"] demo_messaging_facts(2)
  by (simp add: new_actor_ref_def)

lemma kill_call:
  assumes "quiet_runner s" "lifecycle_state s = LIFECYCLE_RUNNING" "owner s \<notin> stopped_dispatchers s"
  shows "runner_call t T_Kill s = s\<lparr>lifecycle_state := LIFECYCLE_KILLING, kill_requested := True, is_scheduled := True,
      queued := (if is_scheduled s then queued s else add_mset (owner s) (queued s))\<rparr>"
  using assms
  by (auto simp: runner_call_def quiet_runner_def numeral_eq_Suc advance_def set_thread_def schedule_on_def fun_upd_idem_iff
      split: if_splits)

lemma refused_kill:
  assumes "quiet_runner s" "lifecycle_state s \<noteq> LIFECYCLE_RUNNING" "kill_requested s"
  shows "runner_call t T_Kill s = s"
  using assms
  by (auto simp: runner_call_def quiet_runner_def numeral_eq_Suc advance_def set_thread_def fun_upd_idem_iff)

text \<open>
  A kill through a reference ends an idle actor. The worker of its dispatcher then calls \<open>on_kill\<close> once and finalizes it
  once; afterwards mail posted through the reference is refused and a second kill changes nothing.
\<close>

theorem reference_kill_ends_idle_actor:
  assumes "lookup (actors s) (ref_index r) (ref_generation r) = Some runner"
    and "idle_runner (runners s (ref_index r, ref_generation r))"
  shows "let h = (ref_index r, ref_generation r); killed = actor_ref_kill t r s;
      ended = serve (owner (runners s h)) (replicate 9 U_Done) (runners killed h) in
    lifecycle_state ended = LIFECYCLE_STOPPED \<and> kill_calls ended = kill_calls (runners s h) + 1 \<and>
    finalizations ended = finalizations (runners s h) + 1 \<and> received ended = received (runners s h) \<and>
    runner_call t' (T_Post mail) ended = ended \<and> runner_call t' T_Kill ended = ended"
proof -
  let ?r = "runners s (ref_index r, ref_generation r)"
  have quiet: "quiet_runner ?r" "lifecycle_state ?r = LIFECYCLE_RUNNING" "owner ?r \<notin> stopped_dispatchers ?r" using assms(2) by (simp_all add: idle_runner_def)
  let ?ended = "serve (owner ?r) (replicate 9 U_Done) (runner_call t T_Kill ?r)"
  have ended: "?ended = ?r\<lparr>lifecycle_state := LIFECYCLE_STOPPED, kill_requested := True, is_scheduled := True, driver := clear_driver (driver ?r),
      kill_calls := kill_calls ?r + 1, finalizations := finalizations ?r + 1\<rparr>"
    using assms(2) unfolding kill_call [OF quiet]
    by (simp add: idle_runner_def serve_def numeral_eq_Suc advance_def set_worker_def schedule_on_def fun_upd_idem_iff
        update_driver_def clear_driver_def)
  have "quiet_runner ?ended" using quiet(1) unfolding ended by (simp add: quiet_runner_def)
  then have "runner_call t' (T_Post mail) ?ended = ?ended" "runner_call t' T_Kill ?ended = ?ended"
    by (rule refused_call refused_kill; simp add: ended)+
  moreover have "runners (actor_ref_kill t r s) (ref_index r, ref_generation r) = runner_call t T_Kill ?r"
    using assms(1) by (simp add: actor_ref_kill_def registry_kill_def on_runner_def)
  ultimately show ?thesis by (simp add: Let_def ended)
qed

theorem reference_kill_ends_idle_actor_witness:
  "kill_calls (serve 0 (replicate 9 U_Done) (runners (actor_ref_kill 3 (new_actor_ref 0 1 None) demo_messaging) (0, 1))) = 1"
  using reference_kill_ends_idle_actor [of demo_messaging "new_actor_ref 0 1 None" "demo_runner 0 1" 3] demo_messaging_facts
  by (simp add: new_actor_ref_def Let_def demo_messaging_def new_runner_def)

text \<open>
  Posting a ready-made mail is posting its message and sender, for a reference of either kind.
\<close>

lemma ref_post_mail_is_post: "ref_post_mail t target mail s = ref_post t target (mail_message mail) (mail_sender mail) s"
  by (cases target; cases mail) (simp_all add: actor_ref_post_mail_def actor_ref_post_def into_parts_def new_mail_def)

end
