(* ===== verification/Actor_System.thy ===== *)
theory Actor_System
  imports Actor_Context Mpsc_Queue
begin

text \<open>
  The actor system of \<^verbatim>\<open>actor_system.rs\<close>: spawning, the alias table, finalization of killed actors and
  shutdown, by any number of threads. Each lock region, atomic access and registry call is one step.
  The registry is the one of \<open>Registry\<close> with its history variables. A panic of the caller ends its
  call; a panic with the alias table locked for writing poisons that lock. The runner that a spawn
  builds is described by its reference, dispatcher and mailbox capacity; building it fails where
  \<open>ActorRunner::new\<close> panics, which is when the actor's context is already in use or the mailbox
  cannot be allocated (\<open>Mpsc_Queue\<close>). \<open>kill_requests\<close> lists the kills that a shutdown has made.
\<close>

section \<open>Spawn requests\<close>

definition DEFAULT_MAILBOX_CAPACITY :: usize where "DEFAULT_MAILBOX_CAPACITY = 1024"

definition DEFAULT_ACTOR_CAPACITY :: usize where "DEFAULT_ACTOR_CAPACITY = 65536"

definition DEFAULT_ASK_CAPACITY :: usize where "DEFAULT_ASK_CAPACITY = 262144"

text \<open>
  What a spawn is asked for. Of the actor value, which is user code, the runtime uses the context.
\<close>

record spawn_request =
  req_dispatcher :: "usize option"
  req_alias :: "string option"
  req_capacity :: usize
  req_context :: actor_context

definition spawn_with_auto_dispatcher :: "actor_context \<Rightarrow> string option \<Rightarrow> usize \<Rightarrow> spawn_request" where
  "spawn_with_auto_dispatcher actor alias mailbox_capacity =
     \<lparr>req_dispatcher = None, req_alias = alias, req_capacity = mailbox_capacity, req_context = actor\<rparr>"

definition spawn_with_dispatcher :: "actor_context \<Rightarrow> usize \<Rightarrow> string option \<Rightarrow> usize \<Rightarrow> spawn_request" where
  "spawn_with_dispatcher actor dispatcher_index alias mailbox_capacity =
     \<lparr>req_dispatcher = Some dispatcher_index, req_alias = alias, req_capacity = mailbox_capacity, req_context = actor\<rparr>"

definition spawn_with_options :: "actor_context \<Rightarrow> string option \<Rightarrow> usize \<Rightarrow> spawn_request" where
  "spawn_with_options default_actor alias mailbox_capacity = spawn_with_auto_dispatcher default_actor alias mailbox_capacity"

definition spawn :: "actor_context \<Rightarrow> spawn_request" where
  "spawn default_actor = spawn_with_options default_actor None DEFAULT_MAILBOX_CAPACITY"

definition spawn_with_alias :: "actor_context \<Rightarrow> string \<Rightarrow> spawn_request" where
  "spawn_with_alias default_actor alias = spawn_with_options default_actor (Some alias) DEFAULT_MAILBOX_CAPACITY"

definition spawn_with_capacity :: "actor_context \<Rightarrow> usize \<Rightarrow> spawn_request" where
  "spawn_with_capacity default_actor mailbox_capacity = spawn_with_options default_actor None mailbox_capacity"

definition spawn_with_factory_options :: "(unit \<Rightarrow> actor_context) \<Rightarrow> string option \<Rightarrow> usize \<Rightarrow> spawn_request" where
  "spawn_with_factory_options factory alias mailbox_capacity =
     spawn_with_auto_dispatcher (factory ()) alias mailbox_capacity"

definition spawn_with_factory :: "(unit \<Rightarrow> actor_context) \<Rightarrow> spawn_request" where
  "spawn_with_factory factory = spawn_with_factory_options factory None DEFAULT_MAILBOX_CAPACITY"

definition spawn_with_factory_and_alias :: "(unit \<Rightarrow> actor_context) \<Rightarrow> string \<Rightarrow> spawn_request" where
  "spawn_with_factory_and_alias factory alias = spawn_with_factory_options factory (Some alias) DEFAULT_MAILBOX_CAPACITY"

definition spawn_with_factory_and_capacity :: "(unit \<Rightarrow> actor_context) \<Rightarrow> usize \<Rightarrow> spawn_request" where
  "spawn_with_factory_and_capacity factory mailbox_capacity = spawn_with_factory_options factory None mailbox_capacity"

definition spawn_on_dispatcher_with_options :: "actor_context \<Rightarrow> usize \<Rightarrow> string option \<Rightarrow> usize \<Rightarrow> spawn_request" where
  "spawn_on_dispatcher_with_options default_actor dispatcher_index alias mailbox_capacity =
     spawn_with_dispatcher default_actor dispatcher_index alias mailbox_capacity"

definition spawn_on_dispatcher :: "actor_context \<Rightarrow> usize \<Rightarrow> spawn_request" where
  "spawn_on_dispatcher default_actor dispatcher_index =
     spawn_on_dispatcher_with_options default_actor dispatcher_index None DEFAULT_MAILBOX_CAPACITY"

definition spawn_on_dispatcher_with_alias :: "actor_context \<Rightarrow> usize \<Rightarrow> string \<Rightarrow> spawn_request" where
  "spawn_on_dispatcher_with_alias default_actor dispatcher_index alias =
     spawn_on_dispatcher_with_options default_actor dispatcher_index (Some alias) DEFAULT_MAILBOX_CAPACITY"

definition spawn_on_dispatcher_with_capacity :: "actor_context \<Rightarrow> usize \<Rightarrow> usize \<Rightarrow> spawn_request" where
  "spawn_on_dispatcher_with_capacity default_actor dispatcher_index mailbox_capacity =
     spawn_on_dispatcher_with_options default_actor dispatcher_index None mailbox_capacity"

definition spawn_on_dispatcher_with_factory_options ::
    "(unit \<Rightarrow> actor_context) \<Rightarrow> usize \<Rightarrow> string option \<Rightarrow> usize \<Rightarrow> spawn_request" where
  "spawn_on_dispatcher_with_factory_options factory dispatcher_index alias mailbox_capacity =
     spawn_with_dispatcher (factory ()) dispatcher_index alias mailbox_capacity"

definition spawn_on_dispatcher_with_factory :: "(unit \<Rightarrow> actor_context) \<Rightarrow> usize \<Rightarrow> spawn_request" where
  "spawn_on_dispatcher_with_factory factory dispatcher_index =
     spawn_on_dispatcher_with_factory_options factory dispatcher_index None DEFAULT_MAILBOX_CAPACITY"

definition spawn_on_dispatcher_with_factory_and_alias :: "(unit \<Rightarrow> actor_context) \<Rightarrow> usize \<Rightarrow> string \<Rightarrow> spawn_request" where
  "spawn_on_dispatcher_with_factory_and_alias factory dispatcher_index alias =
     spawn_on_dispatcher_with_factory_options factory dispatcher_index (Some alias) DEFAULT_MAILBOX_CAPACITY"

definition spawn_on_dispatcher_with_factory_and_capacity :: "(unit \<Rightarrow> actor_context) \<Rightarrow> usize \<Rightarrow> usize \<Rightarrow> spawn_request" where
  "spawn_on_dispatcher_with_factory_and_capacity factory dispatcher_index mailbox_capacity =
     spawn_on_dispatcher_with_factory_options factory dispatcher_index None mailbox_capacity"

section \<open>State\<close>

text \<open>Where a thread stands in a spawn, in \<open>finalize_kill\<close> or in \<open>dispose\<close> / \<open>shutdown_timeout\<close>.\<close>

datatype system_pc =
    Y_Idle
  | S_Disposed spawn_request
  | S_Index spawn_request
  | S_AliasCheck spawn_request
  | S_Reserve spawn_request
  | S_Build spawn_request handle
  | S_AliasInsert actor_runner
  | S_Commit actor_runner
  | S_Done actor_ref
  | F_Alias handle string
  | D_Swap
  | D_StopAsks
  | D_Snapshot
  | D_Kill "actor_runner list"
  | D_Wait
  | D_Expired
  | D_TimedOut usize
  | D_StopDispatchers nat
  | Y_Panicked panic

record actor_system =
  registry_use :: registry_use
  alias_to_handle :: "string \<rightharpoonup> handle"
  alias_poisoned :: bool
  dispatcher_count :: nat
  is_disposed :: bool
  dead_letter_callback :: "nat option"
  asks_stopped :: bool
  dispatchers_stopped :: "nat set"
  kill_requests :: "handle list"
  calls :: "nat \<Rightarrow> system_pc"

definition with_capacities :: "usize \<Rightarrow> usize \<Rightarrow> usize \<Rightarrow> actor_system result" where
  "with_capacities dispatcher_thread_count actor_capacity ask_capacity =
     (if dispatcher_thread_count = 0 then Inl Dispatcher_Count_Zero
      else Inr \<lparr>registry_use = \<lparr>registry = registry_with_capacity actor_capacity, pending = {}, issued = []\<rparr>,
                alias_to_handle = Map.empty, alias_poisoned = False,
                dispatcher_count = unat dispatcher_thread_count, is_disposed = False, dead_letter_callback = None, asks_stopped = False,
                dispatchers_stopped = {}, kill_requests = [], calls = (\<lambda>_. Y_Idle)\<rparr>)"

definition system_with_capacity :: "usize \<Rightarrow> usize \<Rightarrow> actor_system result" where
  "system_with_capacity dispatcher_thread_count actor_capacity =
     with_capacities dispatcher_thread_count actor_capacity DEFAULT_ASK_CAPACITY"

definition new_system :: "usize \<Rightarrow> actor_system result" where
  "new_system dispatcher_thread_count = system_with_capacity dispatcher_thread_count DEFAULT_ACTOR_CAPACITY"

definition goto :: "nat \<Rightarrow> system_pc \<Rightarrow> actor_system \<Rightarrow> actor_system" where
  "goto t pc s = s\<lparr>calls := (calls s)(t := pc)\<rparr>"

definition set_use :: "registry_use \<Rightarrow> actor_system \<Rightarrow> actor_system" where
  "set_use u s = s\<lparr>registry_use := u\<rparr>"

section \<open>Steps\<close>

text \<open>The runner a spawn builds, or the panic of \<open>ActorRunner::new\<close>.\<close>

definition build_runner :: "nat \<Rightarrow> spawn_request \<Rightarrow> handle \<Rightarrow> actor_runner result option" where
  "build_runner count req h =
     (let dispatcher_index = (case req_dispatcher req of Some i \<Rightarrow> unat i | None \<Rightarrow> unat (fst h) mod count);
          self = \<lparr>ref_index = fst h, ref_generation = snd h, ref_alias = req_alias req\<rparr> in
      if count \<le> dispatcher_index then Some (Inl Index_Out_Of_Bounds)
      else case fst (initialize dispatcher_index self (req_context req)) of
        Inl p \<Rightarrow> Some (Inl p)
      | Inr _ \<Rightarrow>
          (case (new_queue (req_capacity req) :: nat mpsc_queue result option) of
             None \<Rightarrow> None
           | Some (Inl p) \<Rightarrow> Some (Inl p)
           | Some (Inr _) \<Rightarrow> Some (Inr \<lparr>runner_ref = self, runner_dispatcher = dispatcher_index,
                                      runner_mailbox_capacity = req_capacity req\<rparr>)))"

fun spawn_step :: "nat \<Rightarrow> system_pc \<Rightarrow> actor_system \<Rightarrow> actor_system option" where
  "spawn_step t (S_Disposed req) s =
     Some (goto t (if is_disposed s then Y_Panicked Actor_System_Disposed else S_Index req) s)"
| "spawn_step t (S_Index req) s =
     Some (goto t (case req_dispatcher req of
              Some i \<Rightarrow> if dispatcher_count s \<le> unat i then Y_Panicked Dispatcher_Index_Out_Of_Range else S_AliasCheck req
            | None \<Rightarrow> S_AliasCheck req) s)"
| "spawn_step t (S_AliasCheck req) s =
     Some (goto t (case req_alias req of
              None \<Rightarrow> S_Reserve req
            | Some a \<Rightarrow> if alias_poisoned s then Y_Panicked Lock_Poisoned
                        else if a \<in> dom (alias_to_handle s) then Y_Panicked (Duplicate_Actor_Alias a)
                        else S_Reserve req) s)"
| "spawn_step t (S_Reserve req) s =
     (case reserve (registry (registry_use s)) of
        (Inl p, reg) \<Rightarrow> Some (goto t (Y_Panicked p) (set_use ((registry_use s)\<lparr>registry := reg\<rparr>) s))
      | (Inr h, reg) \<Rightarrow>
          Some (goto t (S_Build req h)
            (set_use ((registry_use s)\<lparr>registry := reg, pending := insert h (pending (registry_use s)),
                                       issued := issued (registry_use s) @ [h]\<rparr>) s)))"
| "spawn_step t (S_Build req h) s =
     map_option (\<lambda>res. goto t (case res of Inl p \<Rightarrow> Y_Panicked p | Inr r \<Rightarrow> S_AliasInsert r) s)
       (build_runner (dispatcher_count s) req h)"
| "spawn_step t (S_AliasInsert r) s =
     (case ref_alias (runner_ref r) of
        None \<Rightarrow> Some (goto t (S_Commit r) s)
      | Some a \<Rightarrow>
          Some (if alias_poisoned s then goto t (Y_Panicked Lock_Poisoned) s
                else if a \<in> dom (alias_to_handle s)
                then goto t (Y_Panicked (Duplicate_Actor_Alias a)) (s\<lparr>alias_poisoned := True\<rparr>)
                else goto t (S_Commit r) (s\<lparr>alias_to_handle := (alias_to_handle s)(a \<mapsto> runner_handle r)\<rparr>)))"
| "spawn_step t (S_Commit r) s =
     (case commit (fst (runner_handle r)) r (registry (registry_use s)) of
        (res, reg) \<Rightarrow>
          Some (goto t (case res of Inl p \<Rightarrow> Y_Panicked p | Inr _ \<Rightarrow> S_Done (runner_ref r))
            (set_use ((registry_use s)\<lparr>registry := reg, pending := pending (registry_use s) - {runner_handle r}\<rparr>) s)))"
| "spawn_step t _ s = None"

text \<open>\<open>finalize_kill\<close>: the call removes the runner, and a second step removes its alias.\<close>

definition finalize_remove :: "nat \<Rightarrow> handle \<Rightarrow> actor_system \<Rightarrow> actor_system" where
  "finalize_remove t h s =
     (case remove (fst h) (snd h) (registry (registry_use s)) of
        (res, reg) \<Rightarrow>
          goto t (case res of
                  Inl p \<Rightarrow> Y_Panicked p
                | Inr None \<Rightarrow> Y_Idle
                | Inr (Some r) \<Rightarrow> (case ref_alias (runner_ref r) of None \<Rightarrow> Y_Idle | Some a \<Rightarrow> F_Alias h a))
            (set_use ((registry_use s)\<lparr>registry := reg\<rparr>) s))"

definition finalize_alias :: "nat \<Rightarrow> string \<Rightarrow> actor_system \<Rightarrow> actor_system" where
  "finalize_alias t a s =
     (if alias_poisoned s then goto t (Y_Panicked Lock_Poisoned) s
      else goto t Y_Idle (s\<lparr>alias_to_handle := (alias_to_handle s)(a := None)\<rparr>))"

text \<open>
  A step of \<open>dispose\<close> or \<open>shutdown_timeout\<close>; \<open>expired\<close> says whether the deadline has passed, which is
  never the case for \<open>dispose\<close>.
\<close>

fun shutdown_step :: "nat \<Rightarrow> bool \<Rightarrow> system_pc \<Rightarrow> actor_system \<Rightarrow> actor_system option" where
  "shutdown_step t expired D_Swap s =
     Some (goto t (if is_disposed s then D_Wait else D_StopAsks) (s\<lparr>is_disposed := True\<rparr>))"
| "shutdown_step t expired D_StopAsks s = Some (goto t D_Snapshot (s\<lparr>asks_stopped := True\<rparr>))"
| "shutdown_step t expired D_Snapshot s =
     Some (goto t (case snapshot_live (registry (registry_use s)) of Inl p \<Rightarrow> Y_Panicked p | Inr rs \<Rightarrow> D_Kill rs) s)"
| "shutdown_step t expired (D_Kill []) s = Some (goto t D_Wait s)"
| "shutdown_step t expired (D_Kill (r # rs)) s =
     Some (goto t (D_Kill rs) (s\<lparr>kill_requests := kill_requests s @ [runner_handle r]\<rparr>))"
| "shutdown_step t expired D_Wait s =
     Some (goto t (case live_count (registry (registry_use s)) of
              Inl p \<Rightarrow> Y_Panicked p
            | Inr n \<Rightarrow> if n = 0 then D_StopDispatchers 0 else if expired then D_Expired else D_Wait) s)"
| "shutdown_step t expired D_Expired s =
     Some (goto t (case live_count (registry (registry_use s)) of Inl p \<Rightarrow> Y_Panicked p | Inr n \<Rightarrow> D_TimedOut n) s)"
| "shutdown_step t expired (D_StopDispatchers i) s =
     (if i < dispatcher_count s
      then Some (goto t (D_StopDispatchers (Suc i)) (s\<lparr>dispatchers_stopped := insert i (dispatchers_stopped s)\<rparr>))
      else Some (goto t Y_Idle s))"
| "shutdown_step t expired _ s = None"

text \<open>
  Dead letters: callbacks are named by numbers; \<open>publish\<close> gives the callback that is called and the
  message it gets. It runs with the lock released, so a panic in it does not poison the lock.
\<close>

definition set_dead_letter_callback :: "nat \<Rightarrow> actor_system \<Rightarrow> actor_system" where
  "set_dead_letter_callback callback s = s\<lparr>dead_letter_callback := Some callback\<rparr>"

definition clear_dead_letter_callback :: "actor_system \<Rightarrow> actor_system" where
  "clear_dead_letter_callback s = s\<lparr>dead_letter_callback := None\<rparr>"

definition publish :: "'d \<Rightarrow> actor_system \<Rightarrow> (nat \<times> 'd) option" where
  "publish dead_letter_message s = map_option (\<lambda>callback. (callback, dead_letter_message)) (dead_letter_callback s)"

text \<open>The lookup of an actor by its alias.\<close>

definition try_get_actor_ref_by_alias :: "string \<Rightarrow> actor_system \<Rightarrow> actor_ref option result" where
  "try_get_actor_ref_by_alias alias s =
     (if alias_poisoned s then Inl Lock_Poisoned
      else case alias_to_handle s alias of
        None \<Rightarrow> Inr None
      | Some h \<Rightarrow> Inr (Some \<lparr>ref_index = fst h, ref_generation = snd h, ref_alias = Some alias\<rparr>))"

text \<open>
  Calls start at any time. The finalization callback of a runner comes with the handle of an actor
  that has been spawned.
\<close>

inductive system_step :: "actor_system \<Rightarrow> actor_system \<Rightarrow> bool" where
  start_spawn: "calls s t = Y_Idle \<Longrightarrow> system_step s (goto t (S_Disposed req) s)"
| start_finalize: "calls s t = Y_Idle \<Longrightarrow> h \<in> set (issued (registry_use s)) - pending (registry_use s) \<Longrightarrow>
     system_step s (finalize_remove t h s)"
| set_callback: "calls s t = Y_Idle \<Longrightarrow> system_step s (set_dead_letter_callback callback s)"
| clear_callback: "calls s t = Y_Idle \<Longrightarrow> system_step s (clear_dead_letter_callback s)"
| start_shutdown: "calls s t = Y_Idle \<Longrightarrow> system_step s (goto t D_Swap s)"
| spawn: "spawn_step t (calls s t) s = Some s' \<Longrightarrow> system_step s s'"
| finalize: "calls s t = F_Alias h a \<Longrightarrow> system_step s (finalize_alias t a s)"
| shutdown: "shutdown_step t expired (calls s t) s = Some s' \<Longrightarrow> system_step s s'"

definition fresh_system :: "actor_system \<Rightarrow> bool" where
  "fresh_system s \<longleftrightarrow> (\<exists>n actors asks. with_capacities n actors asks = Inr s)"

abbreviation system_reach :: "actor_system \<Rightarrow> bool" where
  "system_reach \<equiv> reach fresh_system system_step"

section \<open>Kinds of steps\<close>

text \<open>The handle that a spawn holds between its reservation and its commit.\<close>

fun pc_handle :: "system_pc \<Rightarrow> handle option" where
  "pc_handle (S_Build req h) = Some h"
| "pc_handle (S_AliasInsert r) = Some (runner_handle r)"
| "pc_handle (S_Commit r) = Some (runner_handle r)"
| "pc_handle _ = None"

text \<open>The alias that a thread is about to hand over, with the handle it belongs to.\<close>

fun pc_alias :: "system_pc \<Rightarrow> (string \<times> handle) option" where
  "pc_alias (S_Commit r) = map_option (\<lambda>a. (a, runner_handle r)) (ref_alias (runner_ref r))"
| "pc_alias (F_Alias h a) = Some (a, h)"
| "pc_alias _ = None"

lemma goto_simps [simp]:
  "registry_use (goto t pc s) = registry_use s" "alias_to_handle (goto t pc s) = alias_to_handle s"
  "alias_poisoned (goto t pc s) = alias_poisoned s" "calls (goto t pc s) = (calls s)(t := pc)"
  "is_disposed (goto t pc s) = is_disposed s" "dispatchers_stopped (goto t pc s) = dispatchers_stopped s"
  "dispatcher_count (goto t pc s) = dispatcher_count s" "kill_requests (goto t pc s) = kill_requests s"
  "asks_stopped (goto t pc s) = asks_stopped s"
  by (simp_all add: goto_def)

lemma set_use_simps [simp]:
  "registry_use (set_use u s) = u" "alias_to_handle (set_use u s) = alias_to_handle s"
  "alias_poisoned (set_use u s) = alias_poisoned s" "calls (set_use u s) = calls s"
  "is_disposed (set_use u s) = is_disposed s" "dispatchers_stopped (set_use u s) = dispatchers_stopped s"
  "dispatcher_count (set_use u s) = dispatcher_count s" "kill_requests (set_use u s) = kill_requests s"
  "asks_stopped (set_use u s) = asks_stopped s"
  by (simp_all add: set_use_def)

lemma build_runner_handle: "build_runner n req h = Some (Inr r) \<Longrightarrow> runner_handle r = h"
  by (auto simp: build_runner_def runner_handle_def Let_def split: if_splits sum.splits option.splits)

text \<open>
  What a step does to the registry, the alias table and the thread that makes it. A quiet step
  changes neither, except that it may poison the alias lock.
\<close>

definition quiet :: "nat \<Rightarrow> actor_system \<Rightarrow> actor_system \<Rightarrow> bool" where
  "quiet t s s' \<longleftrightarrow> registry_use s' = registry_use s \<and> alias_to_handle s' = alias_to_handle s \<and>
     (alias_poisoned s \<longrightarrow> alias_poisoned s') \<and> (\<forall>t'. t' \<noteq> t \<longrightarrow> calls s' t' = calls s t') \<and>
     (pc_handle (calls s' t) = None \<or> pc_handle (calls s' t) = pc_handle (calls s t)) \<and>
     (alias_poisoned s' \<or> pc_alias (calls s t) = None \<and> pc_alias (calls s' t) = None)"

abbreviation on_registry :: "registry_use \<Rightarrow> nat \<Rightarrow> system_pc \<Rightarrow> actor_system \<Rightarrow> actor_system \<Rightarrow> bool" where
  "on_registry u t pc s s' \<equiv> registry_use s' = u \<and> alias_to_handle s' = alias_to_handle s \<and>
     alias_poisoned s' = alias_poisoned s \<and> calls s' = (calls s)(t := pc)"

abbreviation on_aliases :: "(string \<rightharpoonup> handle) \<Rightarrow> nat \<Rightarrow> system_pc \<Rightarrow> actor_system \<Rightarrow> actor_system \<Rightarrow> bool" where
  "on_aliases m t pc s s' \<equiv> registry_use s' = registry_use s \<and> alias_to_handle s' = m \<and>
     alias_poisoned s' = alias_poisoned s \<and> calls s' = (calls s)(t := pc)"

inductive system_effect :: "nat \<Rightarrow> actor_system \<Rightarrow> actor_system \<Rightarrow> bool" for t s s' where
  quiet: "quiet t s s' \<Longrightarrow> system_effect t s s'"
| reserve: "reserve (registry (registry_use s)) = (Inr h, reg) \<Longrightarrow> calls s t = S_Reserve req \<Longrightarrow>
    on_registry ((registry_use s)\<lparr>registry := reg, pending := insert h (pending (registry_use s)),
      issued := issued (registry_use s) @ [h]\<rparr>) t (S_Build req h) s s' \<Longrightarrow> system_effect t s s'"
| reserve_panic: "reserve (registry (registry_use s)) = (Inl p, reg) \<Longrightarrow> calls s t = S_Reserve req \<Longrightarrow>
    on_registry ((registry_use s)\<lparr>registry := reg\<rparr>) t (Y_Panicked p) s s' \<Longrightarrow> system_effect t s s'"
| insert: "calls s t = S_AliasInsert r \<Longrightarrow> ref_alias (runner_ref r) = Some a \<Longrightarrow> alias_to_handle s a = None \<Longrightarrow>
    on_aliases ((alias_to_handle s)(a \<mapsto> runner_handle r)) t (S_Commit r) s s' \<Longrightarrow> system_effect t s s'"
| commit: "calls s t = S_Commit r \<Longrightarrow> commit (fst (runner_handle r)) r (registry (registry_use s)) = (res, reg) \<Longrightarrow>
    on_registry ((registry_use s)\<lparr>registry := reg, pending := pending (registry_use s) - {runner_handle r}\<rparr>) t
      (case res of Inl p \<Rightarrow> Y_Panicked p | Inr _ \<Rightarrow> S_Done (runner_ref r)) s s' \<Longrightarrow> system_effect t s s'"
| remove: "calls s t = Y_Idle \<Longrightarrow> h \<in> set (issued (registry_use s)) - pending (registry_use s) \<Longrightarrow>
    remove (fst h) (snd h) (registry (registry_use s)) = (res, reg) \<Longrightarrow>
    on_registry ((registry_use s)\<lparr>registry := reg\<rparr>) t
      (case res of Inl p \<Rightarrow> Y_Panicked p | Inr None \<Rightarrow> Y_Idle
       | Inr (Some r) \<Rightarrow> (case ref_alias (runner_ref r) of None \<Rightarrow> Y_Idle | Some a \<Rightarrow> F_Alias h a)) s s' \<Longrightarrow>
    system_effect t s s'"
| release: "calls s t = F_Alias h a \<Longrightarrow> on_aliases ((alias_to_handle s)(a := None)) t Y_Idle s s' \<Longrightarrow> system_effect t s s'"

lemma spawn_effect:
  assumes "spawn_step t (calls s t) s = Some s'"
  shows "system_effect t s s'"
proof (cases "calls s t")
  case (S_Disposed req)
  then show ?thesis using assms by (intro system_effect.quiet) (auto simp: quiet_def split: if_splits)
next
  case (S_Index req)
  then show ?thesis using assms by (intro system_effect.quiet) (auto simp: quiet_def split: option.splits if_splits)
next
  case (S_AliasCheck req)
  then show ?thesis using assms by (intro system_effect.quiet) (auto simp: quiet_def split: option.splits if_splits)
next
  case (S_Reserve req)
  then show ?thesis
    using assms by (auto split: prod.splits sum.splits intro: system_effect.reserve system_effect.reserve_panic)
next
  case (S_Build req h)
  then obtain res where res: "build_runner (dispatcher_count s) req h = Some res"
    "s' = goto t (case res of Inl p \<Rightarrow> Y_Panicked p | Inr r \<Rightarrow> S_AliasInsert r) s"
    using assms by auto
  then show ?thesis
    using S_Build build_runner_handle [of "dispatcher_count s" req h]
    by (intro system_effect.quiet) (auto simp: quiet_def split: sum.splits)
next
  case (S_AliasInsert r)
  show ?thesis
  proof (cases "ref_alias (runner_ref r)")
    case None
    then show ?thesis using assms S_AliasInsert by (intro system_effect.quiet) (auto simp: quiet_def)
  next
    case (Some a)
    show ?thesis
    proof (cases "alias_poisoned s \<or> a \<in> dom (alias_to_handle s)")
      case True
      then show ?thesis
        using assms S_AliasInsert Some
        by (intro system_effect.quiet) (auto simp: quiet_def split: if_splits)
    next
      case False
      then show ?thesis
        using assms S_AliasInsert Some
        by (intro system_effect.insert [OF S_AliasInsert Some]) auto
    qed
  qed
next
  case (S_Commit r)
  then show ?thesis
    using assms by (auto split: prod.splits intro!: system_effect.commit [OF S_Commit])
qed (use assms in simp_all)

lemma shutdown_effect:
  assumes "shutdown_step t expired (calls s t) s = Some s'"
  shows "system_effect t s s'"
  by (rule system_effect.quiet, use assms in \<open>cases "(t, expired, calls s t, s)" rule: shutdown_step.cases\<close>)
     (auto simp: quiet_def split: if_splits sum.splits)

lemma system_step_effect:
  assumes "system_step s s'"
  shows "\<exists>t. system_effect t s s'"
  using assms
proof cases
  case (start_spawn t req)
  then show ?thesis by (intro exI [of _ t] system_effect.quiet) (simp add: quiet_def)
next
  case (start_finalize t h)
  obtain res reg where "remove (fst h) (snd h) (registry (registry_use s)) = (res, reg)" by fastforce
  then show ?thesis
    using start_finalize by (intro exI [of _ t] system_effect.remove [OF start_finalize(2,3)]) (simp_all add: finalize_remove_def)
next
  case (start_shutdown t)
  then show ?thesis by (intro exI [of _ t] system_effect.quiet) (simp add: quiet_def)
next
  case (set_callback t callback)
  then show ?thesis by (intro exI [of _ t] system_effect.quiet) (simp add: quiet_def set_dead_letter_callback_def)
next
  case (clear_callback t)
  then show ?thesis by (intro exI [of _ t] system_effect.quiet) (simp add: quiet_def clear_dead_letter_callback_def)
next
  case (spawn t)
  then show ?thesis using spawn_effect by blast
next
  case (finalize t h a)
  show ?thesis
  proof (cases "alias_poisoned s")
    case True
    then show ?thesis
      using finalize by (intro exI [of _ t] system_effect.quiet) (simp add: quiet_def finalize_alias_def)
  next
    case False
    then show ?thesis
      using finalize by (intro exI [of _ t] system_effect.release [OF finalize(2)]) (simp add: finalize_alias_def)
  qed
next
  case (shutdown t expired)
  then show ?thesis using shutdown_effect by blast
qed

section \<open>Invariants\<close>

text \<open>Every spawn between reservation and commit holds a pending handle of its own.\<close>

definition held_inv :: "actor_system \<Rightarrow> bool" where
  "held_inv s \<longleftrightarrow> (\<forall>t h. pc_handle (calls s t) = Some h \<longrightarrow> h \<in> pending (registry_use s)) \<and>
     (\<forall>t t' h. pc_handle (calls s t) = Some h \<longrightarrow> pc_handle (calls s t') = Some h \<longrightarrow> t = t')"

text \<open>The registry as the system uses it obeys the protocol of \<open>Registry\<close>.\<close>

definition system_inv :: "actor_system \<Rightarrow> bool" where
  "system_inv s \<longleftrightarrow> registry_reach (registry_use s) \<and> held_inv s"

lemma effect_registry:
  assumes "system_effect t s s'" "held_inv s"
  shows "registry_use s' = registry_use s \<or> registry_step (registry_use s) (registry_use s')"
  using assms(1)
proof cases
  case (commit r res reg)
  have "pc_handle (calls s t) = Some (runner_handle r)" using commit(1) by simp
  then have "runner_handle r \<in> pending (registry_use s)" using assms(2) unfolding held_inv_def by blast
  from registry_step.commit [OF this commit(2)] show ?thesis using commit(3) by simp
next
  case (remove h res reg)
  then show ?thesis using registry_step.remove [of "fst h" "snd h" "registry_use s" res reg] by simp
qed (auto simp: quiet_def intro: registry_step.reserve registry_step.reserve_panic)

lemma effect_held:
  assumes "system_effect t s s'" "registry_reach (registry_use s)" "held_inv s"
  shows "held_inv s'"
  using assms(1)
proof cases
  case quiet
  have *: "pc_handle (calls s' u) = Some h \<Longrightarrow> pc_handle (calls s u) = Some h" for u h
    using quiet by (cases "u = t") (auto simp: quiet_def)
  then show ?thesis using assms(3) quiet unfolding held_inv_def quiet_def by metis
next
  case (reserve h reg req)
  have "h \<notin> pending (registry_use s)" using lookup_reserve(2) [OF registry.reach_inv [OF assms(2)] reserve(1)] .
  then show ?thesis using assms(3) reserve by (auto simp: held_inv_def)
next
  case (insert r a)
  then have "pc_handle (calls s' u) = pc_handle (calls s u)" for u by simp
  then show ?thesis using assms(3) insert by (simp add: held_inv_def)
next
  case (commit r res reg)
  then have "pc_handle (calls s' t) = None" by (simp split: sum.split)
  then show ?thesis using assms(3) commit unfolding held_inv_def
    by (auto split: if_splits) (metis pc_handle.simps(3))+
next
  case (remove h res reg)
  then have "pc_handle (calls s' u) = pc_handle (calls s u)" for u
    by (simp split: sum.split option.split)
  then show ?thesis using assms(3) remove by (simp add: held_inv_def)
qed (use assms(3) in \<open>auto simp: held_inv_def\<close>)

lemma system_inv_init: "fresh_system s \<Longrightarrow> system_inv s"
  by (auto simp: fresh_system_def with_capacities_def system_inv_def held_inv_def fresh_registry_def
      intro!: reach_init split: if_splits)

interpretation system: invariant_system fresh_system system_step system_inv
proof
  show "system_inv s'" if "system_inv s" "system_step s s'" for s s'
    using system_step_effect [OF that(2)] that(1) effect_registry effect_held reach_step
    unfolding system_inv_def by metis
qed (rule system_inv_init)

section \<open>Aliases\<close>

text \<open>
  Who accounts for an alias: the registered actor that bears it (\<open>None\<close>), the spawn that has entered
  it and not yet committed, or the finalization that has removed its actor and not yet deleted it
  (\<open>Some t\<close>). While the alias lock is not poisoned every entry has exactly one such holder.
\<close>

fun holds :: "actor_system \<Rightarrow> string \<Rightarrow> handle \<Rightarrow> nat option \<Rightarrow> bool" where
  "holds s a h None \<longleftrightarrow>
     (\<exists>r. lookup (registry (registry_use s)) (fst h) (snd h) = Some r \<and> ref_alias (runner_ref r) = Some a)"
| "holds s a h (Some t) \<longleftrightarrow> pc_alias (calls s t) = Some (a, h)"

definition alias_inv :: "actor_system \<Rightarrow> bool" where
  "alias_inv s \<longleftrightarrow> alias_poisoned s \<or>
     (\<forall>a h. (alias_to_handle s a = Some h) = (\<exists>k. holds s a h k)) \<and>
     (\<forall>a h k k'. holds s a h k \<longrightarrow> holds s a h k' \<longrightarrow> k = k')"

lemma alias_inv_frame:
  assumes "alias_inv s" "alias_to_handle s' = alias_to_handle s" "alias_poisoned s \<Longrightarrow> alias_poisoned s'"
    "\<not> alias_poisoned s' \<Longrightarrow> holds s' = holds s"
  shows "alias_inv s'"
  using assms unfolding alias_inv_def by metis

text \<open>A holder that replaces another for the same alias and handle keeps the invariant.\<close>

lemma alias_inv_handover:
  assumes inv: "alias_inv s" and same: "alias_to_handle s' = alias_to_handle s" "alias_poisoned s' = alias_poisoned s"
    and src: "\<And>a h. holds s' a h k' \<longleftrightarrow> holds s a h k' \<or> holds s a h k \<and> P h" "\<And>a h. holds s' a h k \<longleftrightarrow> holds s a h k \<and> \<not> P h"
    and rest: "\<And>a h l. l \<noteq> k \<Longrightarrow> l \<noteq> k' \<Longrightarrow> holds s' a h l \<longleftrightarrow> holds s a h l" and "k \<noteq> k'"
  shows "alias_inv s'"
proof (cases "alias_poisoned s")
  case False
  have "(\<exists>l. holds s' a h l) = (\<exists>l. holds s a h l)" for a h
    using src [of a h] rest [of _ a h] by metis
  moreover have "l = l'" if "holds s' a h l" "holds s' a h l'" for a h l l'
    using that src [of a h] rest [of _ a h] inv False assms(7) unfolding alias_inv_def by metis
  ultimately show ?thesis using inv same False unfolding alias_inv_def by metis
qed (use same in \<open>simp add: alias_inv_def\<close>)

lemma alias_inv_add:
  assumes al: "alias_inv s" and new: "alias_to_handle s a = None"
    and s': "alias_to_handle s' = (alias_to_handle s)(a \<mapsto> h)" "alias_poisoned s' = alias_poisoned s"
    and upd: "\<And>b g k. holds s' b g k = (if k = l then b = a \<and> g = h else holds s b g k)" "\<And>b g. \<not> holds s b g l"
  shows "alias_inv s'"
proof (cases "alias_poisoned s")
  case False
  have table: "(alias_to_handle s b = Some g) = (\<exists>k. holds s b g k)"
    and one: "holds s b g k \<Longrightarrow> holds s b g k' \<Longrightarrow> k = k'" for b g k k'
    using al False unfolding alias_inv_def by blast+
  have free: "\<not> holds s a g k" for g k using table new by (metis option.distinct(1))
  have "(alias_to_handle s' b = Some g) = (\<exists>k. holds s' b g k)" for b g
  proof (cases "b = a")
    case True
    then show ?thesis using free s'(1) by (auto simp: upd(1))
  next
    case False
    have "(\<exists>k. holds s' b g k) = (\<exists>k. holds s b g k)" using False upd by metis
    then show ?thesis using table False s'(1) by simp
  qed
  moreover have "k = k'" if "holds s' b g k" "holds s' b g k'" for b g k k'
    using that free one [of b g k k'] unfolding upd(1) by (auto split: if_splits)
  ultimately show ?thesis unfolding alias_inv_def by blast
qed (use s' in \<open>simp add: alias_inv_def\<close>)

lemma alias_inv_drop:
  assumes al: "alias_inv s"
    and s': "alias_to_handle s' = (alias_to_handle s)(a := None)" "alias_poisoned s' = alias_poisoned s"
    and upd: "\<And>b g k. holds s' b g k = (k \<noteq> l \<and> holds s b g k)" "\<And>b g. holds s b g l = (b = a \<and> g = h)"
  shows "alias_inv s'"
proof (cases "alias_poisoned s")
  case False
  have table: "(alias_to_handle s b = Some g) = (\<exists>k. holds s b g k)"
    and one: "holds s b g k \<Longrightarrow> holds s b g k' \<Longrightarrow> k = k'" for b g k k'
    using al False unfolding alias_inv_def by blast+
  have last: "k = l" if "holds s a g k" for g k
    using that one table upd(2) by (metis option.inject)
  have "(alias_to_handle s' b = Some g) = (\<exists>k. holds s' b g k)" for b g
  proof (cases "b = a")
    case True
    then show ?thesis using last [of g] s'(1) unfolding upd(1) by auto
  next
    case False
    have "(\<exists>k. holds s' b g k) = (\<exists>k. holds s b g k)" using False upd by metis
    then show ?thesis using table False s'(1) by simp
  qed
  moreover have "k = k'" if "holds s' b g k" "holds s' b g k'" for b g k k'
    using that one unfolding upd(1) by blast
  ultimately show ?thesis unfolding alias_inv_def by blast
qed (use s' in \<open>simp add: alias_inv_def\<close>)

lemma effect_alias:
  assumes eff: "system_effect t s s'" and inv: "system_inv s" and al: "alias_inv s"
  shows "alias_inv s'"
proof -
  have reg_inv: "registry_inv (registry_use s)" and held: "held_inv s"
    using inv registry.reach_inv by (auto simp: system_inv_def)
  from eff show ?thesis
  proof cases
    case quiet
    then have "\<not> alias_poisoned s' \<Longrightarrow> holds s' a h k = holds s a h k" for a h k
      by (cases k) (auto simp: quiet_def, metis+)
    then show ?thesis using al quiet by (intro alias_inv_frame [OF al]) (auto simp: quiet_def fun_eq_iff)
  next
    case (reserve h reg req)
    have "holds s' a g k = holds s a g k" for a g k
      using lookup_reserve(1) [OF reg_inv reserve(1)] reserve by (cases k) simp_all
    then show ?thesis using reserve by (intro alias_inv_frame [OF al]) (auto simp: fun_eq_iff)
  next
    case (reserve_panic p reg req)
    have "lookup reg = lookup (registry (registry_use s))"
      using reserve_panic(1) by (cases rule: reserve_cases [OF registry_invD(1) [OF reg_inv]])
        (auto simp: fun_eq_iff lookup_def)
    then have "holds s' a g k = holds s a g k" for a g k using reserve_panic by (cases k) simp_all
    then show ?thesis using reserve_panic by (intro alias_inv_frame [OF al]) (auto simp: fun_eq_iff)
  next
    case (insert r a)
    have "holds s' b g k = (if k = Some t then b = a \<and> g = runner_handle r else holds s b g k)"
      "\<not> holds s b g (Some t)" for b g k
      using insert by (cases k; auto)+
    then show ?thesis using insert by (intro alias_inv_add [OF al insert(3), where l = "Some t"]) simp_all
  next
    case (commit r res reg)
    have hold: "runner_handle r \<in> pending (registry_use s)"
      using held commit(1) unfolding held_inv_def by (metis pc_handle.simps(3))
    note look = lookup_commit [OF reg_inv hold commit(2)] and ok = registry_inv_commit(2) [OF reg_inv hold commit(2)]
    have none: "lookup (registry (registry_use s)) (fst (runner_handle r)) (snd (runner_handle r)) = None"
      using pending_lookup [OF reg_inv hold] by simp
    show ?thesis
      by (rule alias_inv_handover [OF al, where k = "Some t" and k' = None and P = "\<lambda>_. True"])
         (use commit look none ok in \<open>auto simp: split: if_splits\<close>)
  next
    case (remove h res reg)
    show ?thesis
    proof (cases res)
      case (Inl p)
      then have "holds s' a g k = holds s a g k" for a g k
        using remove by (cases k) (auto simp: remove_def Let_def split: if_splits)
      then show ?thesis using remove by (intro alias_inv_frame [OF al]) (auto simp: fun_eq_iff)
    next
      case (Inr x)
      have h: "(fst h, snd h) \<in> set (issued (registry_use s))" "(fst h, snd h) \<notin> pending (registry_use s)"
        using remove(2) by simp_all
      note look = lookup_remove [OF reg_inv h remove(3) [unfolded Inr]]
      show ?thesis
        by (rule alias_inv_handover [OF al, where k = None and k' = "Some t" and P = "\<lambda>g. g = h"])
           (use remove look Inr in \<open>auto split: if_splits option.splits\<close>)
    qed
  next
    case (release h a)
    have "holds s' b g k = (k \<noteq> Some t \<and> holds s b g k)" "holds s b g (Some t) = (b = a \<and> g = h)" for b g k
      using release by (cases k; auto)+
    then show ?thesis using release by (intro alias_inv_drop [OF al, where l = "Some t"]) simp_all
  qed
qed

lemma lookup_fresh: "lookup (registry_with_capacity c) i g = None"
proof -
  have "fresh_registry \<lparr>registry = registry_with_capacity c, pending = {}, issued = []\<rparr>" by (auto simp: fresh_registry_def)
  from slot_okD(4) [OF registry_invD(2) [OF registry_inv_init [OF this]], of i]
  show ?thesis by (auto simp: lookup_slot_at in_use_def registry_with_capacity_def Let_def)
qed

lemma alias_inv_init:
  assumes "fresh_system s"
  shows "alias_inv s"
proof -
  obtain c where s: "registry (registry_use s) = registry_with_capacity c" "alias_to_handle s = Map.empty"
    "calls s = (\<lambda>_. Y_Idle)"
    using assms by (auto simp: fresh_system_def with_capacities_def split: if_splits)
  then have "\<not> holds s a h k" for a h k by (cases k) (simp_all add: lookup_fresh)
  then show ?thesis using s by (simp add: alias_inv_def)
qed

interpretation aliases: invariant_system fresh_system system_step "\<lambda>s. system_inv s \<and> alias_inv s"
proof
  show "system_inv s' \<and> alias_inv s'" if "system_inv s \<and> alias_inv s" "system_step s s'" for s s'
    using system_step_effect [OF that(2)] effect_alias system.inv_step that by blast
qed (simp add: system_inv_init alias_inv_init)

text \<open>
  C3: the alias table is exact, whatever threads spawn, finalize and shut down concurrently. While the
  alias lock is not poisoned, a registered actor that bears an alias is what the alias resolves to, so
  no two registered actors bear the same alias; and an alias that resolves belongs to a registered
  actor, to a spawn that is about to commit it or to a finalization that is about to delete it.
\<close>

theorem alias_table_is_exact:
  assumes "system_reach s" "\<not> alias_poisoned s"
  shows "(lookup (registry (registry_use s)) i g = Some r \<and> ref_alias (runner_ref r) = Some a \<longrightarrow>
            try_get_actor_ref_by_alias a s = Inr (Some (runner_ref r))) \<and>
         (try_get_actor_ref_by_alias a s = Inr (Some ref) \<longrightarrow> ref_alias ref = Some a \<and>
            ((\<exists>r. lookup (registry (registry_use s)) (ref_index ref) (ref_generation ref) = Some r \<and> runner_ref r = ref) \<or>
             (\<exists>t r. calls s t = S_Commit r \<and> runner_ref r = ref) \<or>
             (\<exists>t. calls s t = F_Alias (ref_index ref, ref_generation ref) a)))"
proof -
  note inv = aliases.reach_inv [OF assms(1)]
  then have reg: "registry_inv (registry_use s)"
    and table: "(alias_to_handle s b = Some h) = (\<exists>k. holds s b h k)" for b h
    using assms(2) registry.reach_inv unfolding system_inv_def alias_inv_def by blast+
  note ref = lookup_handle [OF reg]
  show ?thesis
  proof (intro conjI impI)
    assume l: "lookup (registry (registry_use s)) i g = Some r \<and> ref_alias (runner_ref r) = Some a"
    then have "holds s a (i, g) None" by simp
    then have "alias_to_handle s a = Some (i, g)" using table by blast
    then show "try_get_actor_ref_by_alias a s = Inr (Some (runner_ref r))"
      using assms(2) l ref by (auto simp: try_get_actor_ref_by_alias_def runner_handle_def intro: actor_ref_eqI)
  next
    assume res: "try_get_actor_ref_by_alias a s = Inr (Some ref)"
    then show "ref_alias ref = Some a" using assms(2) by (auto simp: try_get_actor_ref_by_alias_def split: option.splits)
    have "alias_to_handle s a = Some (ref_index ref, ref_generation ref)"
      using res assms(2) by (auto simp: try_get_actor_ref_by_alias_def split: option.splits)
    then obtain k where k: "holds s a (ref_index ref, ref_generation ref) k" using table by blast
    show "(\<exists>r. lookup (registry (registry_use s)) (ref_index ref) (ref_generation ref) = Some r \<and> runner_ref r = ref) \<or>
             (\<exists>t r. calls s t = S_Commit r \<and> runner_ref r = ref) \<or>
             (\<exists>t. calls s t = F_Alias (ref_index ref, ref_generation ref) a)"
    proof (cases k)
      case None
      then show ?thesis
        using k ref \<open>ref_alias ref = Some a\<close> by (auto simp: runner_handle_def intro: actor_ref_eqI)
    next
      case (Some t)
      then show ?thesis
        using k \<open>ref_alias ref = Some a\<close>
        by (cases "calls s t") (auto simp: runner_handle_def, metis actor_ref_eqI)
    qed
  qed
qed

text \<open>The dispatchers of a system are fixed, and there is at least one.\<close>

lemma spawn_step_count: "spawn_step t pc s = Some s' \<Longrightarrow> dispatcher_count s' = dispatcher_count s"
  by (erule spawn_step.elims) (auto simp: map_option_case split: option.splits prod.splits sum.splits if_splits)

lemma shutdown_step_count: "shutdown_step t e pc s = Some s' \<Longrightarrow> dispatcher_count s' = dispatcher_count s"
  by (erule shutdown_step.elims) (auto split: if_splits)

lemma system_step_count: "system_step s s' \<Longrightarrow> dispatcher_count s' = dispatcher_count s"
  by (erule system_step.cases)
     (auto simp: finalize_remove_def finalize_alias_def set_dead_letter_callback_def clear_dead_letter_callback_def
       split: prod.splits dest: spawn_step_count shutdown_step_count)

lemma dispatchers_exist: "system_reach s \<Longrightarrow> 0 < dispatcher_count s"
proof (induction rule: reach.induct)
  case (reach_init s)
  then show ?case by (auto simp: fresh_system_def with_capacities_def unat_gt_0 split: if_splits)
qed (simp add: system_step_count)

section \<open>A spawn on its own\<close>

text \<open>A whole spawn by thread \<open>t\<close> that no other thread interrupts.\<close>

definition spawn_next :: "nat \<Rightarrow> actor_system \<Rightarrow> actor_system" where
  "spawn_next t = advance (\<lambda>s. spawn_step t (calls s t) s)"

definition spawn_call :: "nat \<Rightarrow> spawn_request \<Rightarrow> actor_system \<Rightarrow> actor_system" where
  "spawn_call t req s = (spawn_next t ^^ 7) (goto t (S_Disposed req) s)"

lemma spawn_next_eq: "spawn_step t (calls s t) s = Some s' \<Longrightarrow> spawn_next t s = s'"
  by (simp add: spawn_next_def advance_def)

lemma spawn_next_stuck: "spawn_step t (calls s t) s = None \<Longrightarrow> spawn_next t s = s"
  by (simp add: spawn_next_def advance_def)

lemma goto_goto [simp]: "goto t pc (goto t pc' s) = goto t pc s"
  by (simp add: goto_def)

lemma spawn_next_goto:
  "spawn_next t (goto t (S_Disposed req) s) =
     goto t (if is_disposed s then Y_Panicked Actor_System_Disposed else S_Index req) s"
  "(\<And>i. req_dispatcher req = Some i \<Longrightarrow> unat i < dispatcher_count s) \<Longrightarrow>
     spawn_next t (goto t (S_Index req) s) = goto t (S_AliasCheck req) s"
  "(\<And>a. req_alias req = Some a \<Longrightarrow> \<not> alias_poisoned s \<and> alias_to_handle s a = None) \<Longrightarrow>
     spawn_next t (goto t (S_AliasCheck req) s) = goto t (S_Reserve req) s"
  "spawn_next t (goto t (Y_Panicked p) s) = goto t (Y_Panicked p) s"
  by (auto intro!: spawn_next_eq spawn_next_stuck split: option.split)

lemma spawn_next_panicked: "(spawn_next t ^^ n) (goto t (Y_Panicked p) s) = goto t (Y_Panicked p) s"
  by (induction n) (simp_all add: spawn_next_goto)

lemma fresh_runner_built:
  assumes "req_context req = new_context" "2 \<le> unat (req_capacity req)" "unat (req_capacity req) \<le> 2 ^ 63"
    "dispatcher_index = (case req_dispatcher req of Some i \<Rightarrow> unat i | None \<Rightarrow> unat (fst h) mod count)" "dispatcher_index < count"
  shows "build_runner count req h =
     Some (Inr \<lparr>runner_ref = \<lparr>ref_index = fst h, ref_generation = snd h, ref_alias = req_alias req\<rparr>,
                runner_dispatcher = dispatcher_index, runner_mailbox_capacity = req_capacity req\<rparr>)"
proof -
  obtain q :: "nat mpsc_queue" where "new_queue (req_capacity req) = Some (Inr q)"
    using new_queue_inv [OF assms(2,3)] by metis
  then show ?thesis
    using assms by (simp add: build_runner_def initialize_def new_context_def Let_def)
qed

lemma spawn_checks:
  assumes "\<not> is_disposed s" "\<And>i. req_dispatcher req = Some i \<Longrightarrow> unat i < dispatcher_count s"
    "\<And>a. req_alias req = Some a \<Longrightarrow> \<not> alias_poisoned s \<and> alias_to_handle s a = None"
  shows "(spawn_next t ^^ 3) (goto t (S_Disposed req) s) = goto t (S_Reserve req) s"
proof -
  have "spawn_next t (goto t (S_Disposed req) s) = goto t (S_Index req) s" "spawn_next t (goto t (S_Index req) s) = goto t (S_AliasCheck req) s"
    "spawn_next t (goto t (S_AliasCheck req) s) = goto t (S_Reserve req) s"
    using assms by (simp_all add: spawn_next_goto)
  then show ?thesis by (simp add: numeral_3_eq_3)
qed

lemma spawn_finish:
  assumes free: "\<And>a. req_alias req = Some a \<Longrightarrow> \<not> alias_poisoned s \<and> alias_to_handle s a = None"
    and res: "reserve (registry (registry_use s)) = (Inr h, reg)"
    and r: "build_runner (dispatcher_count s) req h = Some (Inr r)" "runner_handle r = h" "ref_alias (runner_ref r) = req_alias req"
    and com: "commit (fst h) r reg = (Inr (), reg')"
  shows "(spawn_next t ^^ 4) (goto t (S_Reserve req) s) = goto t (S_Done (runner_ref r))
     (set_use ((registry_use s)\<lparr>registry := reg', pending := insert h (pending (registry_use s)) - {h},
                               issued := issued (registry_use s) @ [h]\<rparr>)
       (case req_alias req of None \<Rightarrow> s | Some a \<Rightarrow> s\<lparr>alias_to_handle := (alias_to_handle s)(a \<mapsto> h)\<rparr>))"
proof -
  let ?s1 = "set_use ((registry_use s)\<lparr>registry := reg, pending := insert h (pending (registry_use s)),
      issued := issued (registry_use s) @ [h]\<rparr>) s"
  let ?s2 = "case req_alias req of None \<Rightarrow> ?s1 | Some a \<Rightarrow> ?s1\<lparr>alias_to_handle := (alias_to_handle s)(a \<mapsto> h)\<rparr>"
  have 4: "spawn_next t (goto t (S_Reserve req) s) = goto t (S_Build req h) ?s1"
    using res by (intro spawn_next_eq) (simp add: goto_def set_use_def)
  have 5: "spawn_next t (goto t (S_Build req h) ?s1) = goto t (S_AliasInsert r) ?s1"
    using r(1) by (intro spawn_next_eq) simp
  have 6: "spawn_next t (goto t (S_AliasInsert r) ?s1) = goto t (S_Commit r) ?s2"
    using free r(2,3) by (intro spawn_next_eq) (auto simp: goto_def set_use_def split: option.split)
  have 7: "spawn_next t (goto t (S_Commit r) ?s2) = goto t (S_Done (runner_ref r))
     (set_use ((registry_use s)\<lparr>registry := reg', pending := insert h (pending (registry_use s)) - {h},
                               issued := issued (registry_use s) @ [h]\<rparr>)
       (case req_alias req of None \<Rightarrow> s | Some a \<Rightarrow> s\<lparr>alias_to_handle := (alias_to_handle s)(a \<mapsto> h)\<rparr>))"
    using com r(2) by (intro spawn_next_eq) (simp add: goto_def set_use_def split: option.split)
  have "(spawn_next t ^^ 4) x = spawn_next t (spawn_next t (spawn_next t (spawn_next t x)))" for x
    by (simp add: eval_nat_numeral)
  then show ?thesis by (simp only: 4 5 6 7)
qed

lemma spawn_call_run:
  assumes "\<not> is_disposed s" "\<And>i. req_dispatcher req = Some i \<Longrightarrow> unat i < dispatcher_count s"
    and free: "\<And>a. req_alias req = Some a \<Longrightarrow> \<not> alias_poisoned s \<and> alias_to_handle s a = None"
    and res: "reserve (registry (registry_use s)) = (Inr h, reg)"
    and r: "build_runner (dispatcher_count s) req h = Some (Inr r)" "runner_handle r = h" "ref_alias (runner_ref r) = req_alias req"
    and com: "commit (fst h) r reg = (Inr (), reg')"
  shows "spawn_call t req s = goto t (S_Done (runner_ref r))
     (set_use ((registry_use s)\<lparr>registry := reg', pending := insert h (pending (registry_use s)) - {h},
                               issued := issued (registry_use s) @ [h]\<rparr>)
       (case req_alias req of None \<Rightarrow> s | Some a \<Rightarrow> s\<lparr>alias_to_handle := (alias_to_handle s)(a \<mapsto> h)\<rparr>))"
proof -
  have "(spawn_next t ^^ 7) x = (spawn_next t ^^ 4) ((spawn_next t ^^ 3) x)" for x
    by (simp add: eval_nat_numeral)
  then show ?thesis
    unfolding spawn_call_def by (simp only: spawn_checks [OF assms(1,2) free] spawn_finish [OF free res r com])
qed

text \<open>
  C22: a spawn that nothing interrupts. On a system that is not disposed, with a dispatcher index in
  range, an alias that is not in use, a fresh actor, a mailbox capacity from 2 to \<open>2 ^ 63\<close> and a free
  slot, it returns the reference of a new actor: the registry then holds, under the reserved handle and
  in addition to what it held, a runner with the requested alias and mailbox capacity, on the requested
  dispatcher or on the one the slot index selects; the alias resolves to it.
\<close>

theorem spawn_registers_actor:
  assumes reach: "system_reach s"
    and req: "\<not> is_disposed s" "req_context req = new_context" "2 \<le> unat (req_capacity req)" "unat (req_capacity req) \<le> 2 ^ 63"
      "\<And>i. req_dispatcher req = Some i \<Longrightarrow> unat i < dispatcher_count s"
      "\<And>a. req_alias req = Some a \<Longrightarrow> \<not> alias_poisoned s \<and> alias_to_handle s a = None"
    and res: "reserve (registry (registry_use s)) = (Inr h, reg)"
  shows "\<exists>r. calls (spawn_call t req s) t = S_Done (runner_ref r) \<and>
     runner_handle r = h \<and> ref_alias (runner_ref r) = req_alias req \<and> runner_mailbox_capacity r = req_capacity req \<and>
     runner_dispatcher r = (case req_dispatcher req of Some i \<Rightarrow> unat i | None \<Rightarrow> unat (fst h) mod dispatcher_count s) \<and>
     runner_dispatcher r < dispatcher_count s \<and>
     (\<forall>i g. lookup (registry (registry_use (spawn_call t req s))) i g =
        (if (i, g) = h then Some r else lookup (registry (registry_use s)) i g)) \<and>
     (\<forall>a. req_alias req = Some a \<longrightarrow> try_get_actor_ref_by_alias a (spawn_call t req s) = Inr (Some (runner_ref r)))"
proof -
  define d where "d = (case req_dispatcher req of Some i \<Rightarrow> unat i | None \<Rightarrow> unat (fst h) mod dispatcher_count s)"
  define r where "r = \<lparr>runner_ref = \<lparr>ref_index = fst h, ref_generation = snd h, ref_alias = req_alias req\<rparr>,
      runner_dispatcher = d, runner_mailbox_capacity = req_capacity req\<rparr>"
  have reg_inv: "registry_inv (registry_use s)" and count: "0 < dispatcher_count s"
    using system.reach_inv [OF reach] registry.reach_inv dispatchers_exist [OF reach] by (auto simp: system_inv_def)
  have d: "d < dispatcher_count s" using req(5) count by (simp add: d_def split: option.split)
  have r: "build_runner (dispatcher_count s) req h = Some (Inr r)" "runner_handle r = h" "ref_alias (runner_ref r) = req_alias req"
    using fresh_runner_built [OF req(2,3,4) d_def d] by (simp_all add: r_def runner_handle_def)
  let ?u = "(registry_use s)\<lparr>registry := reg, pending := insert h (pending (registry_use s)), issued := issued (registry_use s) @ [h]\<rparr>"
  have inv: "registry_inv ?u" by (rule registry_inv_reserve [OF reg_inv res])
  have pend: "runner_handle r \<in> pending ?u" using r(2) by simp
  obtain out reg' where "commit (fst (runner_handle r)) r (registry ?u) = (out, reg')" by fastforce
  then have com: "commit (fst h) r reg = (Inr (), reg')"
    and look: "lookup reg' i g = (if (i, g) = h then Some r else lookup (registry (registry_use s)) i g)" for i g
    using registry_inv_commit(2) [OF inv pend] lookup_commit [OF inv pend] lookup_reserve(1) [OF reg_inv res] r(2) by simp_all
  have "runner_ref r = \<lparr>ref_index = fst h, ref_generation = snd h, ref_alias = req_alias req\<rparr>" by (simp add: r_def)
  then show ?thesis
    using spawn_call_run [OF req(1,5,6) res r com, of t] look r d req(6)
    by (intro exI [of _ r]) (auto simp: try_get_actor_ref_by_alias_def r_def d_def split: option.split)
qed

text \<open>
  A spawn that is refused before it reserves a slot changes nothing: it panics because the system is
  disposed, else because the dispatcher index is out of range, else because the alias is in use.
\<close>

theorem refused_spawn_changes_nothing:
  shows "(is_disposed s \<longrightarrow> spawn_call t req s = goto t (Y_Panicked Actor_System_Disposed) s) \<and>
   (\<not> is_disposed s \<and> req_dispatcher req = Some i \<and> dispatcher_count s \<le> unat i \<longrightarrow>
      spawn_call t req s = goto t (Y_Panicked Dispatcher_Index_Out_Of_Range) s) \<and>
   (\<not> is_disposed s \<and> (\<forall>i. req_dispatcher req = Some i \<longrightarrow> unat i < dispatcher_count s) \<and>
      \<not> alias_poisoned s \<and> req_alias req = Some a \<and> alias_to_handle s a = Some h \<longrightarrow>
      spawn_call t req s = goto t (Y_Panicked (Duplicate_Actor_Alias a)) s)"
proof (intro conjI impI)
  have peel: "(spawn_next t ^^ 7) x = (spawn_next t ^^ 4) (spawn_next t (spawn_next t (spawn_next t x)))" for x
    by (simp add: eval_nat_numeral funpow_swap1)
  assume "is_disposed s"
  then show "spawn_call t req s = goto t (Y_Panicked Actor_System_Disposed) s"
    by (simp add: spawn_call_def peel spawn_next_goto spawn_next_panicked)
next
  have peel: "(spawn_next t ^^ 7) x = (spawn_next t ^^ 5) (spawn_next t (spawn_next t x))" for x
    by (simp add: eval_nat_numeral funpow_swap1)
  assume req: "\<not> is_disposed s \<and> req_dispatcher req = Some i \<and> dispatcher_count s \<le> unat i"
  then have "spawn_next t (goto t (S_Index req) s) = goto t (Y_Panicked Dispatcher_Index_Out_Of_Range) s"
    by (intro spawn_next_eq) simp
  then show "spawn_call t req s = goto t (Y_Panicked Dispatcher_Index_Out_Of_Range) s"
    using req by (simp add: spawn_call_def peel spawn_next_goto spawn_next_panicked)
next
  have peel: "(spawn_next t ^^ 7) x = (spawn_next t ^^ 4) (spawn_next t (spawn_next t (spawn_next t x)))" for x
    by (simp add: eval_nat_numeral funpow_swap1)
  assume req: "\<not> is_disposed s \<and> (\<forall>i. req_dispatcher req = Some i \<longrightarrow> unat i < dispatcher_count s) \<and>
      \<not> alias_poisoned s \<and> req_alias req = Some a \<and> alias_to_handle s a = Some h"
  then have "spawn_next t (goto t (S_AliasCheck req) s) = goto t (Y_Panicked (Duplicate_Actor_Alias a)) s"
    by (intro spawn_next_eq) (auto simp: goto_def)
  then show "spawn_call t req s = goto t (Y_Panicked (Duplicate_Actor_Alias a)) s"
    using req by (simp add: spawn_call_def peel spawn_next_goto spawn_next_panicked)
qed

section \<open>Slots that leak\<close>

text \<open>A pending handle that no thread holds.\<close>

definition leaked :: "handle \<Rightarrow> actor_system \<Rightarrow> bool" where
  "leaked h s \<longleftrightarrow> h \<in> pending (registry_use s) \<and> (\<forall>t. pc_handle (calls s t) \<noteq> Some h)"

lemma effect_leaked:
  assumes "system_effect t s s'" "system_inv s" "leaked h s"
  shows "leaked h s'"
  using assms(1)
proof cases
  case quiet
  then have "pc_handle (calls s' u) = Some h \<Longrightarrow> pc_handle (calls s u) = Some h" for u
    by (cases "u = t") (auto simp: quiet_def)
  then show ?thesis using assms(3) quiet unfolding leaked_def quiet_def by metis
next
  case (reserve g reg req)
  have "g \<notin> pending (registry_use s)"
    using lookup_reserve(2) [OF registry.reach_inv reserve(1)] assms(2) by (simp add: system_inv_def)
  then show ?thesis using assms(3) reserve by (auto simp: leaked_def)
next
  case (insert r a)
  then have "pc_handle (calls s' u) = pc_handle (calls s u)" for u by simp
  then show ?thesis using assms(3) insert by (simp add: leaked_def)
next
  case (commit r res reg)
  have "runner_handle r \<noteq> h" using assms(3) commit(1) unfolding leaked_def by (metis pc_handle.simps(3))
  moreover have "pc_handle (calls s' t) = None" using commit by (simp split: sum.split)
  ultimately show ?thesis using assms(3) commit by (auto simp: leaked_def)
next
  case (remove g res reg)
  then have "pc_handle (calls s' u) = pc_handle (calls s u)" for u
    by (simp split: sum.split option.split)
  then show ?thesis using assms(3) remove by (simp add: leaked_def)
qed (use assms(3) in \<open>auto simp: leaked_def\<close>)

lemma pending_is_live:
  assumes "registry_inv u" "h \<in> pending u"
  shows "live_count (registry u) \<noteq> Inr 0"
proof -
  have "finite (pending u)" by simp
  then have "0 < card (pending u)" using assms(2) card_gt_0_iff by blast
  then show ?thesis using live_counts [OF assms(1)] by (auto simp: live_count_def)
qed

lemma spawn_step_pc: "spawn_step t pc s = Some s' \<Longrightarrow> calls s' u = D_StopDispatchers i \<Longrightarrow> calls s u = D_StopDispatchers i"
  by (erule spawn_step.elims)
     (auto simp: map_option_case split: option.splits prod.splits sum.splits if_splits)

lemma shutdown_step_pc:
  "shutdown_step t e (calls s t) s = Some s' \<Longrightarrow> calls s' u = D_StopDispatchers i \<Longrightarrow>
     (\<exists>j. calls s u = D_StopDispatchers j) \<or> calls s u = D_Wait \<and> live_count (registry (registry_use s)) = Inr 0"
  by (cases "(t, e, calls s t, s)" rule: shutdown_step.cases) (auto split: if_splits sum.splits)

lemma stop_entry:
  assumes "system_step s s'" "calls s' u = D_StopDispatchers i"
  shows "(\<exists>j. calls s u = D_StopDispatchers j) \<or> calls s u = D_Wait \<and> live_count (registry (registry_use s)) = Inr 0"
  using assms(1)
proof cases
  case (start_finalize t h)
  then show ?thesis
    using assms(2) by (auto simp: finalize_remove_def split: prod.splits sum.splits option.splits if_splits)
qed (use assms(2) spawn_step_pc shutdown_step_pc in
    \<open>auto simp: finalize_alias_def set_dead_letter_callback_def clear_dead_letter_callback_def split: if_splits\<close>)

lemma leaked_for_ever:
  assumes "system_step\<^sup>*\<^sup>* s s'" "system_inv s" "leaked h s"
  shows "system_inv s' \<and> leaked h s' \<and> (\<forall>u i. calls s' u = D_StopDispatchers i \<longrightarrow> (\<exists>j. calls s u = D_StopDispatchers j))"
  using assms
proof (induction rule: rtranclp.induct)
  case (rtrancl_into_rtrancl a b c)
  then have inv: "system_inv b" "leaked h b" and old: "\<And>u i. calls b u = D_StopDispatchers i \<Longrightarrow> \<exists>j. calls a u = D_StopDispatchers j"
    by blast+
  have "live_count (registry (registry_use b)) \<noteq> Inr 0"
    using pending_is_live registry.reach_inv inv unfolding system_inv_def leaked_def by blast
  then show ?case
    using stop_entry [OF rtrancl_into_rtrancl(2)] old system.inv_step [OF inv(1)] effect_leaked [OF _ inv]
      system_step_effect [OF rtrancl_into_rtrancl(2)] rtrancl_into_rtrancl(2) by blast
qed blast

text \<open>
  C23: a spawn that panics after it has reserved its slot never gives the slot back. It panics there when
  the actor's context is already in use, when the mailbox capacity is below 2 or above \<open>2 ^ 63\<close>, or when
  another spawn took the alias in the meantime; the last case also poisons the alias table. The
  handle stays pending for ever, no actor is ever registered under it, \<open>live_count\<close> is never 0 again,
  and no \<open>dispose\<close> or \<open>shutdown_timeout\<close> that has not already seen 0 ever gets to stop the dispatchers.
\<close>

theorem failed_spawn_leaks_slot:
  assumes "system_reach s" "pc_handle (calls s t) = Some h" "spawn_step t (calls s t) s = Some s1"
    "calls s1 t = Y_Panicked p" "system_step\<^sup>*\<^sup>* s1 s2"
  shows "h \<in> pending (registry_use s2) \<and> lookup (registry (registry_use s2)) (fst h) (snd h) = None \<and>
     live_count (registry (registry_use s2)) \<noteq> Inr 0 \<and>
     (\<forall>u i. calls s2 u = D_StopDispatchers i \<longrightarrow> (\<exists>j. calls s u = D_StopDispatchers j))"
proof -
  note inv = system.reach_inv [OF assms(1)]
  have step: "system_step s s1" using assms(3) by (rule system_step.spawn)
  have h: "h \<in> pending (registry_use s)" "\<And>u. pc_handle (calls s u) = Some h \<Longrightarrow> u = t"
    using inv assms(2) unfolding system_inv_def held_inv_def by blast+
  from spawn_effect [OF assms(3)] have "leaked h s1"
  proof cases
    case quiet
    have "pc_handle (calls s1 u) \<noteq> Some h" for u
      using h(2) [of u] quiet assms(4) by (cases "u = t") (auto simp: quiet_def)
    then show ?thesis using h(1) quiet by (simp add: leaked_def quiet_def)
  next
    case (commit r res reg)
    have "runner_handle r = h" using commit(1) assms(2) by simp
    then have "res = Inr ()"
      using registry_inv_commit(2) [of "registry_use s" r res reg] commit(2) h(1) inv registry.reach_inv by (simp add: system_inv_def)
    then show ?thesis using commit(3) assms(4) by simp
  qed (use assms(2,4) in auto)
  from leaked_for_ever [OF assms(5) system.inv_step [OF inv step] this] have
    after: "system_inv s2" "h \<in> pending (registry_use s2)"
      "\<And>u i. calls s2 u = D_StopDispatchers i \<Longrightarrow> \<exists>j. calls s1 u = D_StopDispatchers j" by (auto simp: leaked_def)
  then have reg: "registry_inv (registry_use s2)" using registry.reach_inv by (simp add: system_inv_def)
  show ?thesis
    using pending_lookup [OF reg after(2)] pending_is_live [OF reg after(2)] after(2,3) spawn_step_pc [OF assms(3)] by blast
qed

section \<open>Shutdown\<close>

definition shutdown_next :: "nat \<Rightarrow> actor_system \<Rightarrow> actor_system" where
  "shutdown_next t = advance (\<lambda>s. shutdown_step t False (calls s t) s)"

lemma shutdown_next_eq: "shutdown_step t False (calls s t) s = Some s' \<Longrightarrow> shutdown_next t s = s'"
  by (simp add: shutdown_next_def advance_def)

lemma kill_loop:
  "(shutdown_next t ^^ Suc (length rs)) (goto t (D_Kill rs) s) =
     goto t D_Wait (s\<lparr>kill_requests := kill_requests s @ map runner_handle rs\<rparr>)"
proof (induction rs arbitrary: s)
  case Nil
  have "shutdown_next t (goto t (D_Kill []) s) = goto t D_Wait s" by (intro shutdown_next_eq) simp
  then show ?case by simp
next
  case (Cons r rs)
  have "shutdown_next t (goto t (D_Kill (r # rs)) s) = goto t (D_Kill rs) (s\<lparr>kill_requests := kill_requests s @ [runner_handle r]\<rparr>)"
    by (intro shutdown_next_eq) (simp add: goto_def)
  then show ?case using Cons.IH by (simp only: length_Cons funpow_Suc_right [of "Suc (length rs)"] comp_def) simp
qed

text \<open>
  Take a shutdown that no other thread interrupts, on a registry whose mutex is not poisoned. If it is the first it stops the ask system and then kills every registered
  actor exactly once before it begins to wait; a later one kills nothing and waits at once. The
  registry itself is not changed by either.
\<close>

theorem begin_shutdown_kills_every_actor:
  assumes "system_reach s" "\<not> alloc_poisoned (registry (registry_use s))"
  shows "\<exists>n hs s'. s' = (shutdown_next t ^^ n) (goto t D_Swap s) \<and> calls s' t = D_Wait \<and> is_disposed s' \<and>
     registry_use s' = registry_use s \<and> kill_requests s' = kill_requests s @ hs \<and> distinct hs \<and>
     (is_disposed s \<longrightarrow> hs = []) \<and>
     (\<not> is_disposed s \<longrightarrow> asks_stopped s' \<and>
        (\<forall>h. h \<in> set hs \<longleftrightarrow> lookup (registry (registry_use s)) (fst h) (snd h) \<noteq> None))"
proof (cases "is_disposed s")
  case True
  then have "shutdown_next t (goto t D_Swap s) = goto t D_Wait s"
    by (intro shutdown_next_eq) (simp add: goto_def)
  then show ?thesis using True by (intro exI [of _ 1] exI [of _ "[]"]) simp
next
  case False
  have inv: "registry_inv (registry_use s)" using system.reach_inv [OF assms(1)] registry.reach_inv by (simp add: system_inv_def)
  from snapshot_exact [OF inv assms(2)] obtain rs where
    rs: "snapshot_live (registry (registry_use s)) = Inr rs" "distinct rs"
      "\<And>r. r \<in> set rs \<longleftrightarrow> lookup (registry (registry_use s)) (fst (runner_handle r)) (snd (runner_handle r)) = Some r"
    by blast
  define hs where "hs = map runner_handle rs"
  have dist: "distinct hs" unfolding hs_def using rs(2,3) by (auto simp: distinct_map inj_on_def)
  have mem: "h \<in> set hs \<longleftrightarrow> lookup (registry (registry_use s)) (fst h) (snd h) \<noteq> None" for h
  proof (cases "lookup (registry (registry_use s)) (fst h) (snd h)")
    case None
    then show ?thesis unfolding hs_def using rs(3) by auto
  next
    case (Some r)
    then have "runner_handle r = h" using lookup_handle [OF inv] by simp
    then show ?thesis unfolding hs_def using Some rs(3) [of r] by auto
  qed
  have run: "(shutdown_next t ^^ (Suc (length rs) + 3)) (goto t D_Swap s) =
      goto t D_Wait (s\<lparr>is_disposed := True, asks_stopped := True, kill_requests := kill_requests s @ hs\<rparr>)"
  proof -
    have "shutdown_next t (goto t D_Swap s) = goto t D_StopAsks (s\<lparr>is_disposed := True\<rparr>)"
      "shutdown_next t (goto t D_StopAsks (s\<lparr>is_disposed := True\<rparr>)) = goto t D_Snapshot (s\<lparr>is_disposed := True, asks_stopped := True\<rparr>)"
      "shutdown_next t (goto t D_Snapshot (s\<lparr>is_disposed := True, asks_stopped := True\<rparr>)) =
         goto t (D_Kill rs) (s\<lparr>is_disposed := True, asks_stopped := True\<rparr>)"
      using False rs(1) by (auto intro!: shutdown_next_eq simp: goto_def)
    then have "(shutdown_next t ^^ 3) (goto t D_Swap s) = goto t (D_Kill rs) (s\<lparr>is_disposed := True, asks_stopped := True\<rparr>)"
      by (simp add: numeral_3_eq_3)
    then show ?thesis using kill_loop [of rs t] by (simp only: funpow_add comp_def hs_def) simp
  qed
  show ?thesis
    unfolding run [symmetric]
    by (rule exI [of _ "Suc (length rs) + 3"], rule exI [of _ hs], rule exI, rule conjI, rule refl)
       (simp only: run, simp add: False dist mem)
qed

text \<open>
  A shutdown passes on to stopping the dispatchers exactly when it finds the registry without
  registered actors and without spawns in progress.
\<close>

theorem shutdown_waits_for_every_actor:
  assumes "system_reach s" "shutdown_step t expired D_Wait s = Some s'"
  shows "calls s' t = D_StopDispatchers 0 \<longleftrightarrow>
     \<not> alloc_poisoned (registry (registry_use s)) \<and> pending (registry_use s) = {} \<and>
     (\<forall>i g. lookup (registry (registry_use s)) i g = None)"
proof -
  let ?u = "registry_use s"
  have inv: "registry_inv ?u" using system.reach_inv [OF assms(1)] registry.reach_inv by (simp add: system_inv_def)
  have "calls s' t = D_StopDispatchers 0 \<longleftrightarrow> live_count (registry ?u) = Inr 0"
    using assms(2) by (auto split: sum.splits if_splits)
  also have "\<dots> \<longleftrightarrow> \<not> alloc_poisoned (registry ?u) \<and> card (pending ?u) + length (owned_positions (registry ?u)) = 0"
    unfolding live_counts [OF inv] by (simp add: live_count_def unat_eq_0)
  also have "card (pending ?u) + length (owned_positions (registry ?u)) = 0 \<longleftrightarrow>
      pending ?u = {} \<and> (\<forall>i g. lookup (registry ?u) i g = None)"
  proof -
    have "owned_positions (registry ?u) = [] \<longleftrightarrow> (\<forall>i g. lookup (registry ?u) i g = None)"
    proof
      assume "owned_positions (registry ?u) = []"
      then have "k < unat (next_unused (registry ?u)) \<Longrightarrow> owner_at (registry ?u) k = None" for k
        by (simp add: filter_empty_conv)
      then show "\<forall>i g. lookup (registry ?u) i g = None"
        using lookup_owner [OF inv] by (metis not_None_eq option.distinct(1))
    next
      assume "\<forall>i g. lookup (registry ?u) i g = None"
      then show "owned_positions (registry ?u) = []" using owner_lookup(1) [OF inv]
        unfolding filter_empty_conv by (metis atLeastLessThan_iff not_Some_eq set_upt)
    qed
    then show ?thesis by simp
  qed
  finally show ?thesis .
qed

section \<open>A system with one dispatcher and two slots\<close>

lemma reach_calls:
  "system_reach s \<Longrightarrow> system_reach ((spawn_next t ^^ n) s)" "system_reach s \<Longrightarrow> system_reach ((shutdown_next t ^^ n) s)"
  "system_reach s \<Longrightarrow> calls s t = Y_Idle \<Longrightarrow> system_reach (goto t (S_Disposed req) s)"
  "system_reach s \<Longrightarrow> calls s t = Y_Idle \<Longrightarrow> system_reach (goto t D_Swap s)"
proof -
  have "spawn_next t s = s \<or> system_step s (spawn_next t s)" "shutdown_next t s = s \<or> system_step s (shutdown_next t s)" for s
    by (auto simp: spawn_next_def shutdown_next_def advance_def split: option.split
        intro: system_step.spawn system_step.shutdown)
  then show "system_reach s \<Longrightarrow> system_reach ((spawn_next t ^^ n) s)" "system_reach s \<Longrightarrow> system_reach ((shutdown_next t ^^ n) s)"
    by (auto intro: reach_funpow)
qed (auto intro: reach_step system_step.start_spawn system_step.start_shutdown)

definition demo_system :: actor_system where
  "demo_system = \<lparr>registry_use = two_slots_use, alias_to_handle = Map.empty, alias_poisoned = False,
     dispatcher_count = 1, is_disposed = False, dead_letter_callback = None, asks_stopped = False, dispatchers_stopped = {}, kill_requests = [],
     calls = (\<lambda>_. Y_Idle)\<rparr>"

lemma demo_system_reach: "system_reach demo_system"
proof (rule reach_init)
  have "with_capacities 1 2 8 = Inr demo_system"
    by (simp add: with_capacities_def demo_system_def two_slots_use_def)
  then show "fresh_system demo_system" unfolding fresh_system_def by blast
qed

definition demo_request :: spawn_request where
  "demo_request = spawn_with_alias new_context ''a''"

lemma demo_request_simps:
  "req_dispatcher demo_request = None" "req_alias demo_request = Some ''a''" "req_context demo_request = new_context"
  "req_capacity demo_request = 1024"
  by (simp_all add: demo_request_def spawn_with_alias_def spawn_with_options_def spawn_with_auto_dispatcher_def
      DEFAULT_MAILBOX_CAPACITY_def)

definition demo_actor :: actor_runner where
  "demo_actor = \<lparr>runner_ref = \<lparr>ref_index = 0, ref_generation = 1, ref_alias = Some ''a''\<rparr>, runner_dispatcher = 0,
     runner_mailbox_capacity = 1024\<rparr>"

lemma demo_built: "build_runner 1 demo_request (0, 1) = Some (Inr demo_actor)"
  by (subst fresh_runner_built) (simp_all add: demo_request_simps demo_actor_def)

lemma demo_reserve:
  "reserve (registry two_slots_use) = (Inr (0, 1), registry (use_reserve two_slots_use))"
  by (simp add: use_simps)

definition spawned_system :: actor_system where
  "spawned_system = spawn_call 0 demo_request demo_system"

lemma spawned_system_reach: "system_reach spawned_system"
  unfolding spawned_system_def spawn_call_def
  by (intro reach_calls demo_system_reach) (simp add: demo_system_def)

theorem spawn_registers_actor_witness:
  "\<exists>r. calls spawned_system 0 = S_Done (runner_ref r) \<and> runner_handle r = (0, 1) \<and> runner_dispatcher r = 0 \<and>
     lookup (registry (registry_use spawned_system)) 0 1 = Some r \<and>
     try_get_actor_ref_by_alias ''a'' spawned_system = Inr (Some (runner_ref r))"
proof -
  note facts = spawn_registers_actor [OF demo_system_reach, of demo_request "(0, 1)" "registry (use_reserve two_slots_use)" 0]
  show ?thesis
    using facts demo_reserve unfolding spawned_system_def
    by (simp add: demo_request_simps) (force simp: demo_system_def)
qed

lemma demo_finish:
  assumes "registry_use s = two_slots_use" "alias_to_handle s = Map.empty" "\<not> alias_poisoned s" "dispatcher_count s = 1"
  shows "(spawn_next 0 ^^ 4) (goto 0 (S_Reserve demo_request) s) = goto 0 (S_Done (runner_ref demo_actor))
     (set_use (use_commit demo_actor (use_reserve two_slots_use)) (s\<lparr>alias_to_handle := [''a'' \<mapsto> (0, 1)]\<rparr>))"
proof -
  have com: "commit (fst (0, 1)) demo_actor (registry (use_reserve two_slots_use)) =
      (Inr (), registry (use_commit demo_actor (use_reserve two_slots_use)))"
    by (simp add: use_simps demo_actor_def)
  have r: "runner_handle demo_actor = (0, 1)" "ref_alias (runner_ref demo_actor) = req_alias demo_request"
    by (simp_all add: demo_actor_def runner_handle_def demo_request_simps)
  have u: "two_slots_use\<lparr>registry := registry (use_commit demo_actor (use_reserve two_slots_use)),
      pending := insert (0, 1) (pending two_slots_use) - {(0, 1)}, issued := issued two_slots_use @ [(0, 1)]\<rparr> =
      use_commit demo_actor (use_reserve two_slots_use)"
    by (simp add: use_simps demo_actor_def)
  have "(spawn_next 0 ^^ 4) (goto 0 (S_Reserve demo_request) s) = goto 0 (S_Done (runner_ref demo_actor))
     (set_use ((registry_use s)\<lparr>registry := registry (use_commit demo_actor (use_reserve two_slots_use)),
         pending := insert (0, 1) (pending (registry_use s)) - {(0, 1)}, issued := issued (registry_use s) @ [(0, 1)]\<rparr>)
       (case req_alias demo_request of None \<Rightarrow> s | Some a \<Rightarrow> s\<lparr>alias_to_handle := (alias_to_handle s)(a \<mapsto> (0, 1))\<rparr>))"
    by (rule spawn_finish [OF _ _ _ r com]) (use assms demo_reserve demo_built in simp_all)
  then show ?thesis unfolding assms(1,2) u by (simp add: demo_request_simps)
qed

lemma demo_checks:
  "(spawn_next 0 ^^ 3) (goto 0 (S_Disposed demo_request) demo_system) = goto 0 (S_Reserve demo_request) demo_system"
  by (rule spawn_checks) (simp_all add: demo_request_simps demo_system_def)

lemma spawned_system_eq:
  "spawned_system = goto 0 (S_Done (runner_ref demo_actor))
     (set_use (use_commit demo_actor (use_reserve two_slots_use)) (demo_system\<lparr>alias_to_handle := [''a'' \<mapsto> (0, 1)]\<rparr>))"
proof -
  have "spawned_system = (spawn_next 0 ^^ 4) ((spawn_next 0 ^^ 3) (goto 0 (S_Disposed demo_request) demo_system))"
    by (simp add: spawned_system_def spawn_call_def eval_nat_numeral)
  also have "\<dots> = (spawn_next 0 ^^ 4) (goto 0 (S_Reserve demo_request) demo_system)" by (simp only: demo_checks)
  also have "\<dots> = goto 0 (S_Done (runner_ref demo_actor))
     (set_use (use_commit demo_actor (use_reserve two_slots_use)) (demo_system\<lparr>alias_to_handle := [''a'' \<mapsto> (0, 1)]\<rparr>))"
    by (rule demo_finish) (simp_all add: demo_system_def)
  finally show ?thesis .
qed

lemma spawned_lookup:
  "lookup (registry (registry_use spawned_system)) 0 1 = Some demo_actor" "alias_poisoned spawned_system = False"
  "calls spawned_system = (\<lambda>_. Y_Idle)(0 := S_Done (runner_ref demo_actor))" "is_disposed spawned_system = False"
  "dispatcher_count spawned_system = 1" "alias_to_handle spawned_system = [''a'' \<mapsto> (0, 1)]"
  "alloc_poisoned (registry (registry_use spawned_system)) = False" "kill_requests spawned_system = []"
  by (simp_all add: spawned_system_eq use_simps demo_actor_def demo_system_def lookup_def)

theorem alias_table_is_exact_witness:
  "try_get_actor_ref_by_alias ''a'' spawned_system = Inr (Some (runner_ref demo_actor))"
  using alias_table_is_exact [OF spawned_system_reach, of 0 1 demo_actor "''a''"] spawned_lookup
  by (simp add: demo_actor_def)

theorem refused_spawn_changes_nothing_witness:
  "spawn_call 1 demo_request spawned_system = goto 1 (Y_Panicked (Duplicate_Actor_Alias ''a'')) spawned_system"
  using refused_spawn_changes_nothing [of spawned_system 1 demo_request 0 "''a''" "(0, 1)"] spawned_lookup
  by (simp add: demo_request_simps)

text \<open>A spawn with a mailbox of capacity 1, stopped where it is about to build the runner.\<close>

definition tiny_request :: spawn_request where
  "tiny_request = spawn_with_capacity new_context 1"

definition tiny_spawn :: actor_system where
  "tiny_spawn = (spawn_next 0 ^^ 4) (goto 0 (S_Disposed tiny_request) demo_system)"

lemma tiny_spawn_facts:
  "system_reach tiny_spawn" "calls tiny_spawn = (\<lambda>_. Y_Idle)(0 := S_Build tiny_request (0, 1))"
  "build_runner (dispatcher_count tiny_spawn) tiny_request (0, 1) = Some (Inl Capacity_Too_Small)"
proof -
  show "system_reach tiny_spawn"
    unfolding tiny_spawn_def by (intro reach_calls demo_system_reach) (simp add: demo_system_def)
  have req: "req_dispatcher tiny_request = None" "req_alias tiny_request = None" "req_context tiny_request = new_context"
    "req_capacity tiny_request = 1"
    by (simp_all add: tiny_request_def spawn_with_capacity_def spawn_with_options_def spawn_with_auto_dispatcher_def)
  have "(spawn_next 0 ^^ 3) (goto 0 (S_Disposed tiny_request) demo_system) = goto 0 (S_Reserve tiny_request) demo_system"
    by (rule spawn_checks) (simp_all add: req demo_system_def)
  then have "tiny_spawn = spawn_next 0 (goto 0 (S_Reserve tiny_request) demo_system)"
    by (simp add: tiny_spawn_def eval_nat_numeral)
  also have "\<dots> = goto 0 (S_Build tiny_request (0, 1)) (set_use (use_reserve two_slots_use) demo_system)"
    using demo_reserve by (intro spawn_next_eq) (simp add: demo_system_def goto_def set_use_def use_simps)
  finally have eq: "tiny_spawn = goto 0 (S_Build tiny_request (0, 1)) (set_use (use_reserve two_slots_use) demo_system)" .
  show "calls tiny_spawn = (\<lambda>_. Y_Idle)(0 := S_Build tiny_request (0, 1))" unfolding eq by (simp add: demo_system_def)
  show "build_runner (dispatcher_count tiny_spawn) tiny_request (0, 1) = Some (Inl Capacity_Too_Small)"
    unfolding eq using req by (simp add: build_runner_def initialize_def new_context_def new_queue_def demo_system_def Let_def)
qed

lemma shutdown_star: "system_step\<^sup>*\<^sup>* s ((shutdown_next t ^^ n) s)"
proof (induction n)
  case (Suc n)
  let ?s = "(shutdown_next t ^^ n) s"
  have "shutdown_next t ?s = ?s \<or> system_step ?s (shutdown_next t ?s)"
    by (auto simp: shutdown_next_def advance_def split: option.split intro: system_step.shutdown)
  then show ?case using Suc by (auto intro: rtranclp.rtrancl_into_rtrancl)
qed simp

text \<open>A \<open>dispose\<close> after it spins for ever.\<close>

theorem failed_spawn_leaks_slot_witness:
  "\<forall>n. live_count (registry (registry_use
     ((shutdown_next 1 ^^ n) (goto 1 D_Swap (goto 0 (Y_Panicked Capacity_Too_Small) tiny_spawn))))) \<noteq> Inr 0"
proof
  fix n
  let ?s1 = "goto 0 (Y_Panicked Capacity_Too_Small) tiny_spawn"
  note tiny = tiny_spawn_facts
  have "calls tiny_spawn 1 = Y_Idle"
    using tiny(2) by simp
  then have "system_step ?s1 (goto 1 D_Swap ?s1)" by (intro system_step.start_shutdown) simp
  then have star: "system_step\<^sup>*\<^sup>* ?s1 ((shutdown_next 1 ^^ n) (goto 1 D_Swap ?s1))"
    using shutdown_star by (meson converse_rtranclp_into_rtranclp)
  show "live_count (registry (registry_use ((shutdown_next 1 ^^ n) (goto 1 D_Swap ?s1)))) \<noteq> Inr 0"
    using failed_spawn_leaks_slot [OF tiny(1), of 0 "(0, 1)" ?s1 Capacity_Too_Small] tiny(2,3) star by simp
qed

text \<open>The requests of a shutdown of the system with one actor.\<close>

theorem begin_shutdown_kills_every_actor_witness:
  "\<exists>n. calls ((shutdown_next 1 ^^ n) (goto 1 D_Swap spawned_system)) 1 = D_Wait \<and>
     (0, 1) \<in> set (kill_requests ((shutdown_next 1 ^^ n) (goto 1 D_Swap spawned_system)))"
  using begin_shutdown_kills_every_actor [OF spawned_system_reach, of 1] spawned_lookup(1,4,7,8)
  by fastforce

theorem shutdown_waits_for_every_actor_witness:
  "\<exists>s'. shutdown_step 1 False D_Wait spawned_system = Some s' \<and> calls s' 1 \<noteq> D_StopDispatchers 0"
proof -
  obtain s' where "shutdown_step 1 False D_Wait spawned_system = Some s'" by simp
  with shutdown_waits_for_every_actor [OF spawned_system_reach this] spawned_lookup(1) show ?thesis
    by (metis option.distinct(1))
qed

section \<open>A spawn that overlaps a shutdown\<close>

text \<open>
  Thread 0 starts a spawn and is past the check of \<open>is_disposed\<close> when thread 1 runs a whole \<open>dispose\<close>;
  then thread 0 goes on.
\<close>

definition late_spawn :: actor_system where
  "late_spawn = (spawn_next 0 ^^ 4) ((shutdown_next 1 ^^ 7) (goto 1 D_Swap
     ((spawn_next 0 ^^ 3) (goto 0 (S_Disposed demo_request) demo_system))))"

lemma late_spawn_eq:
  "late_spawn = goto 0 (S_Done (runner_ref demo_actor))
     (set_use (use_commit demo_actor (use_reserve two_slots_use))
       (demo_system\<lparr>is_disposed := True, asks_stopped := True, dispatchers_stopped := {0}, alias_to_handle := [''a'' \<mapsto> (0, 1)]\<rparr>))"
proof -
  let ?A = "\<lambda>pc. goto 1 pc (goto 0 (S_Reserve demo_request) demo_system)"
  let ?B = "\<lambda>pc. goto 1 pc (goto 0 (S_Reserve demo_request) (demo_system\<lparr>is_disposed := True, asks_stopped := True\<rparr>))"
  let ?C = "demo_system\<lparr>is_disposed := True, asks_stopped := True, dispatchers_stopped := {0}\<rparr>"
  have empty: "snapshot_live (registry two_slots_use) = Inr []" "live_count (registry two_slots_use) = Inr 0"
    by (simp_all add: two_slots_use_def two_slots_registry snapshot_live_def live_count_def)
  have "shutdown_next 1 (shutdown_next 1 (?A D_Swap)) = ?B D_Snapshot"
    by (simp add: shutdown_next_def advance_def) (simp add: goto_def demo_system_def)
  moreover have "shutdown_next 1 (shutdown_next 1 (shutdown_next 1 (?B D_Snapshot))) = ?B (D_StopDispatchers 0)"
    using empty by (simp add: shutdown_next_def advance_def) (simp add: goto_def demo_system_def)
  moreover have "shutdown_next 1 (shutdown_next 1 (?B (D_StopDispatchers 0))) = goto 0 (S_Reserve demo_request) ?C"
    by (simp add: shutdown_next_def advance_def) (simp add: goto_def demo_system_def fun_upd_idem_iff fun_upd_twist)
  ultimately have "(shutdown_next 1 ^^ 7) (?A D_Swap) = goto 0 (S_Reserve demo_request) ?C"
    by (simp add: eval_nat_numeral)
  then have "late_spawn = (spawn_next 0 ^^ 4) (goto 0 (S_Reserve demo_request) ?C)"
    by (simp only: late_spawn_def demo_checks)
  also have "\<dots> = goto 0 (S_Done (runner_ref demo_actor))
     (set_use (use_commit demo_actor (use_reserve two_slots_use)) (?C\<lparr>alias_to_handle := [''a'' \<mapsto> (0, 1)]\<rparr>))"
    by (rule demo_finish) (simp_all add: demo_system_def)
  finally show ?thesis .
qed

text \<open>
  C24: an actor can outlive the system. In a reachable state a whole \<open>dispose\<close> has returned and every
  dispatcher is stopped, and yet a spawn that had passed its check of \<open>is_disposed\<close> before has returned a
  reference to an actor that is registered and that no shutdown has asked to stop; nothing will ever run it.
\<close>

theorem spawn_can_outlive_dispose:
  "\<exists>s r. system_reach s \<and> is_disposed s \<and> dispatchers_stopped s = {..<dispatcher_count s} \<and>
     (\<forall>t. calls s t = (if t = 0 then S_Done (runner_ref r) else Y_Idle)) \<and>
     lookup (registry (registry_use s)) (ref_index (runner_ref r)) (ref_generation (runner_ref r)) = Some r \<and>
     kill_requests s = []"
proof (intro exI conjI)
  show "system_reach late_spawn"
    unfolding late_spawn_def by (intro reach_calls demo_system_reach) (simp_all only: demo_checks, simp_all add: demo_system_def)
  show "is_disposed late_spawn" "dispatchers_stopped late_spawn = {..<dispatcher_count late_spawn}" "kill_requests late_spawn = []"
    "\<forall>t. calls late_spawn t = (if t = 0 then S_Done (runner_ref demo_actor) else Y_Idle)"
    by (auto simp: late_spawn_eq demo_system_def)
  show "lookup (registry (registry_use late_spawn)) (ref_index (runner_ref demo_actor)) (ref_generation (runner_ref demo_actor)) = Some demo_actor"
    by (simp add: late_spawn_eq use_simps demo_actor_def lookup_def)
qed

end
