(* ===== verification/Dead_Letters.thy ===== *)
theory Dead_Letters
  imports Messaging Actor_System
begin

text \<open>
  Dead letters: the messages of \<^verbatim>\<open>dead_letter/dead_letter_message.rs\<close>, \<^verbatim>\<open>dead_letter/dead_letter_reason.rs\<close> and
  \<^verbatim>\<open>dead_letter/actor_exception_message.rs\<close>, the one the runner publishes when user code panics (\<^verbatim>\<open>internals/actor_runner.rs\<close>), and how often that
  happens. \<open>panic_run\<close> is a run of the runner machine that counts the panics of user code on the way.
\<close>

section \<open>Data\<close>

datatype dead_letter_reason = Unknown | MailboxFull | RecipientInvalidated | ActorStopped | ActorSystemDisposed | ExecutionException

datatype 'm letter_content = User_Message 'm | Actor_Execution_Exception_Message

record ('m, 'r) dead_letter_message =
  letter_message :: "'m letter_content"
  letter_sender :: "'r option"
  recipient_actor_id :: i64
  detected_timestamp :: nat
  letter_reason :: dead_letter_reason

text \<open>\<open>now\<close> is what \<open>SystemTime::now\<close> returns.\<close>

definition new_dead_letter :: "nat \<Rightarrow> 'm letter_content \<Rightarrow> 'r option \<Rightarrow> i64 \<Rightarrow> dead_letter_reason \<Rightarrow> ('m, 'r) dead_letter_message" where
  "new_dead_letter now message sender recipient reason =
     \<lparr>letter_message = message, letter_sender = sender, recipient_actor_id = recipient, detected_timestamp = now, letter_reason = reason\<rparr>"

definition into_message :: "('m, 'r) dead_letter_message \<Rightarrow> 'm letter_content" where
  "into_message letter = letter_message letter"

record 'e actor_exception_message =
  exception_of :: 'e

definition new_exception_message :: "'e \<Rightarrow> 'e actor_exception_message" where
  "new_exception_message e = \<lparr>exception_of = e\<rparr>"

definition into_exception :: "'e actor_exception_message \<Rightarrow> 'e" where
  "into_exception m = exception_of m"

text \<open>\<open>publish_execution_exception\<close>: the letter, and the callback of the system that it goes to, if there is one.\<close>

definition execution_exception :: "nat \<Rightarrow> actor_ref \<Rightarrow> ('m, any_ref) dead_letter_message" where
  "execution_exception now r = new_dead_letter now Actor_Execution_Exception_Message None (ucast (ref_index r)) ExecutionException"

definition publish_execution_exception :: "nat \<Rightarrow> actor_ref \<Rightarrow> actor_system \<Rightarrow> (nat \<times> ('m, any_ref) dead_letter_message) option" where
  "publish_execution_exception now r sys = publish (execution_exception now r) sys"

section \<open>Panics of user code\<close>

fun user_code :: "'m execute_pc \<Rightarrow> bool" where
  "user_code (W_Polling _) \<longleftrightarrow> True"
| "user_code (W_Receive _) \<longleftrightarrow> True"
| "user_code _ \<longleftrightarrow> False"

inductive panic_run :: "nat \<Rightarrow> 'm runner \<Rightarrow> bool" where
  start: "fresh_runner s \<Longrightarrow> panic_run 0 s"
| code: "panic_run n s \<Longrightarrow> runner_step s s' \<Longrightarrow> (\<And>d. user_code (workers s d) \<Longrightarrow> workers s' d = workers s d) \<Longrightarrow> panic_run n s'"
| user: "panic_run n s \<Longrightarrow> user_code (workers s d) \<Longrightarrow> execute_step d u (workers s d) s = Some s' \<Longrightarrow>
     panic_run (if u = U_Panic then Suc n else n) s'"

text \<open>A worker between a panic and the dead letter for it; the actor is killed on the way.\<close>

fun failing :: "'m execute_pc \<Rightarrow> bool" where
  "failing (W_Fail1 _) \<longleftrightarrow> True"
| "failing (W_Fail2 _) \<longleftrightarrow> True"
| "failing (W_KillCas _) \<longleftrightarrow> True"
| "failing (W_KillSwap _) \<longleftrightarrow> True"
| "failing (W_KillSchedule _) \<longleftrightarrow> True"
| "failing (W_PublishException _) \<longleftrightarrow> True"
| "failing _ \<longleftrightarrow> False"

fun killed_by :: "'m execute_pc \<Rightarrow> bool" where
  "killed_by (W_KillSwap _) \<longleftrightarrow> True"
| "killed_by (W_KillSchedule _) \<longleftrightarrow> True"
| "killed_by (W_PublishException _) \<longleftrightarrow> True"
| "killed_by _ \<longleftrightarrow> False"

definition failures :: "'m runner \<Rightarrow> nat set" where
  "failures s = {d. failing (workers s d)}"

definition panic_inv :: "nat \<Rightarrow> 'm runner \<Rightarrow> bool" where
  "panic_inv n s \<longleftrightarrow> finite (failures s) \<and> n = exceptions s + card (failures s) \<and>
     (exceptions s > 0 \<or> (\<exists>d. killed_by (workers s d)) \<longrightarrow> lifecycle_state s \<noteq> LIFECYCLE_RUNNING)"

lemma exceptions_frame [simp]:
  "exceptions (set_thread t pc s) = exceptions s" "exceptions (set_worker d pc' s) = exceptions s"
  "exceptions (schedule_on d s) = exceptions s" "exceptions (update_driver f s) = exceptions s"
  by (simp_all add: set_thread_def set_worker_def schedule_on_def update_driver_def)

lemma execute_failing:
  assumes "execute_step d u (workers s d) s = Some s'"
  shows "workers s' = (workers s)(d := workers s' d)"
    "exceptions s' = exceptions s + (if \<exists>l. workers s d = W_PublishException l then 1 else 0)"
    "failing (workers s' d) \<longleftrightarrow> (if user_code (workers s d) then u = U_Panic
       else failing (workers s d) \<and> (\<nexists>l. workers s d = W_PublishException l))"
  by (use assms in \<open>cases "workers s d"; auto simp: Let_def split: if_splits option.splits prod.splits user_outcome.splits lifecycle.splits\<close>)+

lemma execute_killed:
  assumes "execute_step d u (workers s d) s = Some s'"
  shows "lifecycle_state s \<noteq> LIFECYCLE_RUNNING \<Longrightarrow> lifecycle_state s' \<noteq> LIFECYCLE_RUNNING"
    "killed_by (workers s' d) \<Longrightarrow> \<not> killed_by (workers s d) \<Longrightarrow> lifecycle_state s' \<noteq> LIFECYCLE_RUNNING"
  by (use assms in \<open>cases "workers s d"; auto simp: Let_def split: if_splits option.splits prod.splits user_outcome.splits lifecycle.splits\<close>)+

lemma thread_keeps:
  assumes "thread_step t pc s = Some s'"
  shows "workers s' = workers s" "exceptions s' = exceptions s"
    "lifecycle_state s \<noteq> LIFECYCLE_RUNNING \<Longrightarrow> lifecycle_state s' \<noteq> LIFECYCLE_RUNNING"
  by (use assms in \<open>cases pc; auto simp: Let_def split: if_splits prod.splits\<close>)+

text \<open>Every run of the machine is such a run.\<close>

lemma runner_reach_panic_run: "runner_reach s \<Longrightarrow> \<exists>n. panic_run n s"
proof (induction rule: reach.induct)
  case (reach_step s s')
  then obtain n where n: "panic_run n s" by blast
  show ?case
  proof (cases "\<exists>d u. user_code (workers s d) \<and> execute_step d u (workers s d) s = Some s'")
    case True
    then show ?thesis using panic_run.user [OF n] by blast
  next
    case False
    have "user_code (workers s d) \<Longrightarrow> workers s' d = workers s d" for d
      using reach_step.hyps(2)
    proof cases
      case (execute d' u)
      then show "user_code (workers s d) \<Longrightarrow> workers s' d = workers s d"
        using False execute_failing(1) [OF execute] by (metis fun_upd_other)
    qed (auto dest: thread_keeps)
    then show ?thesis using panic_run.code [OF n reach_step.hyps(2)] by blast
  qed
qed (auto intro: panic_run.start)

lemma panic_inv_execute:
  assumes "panic_inv n s" "execute_step d u (workers s d) s = Some s'"
  shows "panic_inv (if user_code (workers s d) \<and> u = U_Panic then Suc n else n) s'"
proof -
  note e = execute_failing [OF assms(2)]
  have fin: "finite (failures s)" and n: "n = exceptions s + card (failures s)" using assms(1) by (simp_all add: panic_inv_def)
  have fail: "failures s' = (if failing (workers s' d) then insert d (failures s) else failures s - {d})"
  proof -
    obtain pc' where pc': "workers s' = (workers s)(d := pc')" using e(1) ..
    show ?thesis unfolding failures_def pc' by auto
  qed
  have here: "d \<in> failures s \<longleftrightarrow> failing (workers s d)" by (simp add: failures_def)
  have "(if user_code (workers s d) \<and> u = U_Panic then Suc n else n) = exceptions s' + card (failures s')"
  proof (cases "user_code (workers s d)")
    case True
    then have "d \<notin> failures s" "exceptions s' = exceptions s" using here e(2) by (cases "workers s d"; simp)+
    then show ?thesis using True fin n fail e(3) by (cases "u = U_Panic") simp_all
  next
    case False
    show ?thesis
    proof (cases "\<exists>l. workers s d = W_PublishException l")
      case publish: True
      then have "d \<in> failures s" using here by auto
      then have "card (failures s) = Suc (card (failures s - {d}))" using fin by (metis card_Suc_Diff1)
      moreover have "\<not> failing (workers s' d)" using publish False e(3) by simp
      ultimately show ?thesis using False publish n fail e(2) by simp
    next
      case other: False
      then have "failures s' = failures s" using fail here e(3) False by (auto simp: insert_absorb)
      then show ?thesis using False other n e(2) by simp
    qed
  qed
  moreover have "finite (failures s')" using fail fin by simp
  moreover have "lifecycle_state s' \<noteq> LIFECYCLE_RUNNING" if some: "exceptions s' > 0 \<or> (\<exists>d'. killed_by (workers s' d'))"
  proof (cases "exceptions s > 0 \<or> (\<exists>d'. killed_by (workers s d'))")
    case True
    then show ?thesis using assms(1) execute_killed(1) [OF assms(2)] by (auto simp: panic_inv_def)
  next
    case False
    then have "\<not> killed_by (workers s d)" by blast
    then have "\<nexists>l. workers s d = W_PublishException l" by (cases "workers s d") auto
    then have "exceptions s' = 0" using False e(2) by simp
    then obtain d' where "killed_by (workers s' d')" using some by auto
    then have "d' = d" using e(1) False by (metis fun_upd_other)
    then show ?thesis using execute_killed(2) [OF assms(2)] False \<open>killed_by (workers s' d')\<close> by blast
  qed
  ultimately show ?thesis by (auto simp: panic_inv_def)
qed

lemma panic_inv_run: "panic_run n s \<Longrightarrow> panic_inv n s"
proof (induction rule: panic_run.induct)
  case (start s)
  then show ?case by (auto simp: fresh_runner_def new_runner_def panic_inv_def failures_def)
next
  case (code n s s')
  from code.hyps(2) show ?case
  proof cases
    case (thread t)
    then show ?thesis using code.IH thread_keeps [OF thread] by (simp add: panic_inv_def failures_def)
  next
    case (take d)
    then have "failures s' = failures s" "\<And>d'. killed_by (workers s' d') = killed_by (workers s d')"
      by (auto simp: failures_def)
    then show ?thesis using code.IH take by (simp add: panic_inv_def)
  next
    case (execute d u)
    have "\<not> (user_code (workers s d) \<and> u = U_Panic)"
    proof
      assume panic: "user_code (workers s d) \<and> u = U_Panic"
      then have "failing (workers s' d)" "\<not> failing (workers s d)"
        using execute_failing(3) [OF execute] by (auto, cases "workers s d", auto)
      then show False using code.hyps(3) [of d] panic by simp
    qed
    then show ?thesis using panic_inv_execute [OF code.IH execute] by (auto split: if_splits)
  qed (use code.IH in \<open>simp_all add: panic_inv_def failures_def\<close>)
next
  case (user n s d u s')
  then show ?case using panic_inv_execute [OF user.IH user.hyps(3)] by (auto split: if_splits)
qed

section \<open>Properties\<close>

text \<open>
  C30: every panic of user code is reported once and ends the actor. In any run with \<open>n\<close> panics in receives
  and polls, \<open>n\<close> dead letters have been published once no worker is between a panic and its letter, never more than
  \<open>n\<close> before; as soon as one is published the actor is not running any more. The letter carries the reason
  \<open>ExecutionException\<close>, the slot of the actor as a non-negative recipient and no sender, and goes to the callback that is set, if any.
\<close>

theorem panic_publishes_one_dead_letter:
  fixes s :: "'m runner"
  assumes "panic_run n s"
  shows "exceptions s \<le> n \<and> ((\<forall>d. \<not> failing (workers s d)) \<longrightarrow> exceptions s = n) \<and>
    (0 < exceptions s \<longrightarrow> lifecycle_state s \<noteq> LIFECYCLE_RUNNING) \<and>
    publish_execution_exception now r sys = map_option (\<lambda>callback. (callback, execution_exception now r :: ('x, any_ref) dead_letter_message)) (dead_letter_callback sys) \<and>
    (let letter = execution_exception now r :: ('x, any_ref) dead_letter_message in
       letter_reason letter = ExecutionException \<and> letter_sender letter = None \<and>
       sint (recipient_actor_id letter) = int (unat (ref_index r)) \<and> into_message letter = Actor_Execution_Exception_Message)"
proof -
  have "failures s = {}" if "\<forall>d. \<not> failing (workers s d)" using that by (simp add: failures_def)
  then show ?thesis
    using panic_inv_run [OF assms]
    by (auto simp: panic_inv_def sint_ucast_u32 publish_execution_exception_def publish_def execution_exception_def new_dead_letter_def into_message_def)
qed

lemma panic_run_execute:
  assumes "panic_run n s" "execute_step d u (workers s d) s = Some s'"
  shows "panic_run (if user_code (workers s d) \<and> u = U_Panic then Suc n else n) s'"
proof (cases "user_code (workers s d)")
  case False
  have "panic_run n s'"
  proof (rule panic_run.code [OF assms(1) runner_step.execute [OF assms(2)]])
    fix d'
    assume "user_code (workers s d')"
    then show "workers s' d' = workers s d'"
      using execute_failing(1) [OF assms(2)] False by (metis fun_upd_other)
  qed
  then show ?thesis using False by simp
qed (use panic_run.user [OF assms(1) _ assms(2)] in simp)

lemma panic_run_thread:
  assumes "panic_run n s" "thread_step t (threads s t) s = Some s'"
  shows "panic_run n s'"
  by (rule panic_run.code [OF assms(1) runner_step.thread [OF assms(2)]]) (simp add: thread_keeps(1) [OF assms(2)])

definition executes :: "nat \<Rightarrow> user_outcome list \<Rightarrow> 'm runner \<Rightarrow> 'm runner" where
  "executes d us s = fold (\<lambda>u. advance (\<lambda>s. execute_step d u (workers s d) s)) us s"

lemma panic_run_calm:
  assumes "panic_run n s"
  shows "panic_run n (executes d (replicate k U_Done) s)"
  using assms
proof (induction k arbitrary: s)
  case (Suc k)
  have "panic_run n (advance (\<lambda>s. execute_step d U_Done (workers s d) s) s)"
    using panic_run_execute [OF Suc.prems, of d U_Done] Suc.prems by (auto simp: advance_def split: option.split)
  from Suc.IH [OF this] show ?case by (simp add: executes_def)
qed (simp add: executes_def)

text \<open>A mail is posted to a new runner and its receive panics.\<close>

definition one_mail :: "nat runner" where
  "one_mail = (new_runner 0 4)\<lparr>mailbox := [(3, 5, True)], posted := [5], is_scheduled := True, queued := {#0#}\<rparr>"

definition receiving :: "nat runner" where
  "receiving = executes 0 (replicate 4 U_Done) (set_worker 0 W_CheckActive (one_mail\<lparr>queued := {#}\<rparr>))"

definition panicked :: "nat runner" where
  "panicked = executes 0 (replicate 6 U_Done) (the (execute_step 0 U_Panic (workers receiving 0) receiving))"

lemma one_mail_run: "panic_run 0 one_mail"
proof -
  let ?s = "set_thread 3 (T_Post 5) (new_runner 0 4) :: nat runner"
  have "panic_run 0 ?s"
    by (rule panic_run.code [OF panic_run.start runner_step.post]) (auto simp: fresh_runner_def new_runner_def)
  then have "panic_run 0 ((advance (\<lambda>s. thread_step 3 (threads s 3) s) ^^ n) ?s)" for n
  proof (induction n)
    case (Suc n)
    then show ?case using panic_run_thread [OF Suc.IH [OF Suc.prems], of 3] by (auto simp: advance_def split: option.split)
  qed simp
  then have "panic_run 0 (runner_call 3 (T_Post 5) (new_runner 0 4) :: nat runner)" by (simp only: runner_call_def)
  moreover have "runner_call 3 (T_Post 5) (new_runner 0 4) = one_mail"
    by (subst post_call) (simp_all add: quiet_runner_def new_runner_def one_mail_def)
  ultimately show ?thesis by simp
qed

lemma receiving_run: "panic_run 0 receiving"
proof -
  have "panic_run 0 (set_worker 0 W_CheckActive (one_mail\<lparr>queued := queued one_mail - {#0#}\<rparr>))"
    by (rule panic_run.code [OF one_mail_run runner_step.take]) (auto simp: one_mail_def new_runner_def)
  moreover have "queued one_mail - {#0#} = {#}" by (simp add: one_mail_def)
  ultimately show ?thesis unfolding receiving_def by (metis panic_run_calm)
qed

lemmas panic_evaluation = receiving_def panicked_def one_mail_def executes_def numeral_eq_Suc advance_def new_runner_def new_driver_def

lemma receiving_worker: "workers receiving 0 = W_Receive 5"
  by (simp add: panic_evaluation)

lemma panicked_run: "panic_run 1 panicked"
proof -
  obtain s' where s': "execute_step 0 U_Panic (workers receiving 0) receiving = Some s'" by (simp add: receiving_worker)
  from panic_run_execute [OF receiving_run s'] have "panic_run 1 s'" by (simp add: receiving_worker)
  then show ?thesis unfolding panicked_def s' by (simp add: panic_run_calm)
qed

lemma panicked_worker: "\<not> failing (workers panicked d)"
  by (simp add: panic_evaluation set_worker_def)

theorem panic_publishes_one_dead_letter_witness:
  "exceptions panicked = 1 \<and> lifecycle_state panicked \<noteq> LIFECYCLE_RUNNING \<and>
   sint (recipient_actor_id (execution_exception 7 \<lparr>ref_index = 5, ref_generation = 1, ref_alias = None\<rparr> :: (nat, any_ref) dead_letter_message)) = 5"
  using panic_publishes_one_dead_letter [where ?'x = nat, OF panicked_run, of 7 "\<lparr>ref_index = 5, ref_generation = 1, ref_alias = None\<rparr>" "projr (new_system 1)"] panicked_worker
  by (simp add: Let_def)

end
