(* ===== verification/Transport.thy ===== *)
theory Transport
  imports Prelude
begin

text \<open>
  Outgoing bytes of a session (\<^verbatim>\<open>send_buffer.rs\<close>), the TCP transport (\<^verbatim>\<open>tcp_transport.rs\<close>) and the transport that a
  connection owns (\<^verbatim>\<open>transport.rs\<close>, \<^verbatim>\<open>transport_factory.rs\<close>). Lengths are natural numbers: a Rust vector holds at most \<open>isize::MAX\<close> bytes, so the
  sums the code forms do not wrap. The socket is known by the answers it gives: a read or write loop
  runs on the list of answers to the calls it makes, in order, and a loop that has consumed all of
  them without leaving is still running (\<open>None\<close>).
\<close>

section \<open>Send buffer\<close>

record send_buffer =
  sb_data :: "u8 list"
  sb_offset :: nat
  sb_max_pending :: nat

definition new_send_buffer :: "nat \<Rightarrow> send_buffer" where
  "new_send_buffer max_pending = \<lparr>sb_data = [], sb_offset = 0, sb_max_pending = max_pending\<rparr>"

definition pending_len :: "send_buffer \<Rightarrow> nat" where
  "pending_len b = length (sb_data b) - sb_offset b"

definition can_write :: "nat \<Rightarrow> send_buffer \<Rightarrow> bool" where
  "can_write count b \<longleftrightarrow> pending_len b + count \<le> sb_max_pending b"

definition sb_append :: "u8 list \<Rightarrow> send_buffer \<Rightarrow> send_buffer" where
  "sb_append bytes b = b\<lparr>sb_data := sb_data b @ bytes\<rparr>"

definition has_pending :: "send_buffer \<Rightarrow> bool" where
  "has_pending b \<longleftrightarrow> sb_offset b < length (sb_data b)"

definition pending_slice :: "send_buffer \<Rightarrow> u8 list" where
  "pending_slice b = drop (sb_offset b) (sb_data b)"

definition sb_advance :: "nat \<Rightarrow> send_buffer \<Rightarrow> send_buffer" where
  "sb_advance count b =
     (let b' = b\<lparr>sb_offset := sb_offset b + count\<rparr> in
      if length (sb_data b') \<le> sb_offset b' then b'\<lparr>sb_data := [], sb_offset := 0\<rparr> else b')"

definition buffer_ok :: "send_buffer \<Rightarrow> bool" where
  "buffer_ok b \<longleftrightarrow> sb_offset b \<le> length (sb_data b) \<and> pending_len b \<le> sb_max_pending b"

lemma new_buffer_ok [simp]: "buffer_ok (new_send_buffer m)" "pending_slice (new_send_buffer m) = []"
  by (simp_all add: buffer_ok_def new_send_buffer_def pending_len_def pending_slice_def)

lemma append_ok [simp]:
  "buffer_ok b \<Longrightarrow> can_write (length bytes) b \<Longrightarrow> buffer_ok (sb_append bytes b)"
  "buffer_ok b \<Longrightarrow> pending_slice (sb_append bytes b) = pending_slice b @ bytes"
  "sb_max_pending (sb_append bytes b) = sb_max_pending b"
  by (auto simp: buffer_ok_def can_write_def sb_append_def pending_len_def pending_slice_def)

lemma advance_ok [simp]:
  "buffer_ok b \<Longrightarrow> buffer_ok (sb_advance n b)"
  "pending_slice (sb_advance n b) = drop n (pending_slice b)"
  "sb_max_pending (sb_advance n b) = sb_max_pending b"
  by (auto simp: buffer_ok_def sb_advance_def pending_len_def pending_slice_def Let_def add.commute)

lemma has_pending_slice: "has_pending b \<longleftrightarrow> pending_slice b \<noteq> []"
  by (auto simp: has_pending_def pending_slice_def)

lemma pending_len_slice: "pending_len b = length (pending_slice b)"
  by (simp add: pending_len_def pending_slice_def)

text \<open>One byte is sent, then \<open>n\<close> times one byte is sent and the socket takes one.\<close>

definition trickle :: "nat \<Rightarrow> nat \<Rightarrow> send_buffer" where
  "trickle m n = ((\<lambda>b. sb_advance 1 (sb_append [0] b)) ^^ n) (sb_append [0] (new_send_buffer m))"

text \<open>
  C40: the limit on pending bytes does not bound the memory of a send buffer. The consumed prefix is
  released only when the buffer runs empty, so with a limit of at least 2 and a peer that always leaves
  one byte behind, a run of accepted one-byte sends and one-byte writes makes the buffer hold any
  number of bytes while never more than two are pending.
\<close>

theorem send_buffer_memory_unbounded:
  assumes "2 \<le> m"
  shows "length (sb_data (trickle m n)) = n + 1 \<and> pending_len (trickle m n) = 1 \<and> can_write 1 (trickle m n)"
proof -
  have "trickle m n = \<lparr>sb_data = replicate (n + 1) 0, sb_offset = n, sb_max_pending = m\<rparr>"
    unfolding trickle_def
  proof (induction n)
    case 0
    then show ?case by (simp add: sb_append_def new_send_buffer_def)
  next
    case (Suc n)
    then show ?case by (simp add: sb_append_def sb_advance_def Let_def replicate_append_same)
  qed
  then show ?thesis using assms(1) by (simp add: pending_len_def can_write_def)
qed

theorem send_buffer_memory_unbounded_witness:
  "length (sb_data (trickle 2 1000000)) = 1000001"
  using send_buffer_memory_unbounded [of 2 1000000] by simp

section \<open>TCP transport\<close>

datatype transport_outcome = Continue | Closed

datatype read_answer = Read_Data "u8 list" | Read_WouldBlock | Read_Interrupted | Read_Error

datatype write_answer = Write_Count nat | Write_WouldBlock | Write_Interrupted | Write_Error

definition READ_BUFFER_SIZE :: nat where "READ_BUFFER_SIZE = 8192"

text \<open>The read loop, in which \<open>Read_Data []\<close> is the answer \<open>Ok(0)\<close>: its outcome and \<open>inbound\<close> after it.\<close>

fun tcp_read :: "read_answer list \<Rightarrow> u8 list \<Rightarrow> (transport_outcome \<times> u8 list) option" where
  "tcp_read [] inbound = None"
| "tcp_read (Read_Data bytes # answers) inbound =
     (if bytes = [] then Some (Closed, inbound) else tcp_read answers (inbound @ take READ_BUFFER_SIZE bytes))"
| "tcp_read (Read_WouldBlock # _) inbound = Some (Continue, inbound)"
| "tcp_read (Read_Interrupted # answers) inbound = tcp_read answers inbound"
| "tcp_read (Read_Error # _) inbound = Some (Closed, inbound)"

text \<open>The write loop: its outcome, the bytes the socket took and the buffer it leaves.\<close>

fun tcp_write :: "write_answer list \<Rightarrow> send_buffer \<Rightarrow> (transport_outcome \<times> u8 list \<times> send_buffer) option" where
  "tcp_write answers outbound =
     (if \<not> has_pending outbound then Some (Continue, [], outbound)
      else case answers of
        [] \<Rightarrow> None
      | Write_Count count # answers' \<Rightarrow>
          if count = 0 then Some (Closed, [], outbound)
          else map_option (\<lambda>(outcome, sent, b). (outcome, take count (pending_slice outbound) @ sent, b))
                 (tcp_write answers' (sb_advance count outbound))
      | Write_WouldBlock # _ \<Rightarrow> Some (Continue, [], outbound)
      | Write_Interrupted # answers' \<Rightarrow> tcp_write answers' outbound
      | Write_Error # _ \<Rightarrow> Some (Closed, [], outbound))"

declare tcp_write.simps [simp del]

definition tcp_wants_write :: bool where "tcp_wants_write = False"

lemma tcp_write_eqs:
  "\<not> has_pending b \<Longrightarrow> tcp_write answers b = Some (Continue, [], b)"
  "has_pending b \<Longrightarrow> tcp_write [] b = None"
  "has_pending b \<Longrightarrow> tcp_write (Write_Count n # answers) b =
     (if n = 0 then Some (Closed, [], b)
      else map_option (\<lambda>(outcome, sent, b'). (outcome, take n (pending_slice b) @ sent, b')) (tcp_write answers (sb_advance n b)))"
  "has_pending b \<Longrightarrow> tcp_write (Write_WouldBlock # answers) b = Some (Continue, [], b)"
  "has_pending b \<Longrightarrow> tcp_write (Write_Interrupted # answers) b = tcp_write answers b"
  "has_pending b \<Longrightarrow> tcp_write (Write_Error # answers) b = Some (Closed, [], b)"
  by (subst tcp_write.simps; simp)+

lemma tcp_write_sent:
  assumes "tcp_write answers b = Some (outcome, sent, b')"
  shows "sent @ pending_slice b' = pending_slice b" "sb_max_pending b' = sb_max_pending b" "buffer_ok b \<Longrightarrow> buffer_ok b'"
    "outcome = Continue \<Longrightarrow> \<not> has_pending b' \<or> Write_WouldBlock \<in> set answers"
proof -
  have "sent @ pending_slice b' = pending_slice b \<and> sb_max_pending b' = sb_max_pending b \<and> (buffer_ok b \<longrightarrow> buffer_ok b') \<and>
      (outcome = Continue \<longrightarrow> \<not> has_pending b' \<or> Write_WouldBlock \<in> set answers)"
    using assms
  proof (induction answers arbitrary: b sent)
    case Nil
    then show ?case by (cases "has_pending b") (simp_all add: tcp_write_eqs)
  next
    case (Cons a answers)
    show ?case
    proof (cases "has_pending b")
      case pend: True
      show ?thesis
      proof (cases a)
        case (Write_Count n)
        show ?thesis
        proof (cases "n = 0")
          case False
          then obtain sent' where sent': "tcp_write answers (sb_advance n b) = Some (outcome, sent', b')"
            "sent = take n (pending_slice b) @ sent'"
            using Cons.prems pend Write_Count by (auto simp: tcp_write_eqs)
          then show ?thesis using Cons.IH [OF sent'(1)] by auto
        qed (use Cons.prems pend Write_Count in \<open>simp add: tcp_write_eqs\<close>)
      qed (use Cons pend in \<open>auto simp: tcp_write_eqs\<close>)
    qed (use Cons.prems in \<open>simp add: tcp_write_eqs\<close>)
  qed
  then show "sent @ pending_slice b' = pending_slice b" "sb_max_pending b' = sb_max_pending b" "buffer_ok b \<Longrightarrow> buffer_ok b'"
    "outcome = Continue \<Longrightarrow> \<not> has_pending b' \<or> Write_WouldBlock \<in> set answers" by blast+
qed

section \<open>The transport of a connection\<close>

text \<open>
  The trait \<open>Transport\<close> with the factory that creates it: what \<open>create\<close> makes, and \<open>read\<close>, \<open>write\<close> and
  \<open>wants_write\<close> on the state of type \<open>'c\<close> of a transport, over the answers of the socket.
\<close>

record 'c transport =
  tr_create :: 'c
  tr_read :: "read_answer list \<Rightarrow> 'c \<Rightarrow> u8 list \<Rightarrow> (transport_outcome \<times> u8 list \<times> 'c) option"
  tr_write :: "write_answer list \<Rightarrow> 'c \<Rightarrow> send_buffer \<Rightarrow> (transport_outcome \<times> u8 list \<times> send_buffer \<times> 'c) option"
  tr_wants_write :: "'c \<Rightarrow> bool"

definition tcp_transport :: "unit transport" where
  "tcp_transport =
     \<lparr>tr_create = (),
      tr_read = (\<lambda>answers c inbound. map_option (\<lambda>(outcome, inbound'). (outcome, inbound', c)) (tcp_read answers inbound)),
      tr_write = (\<lambda>answers c outbound. map_option (\<lambda>(outcome, sent, b). (outcome, sent, b, c)) (tcp_write answers outbound)),
      tr_wants_write = (\<lambda>_. tcp_wants_write)\<rparr>"

text \<open>
  What the reactor relies on when a transport writes from a send buffer: the bytes it takes are a prefix of
  the pending ones, the rest stays pending in order, and the limit of the buffer is kept.
\<close>

locale buffered_writer =
  fixes T :: "'c transport"
  assumes takes_prefix: "tr_write T ws c b = Some (outcome, sent, b', c') \<Longrightarrow> sent @ pending_slice b' = pending_slice b"
    and keeps_limit: "tr_write T ws c b = Some (outcome, sent, b', c') \<Longrightarrow> sb_max_pending b' = sb_max_pending b"
    and keeps_ok: "tr_write T ws c b = Some (outcome, sent, b', c') \<Longrightarrow> buffer_ok b \<Longrightarrow> buffer_ok b'"
begin

text \<open>A history of accepted bytes is a history of bytes taken and bytes pending, before a write and after it.\<close>

lemma history_kept:
  assumes "tr_write T ws c b = Some (outcome, sent, b', c')" "history = taken @ pending_slice b"
  shows "history = (taken @ sent) @ pending_slice b'"
  using takes_prefix [OF assms(1)] assms(2) by simp

lemma room_grows:
  assumes "tr_write T ws c b = Some (outcome, sent, b', c')" "can_write n b"
  shows "can_write n b'"
  using takes_prefix [OF assms(1)] keeps_limit [OF assms(1)] assms(2)
  by (auto simp: can_write_def pending_len_slice dest: arg_cong [where f = length])

end

text \<open>A reactor also relies on a new transport having nothing to send of its own.\<close>

locale reactor_transport = buffered_writer +
  assumes quiet_start: "\<not> tr_wants_write T (tr_create T)"

interpretation tcp: reactor_transport tcp_transport
  by unfold_locales (auto simp: tcp_transport_def tcp_wants_write_def intro: tcp_write_sent)

text \<open>The write loop returns once the socket blocks or fails, or has taken as many bytes as are pending.\<close>

lemma tcp_write_returns:
  assumes "length (pending_slice b) \<le> length (filter (\<lambda>a. a \<noteq> Write_Interrupted) answers)"
  shows "\<exists>res. tcp_write answers b = Some res"
  using assms
proof (induction answers arbitrary: b)
  case Nil
  then show ?case by (simp add: tcp_write_eqs has_pending_slice)
next
  case (Cons a answers)
  show ?case
  proof (cases "has_pending b")
    case True
    show ?thesis
    proof (cases a)
      case (Write_Count n)
      show ?thesis
      proof (cases "n = 0")
        case False
        have "length (pending_slice (sb_advance n b)) \<le> length (filter (\<lambda>a. a \<noteq> Write_Interrupted) answers)"
          using Cons.prems Write_Count False by simp
        then show ?thesis using Cons.IH [of "sb_advance n b"] True Write_Count False by (auto simp: tcp_write_eqs)
      qed (use True Write_Count in \<open>simp add: tcp_write_eqs\<close>)
    qed (use Cons True in \<open>auto simp: tcp_write_eqs\<close>)
  qed (simp add: tcp_write_eqs)
qed

text \<open>
  The write loop sends the pending bytes in order. Whatever the socket answers, what it has taken is a
  prefix of what was pending and exactly the rest stays pending; if the loop ends without closing,
  nothing is left or the socket would block; and it ends as soon as the calls that were not
  interrupted are as many as the pending bytes.
\<close>

theorem tcp_write_keeps_order:
  "(tcp_write answers b = Some (outcome, sent, b') \<longrightarrow>
      sent @ pending_slice b' = pending_slice b \<and>
      (outcome = Continue \<longrightarrow> \<not> has_pending b' \<or> Write_WouldBlock \<in> set answers)) \<and>
   (length (pending_slice b) \<le> length (filter (\<lambda>a. a \<noteq> Write_Interrupted) answers) \<longrightarrow> (\<exists>res. tcp_write answers b = Some res))"
  using tcp_write_sent(1,4) tcp_write_returns by blast

theorem tcp_write_keeps_order_witness:
  "tcp_write [Write_Count 2, Write_Interrupted, Write_WouldBlock] (sb_append [1, 2, 3] (new_send_buffer 10)) =
     Some (Continue, [1, 2], sb_advance 2 (sb_append [1, 2, 3] (new_send_buffer 10))) \<and>
   [1, 2] @ pending_slice (sb_advance 2 (sb_append [1, 2, 3] (new_send_buffer 10))) =
     pending_slice (sb_append [1, 2, 3] (new_send_buffer 10))"
proof -
  have run: "tcp_write [Write_Count 2, Write_Interrupted, Write_WouldBlock] (sb_append [1, 2, 3] (new_send_buffer 10)) =
     Some (Continue, [1, 2], sb_advance 2 (sb_append [1, 2, 3] (new_send_buffer 10)))"
    by (simp add: tcp_write_eqs has_pending_slice)
  then show ?thesis using tcp_write_keeps_order by blast
qed

text \<open>What a read loop delivers: the bytes of the answers up to the one it leaves at.\<close>

fun delivered :: "read_answer list \<Rightarrow> u8 list" where
  "delivered (Read_Data bytes # answers) = (if bytes = [] then [] else bytes @ delivered answers)"
| "delivered (Read_Interrupted # answers) = delivered answers"
| "delivered _ = []"

text \<open>
  The read loop delivers every byte it has read, in order, also when it ends because the peer has
  closed the connection or the socket has failed, provided that each read returns at most the
  8192 bytes of its buffer.
\<close>

theorem tcp_read_delivers_all:
  assumes "\<And>bytes. Read_Data bytes \<in> set answers \<Longrightarrow> length bytes \<le> 8192" "tcp_read answers inbound = Some (outcome, inbound')"
  shows "inbound' = inbound @ delivered answers"
  using assms
  by (induction answers inbound rule: tcp_read.induct) (auto simp: READ_BUFFER_SIZE_def split: if_splits)

theorem tcp_read_delivers_all_witness:
  "tcp_read [Read_Data [1, 2], Read_Interrupted, Read_Data [3], Read_Data []] [] = Some (Closed, [1, 2, 3])"
  using tcp_read_delivers_all [of "[Read_Data [1, 2], Read_Interrupted, Read_Data [3], Read_Data []]" "[]" Closed "[1, 2, 3]"]
  by (simp add: READ_BUFFER_SIZE_def)

end
