(* ===== verification/Tls_Transport.thy ===== *)
theory Tls_Transport
  imports Transport
begin

text \<open>
  The TLS transport of \<^verbatim>\<open>tls_transport.rs\<close>. The connection of the rustls library is a parameter: a state of
  type \<open>'c\<close> with the operations the code calls on it (\<open>rustls\<close>). The two loops run over the answers of the socket, as those of the TCP
  transport do. The theory \<open>Tls_Reactor\<close> composes it with the reactor.
\<close>

section \<open>The library\<close>

text \<open>An \<open>io::Result<usize>\<close> as the code tells its cases apart, and the state that processing packets reports.\<close>

datatype io_result = Io_Ok nat | Io_WouldBlock | Io_Interrupted | Io_Error

record io_state =
  plaintext_bytes_to_read :: nat
  peer_has_closed :: bool

text \<open>
  The operations of \<open>ServerConnection\<close>: \<open>new\<close> on the given (valid) configuration, \<open>read_tls\<close> and \<open>write_tls\<close> on a socket that
  gives the answer, \<open>process_new_packets\<close> (\<open>None\<close> for an error), \<open>reader().read_exact\<close>, which returns whether it succeeded
  and the contents of the slice after it, \<open>writer().write\<close> (\<open>None\<close> for an error) and \<open>wants_write\<close>.
\<close>

record 'c rustls =
  rl_new :: 'c
  rl_read_tls :: "read_answer \<Rightarrow> 'c \<Rightarrow> io_result \<times> 'c"
  rl_process_new_packets :: "'c \<Rightarrow> io_state option \<times> 'c"
  rl_read_exact :: "nat \<Rightarrow> 'c \<Rightarrow> bool \<times> u8 list \<times> 'c"
  rl_write :: "u8 list \<Rightarrow> 'c \<Rightarrow> nat option \<times> 'c"
  rl_wants_write :: "'c \<Rightarrow> bool"
  rl_write_tls :: "write_answer \<Rightarrow> 'c \<Rightarrow> io_result \<times> 'c"

section \<open>The transport\<close>

fun tls_read :: "'c rustls \<Rightarrow> read_answer list \<Rightarrow> 'c \<Rightarrow> u8 list \<Rightarrow> (transport_outcome \<times> u8 list \<times> 'c) option" where
  "tls_read R [] c inbound = None"
| "tls_read R (answer # answers) c inbound =
     (case rl_read_tls R answer c of
        (Io_WouldBlock, c1) \<Rightarrow> Some (Continue, inbound, c1)
      | (Io_Interrupted, c1) \<Rightarrow> tls_read R answers c1 inbound
      | (Io_Error, c1) \<Rightarrow> Some (Closed, inbound, c1)
      | (Io_Ok n, c1) \<Rightarrow>
          if n = 0 then Some (Closed, inbound, c1)
          else case rl_process_new_packets R c1 of
            (None, c2) \<Rightarrow> Some (Closed, inbound, c2)
          | (Some io, c2) \<Rightarrow>
              (case (if 0 < plaintext_bytes_to_read io then rl_read_exact R (plaintext_bytes_to_read io) c2 else (True, [], c2)) of
                 (ok, plaintext, c3) \<Rightarrow>
                   if \<not> ok \<or> peer_has_closed io then Some (Closed, inbound @ plaintext, c3)
                   else tls_read R answers c3 (inbound @ plaintext)))"

text \<open>The first loop of \<open>write\<close> hands pending bytes to rustls: whether it met no error, the bytes taken, the buffer and the connection.\<close>

function (sequential) tls_buffer :: "'c rustls \<Rightarrow> 'c \<Rightarrow> send_buffer \<Rightarrow> bool \<times> u8 list \<times> send_buffer \<times> 'c" where
  "tls_buffer R c outbound =
     (if \<not> has_pending outbound then (True, [], outbound, c)
      else case rl_write R (pending_slice outbound) c of
        (None, c') \<Rightarrow> (False, [], outbound, c')
      | (Some count, c') \<Rightarrow>
          if count = 0 then (True, [], outbound, c')
          else case tls_buffer R c' (sb_advance count outbound) of
            (ok, sent, outbound', c'') \<Rightarrow> (ok, take count (pending_slice outbound) @ sent, outbound', c''))"
  by pat_completeness auto
termination
  by (relation "measure (\<lambda>(R, c, b). length (pending_slice b))") (auto simp: has_pending_slice)

declare tls_buffer.simps [simp del]

text \<open>The second loop writes the records that rustls has ready to the socket.\<close>

fun tls_flush :: "'c rustls \<Rightarrow> write_answer list \<Rightarrow> 'c \<Rightarrow> (transport_outcome \<times> 'c) option" where
  "tls_flush R answers c =
     (if \<not> rl_wants_write R c then Some (Continue, c)
      else case answers of
        [] \<Rightarrow> None
      | answer # answers' \<Rightarrow>
          (case rl_write_tls R answer c of
             (Io_Ok n, c') \<Rightarrow> if n = 0 then Some (Continue, c') else tls_flush R answers' c'
           | (Io_WouldBlock, c') \<Rightarrow> Some (Continue, c')
           | (Io_Interrupted, c') \<Rightarrow> tls_flush R answers' c'
           | (Io_Error, c') \<Rightarrow> Some (Closed, c')))"

declare tls_flush.simps [simp del]

definition tls_write ::
    "'c rustls \<Rightarrow> write_answer list \<Rightarrow> 'c \<Rightarrow> send_buffer \<Rightarrow> (transport_outcome \<times> u8 list \<times> send_buffer \<times> 'c) option" where
  "tls_write R answers c outbound =
     (case tls_buffer R c outbound of
        (ok, sent, outbound', c') \<Rightarrow>
          if \<not> ok then Some (Closed, sent, outbound', c')
          else map_option (\<lambda>(outcome, c''). (outcome, sent, outbound', c'')) (tls_flush R answers c'))"

definition tls_wants_write :: "'c rustls \<Rightarrow> 'c \<Rightarrow> bool" where
  "tls_wants_write R c = rl_wants_write R c"

text \<open>\<open>TlsTransportFactory\<close> with the operations of the transport it creates.\<close>

definition tls_transport :: "'c rustls \<Rightarrow> 'c transport" where
  "tls_transport R = \<lparr>tr_create = rl_new R, tr_read = tls_read R, tr_write = tls_write R, tr_wants_write = tls_wants_write R\<rparr>"

section \<open>The contract of a transport\<close>

lemma tls_buffer_eqs:
  "\<not> has_pending b \<Longrightarrow> tls_buffer R c b = (True, [], b, c)"
  "has_pending b \<Longrightarrow> rl_write R (pending_slice b) c = (None, c') \<Longrightarrow> tls_buffer R c b = (False, [], b, c')"
  "has_pending b \<Longrightarrow> rl_write R (pending_slice b) c = (Some 0, c') \<Longrightarrow> tls_buffer R c b = (True, [], b, c')"
  "has_pending b \<Longrightarrow> rl_write R (pending_slice b) c = (Some count, c') \<Longrightarrow> 0 < count \<Longrightarrow>
     tls_buffer R c b = (case tls_buffer R c' (sb_advance count b) of
       (ok, sent, b', c'') \<Rightarrow> (ok, take count (pending_slice b) @ sent, b', c''))"
  by (subst tls_buffer.simps; simp)+

text \<open>The cases of a run of the first loop, as an induction rule.\<close>

lemma tls_buffer_induct [consumes 1, case_names empty failed full more]:
  assumes "tls_buffer R c b = (ok, sent, b', c')"
    and "\<And>c b. \<not> has_pending b \<Longrightarrow> P c b True [] b c"
    and "\<And>c b c'. has_pending b \<Longrightarrow> rl_write R (pending_slice b) c = (None, c') \<Longrightarrow> P c b False [] b c'"
    and "\<And>c b c'. has_pending b \<Longrightarrow> rl_write R (pending_slice b) c = (Some 0, c') \<Longrightarrow> P c b True [] b c'"
    and "\<And>c b count c1 ok sent b' c'. has_pending b \<Longrightarrow> rl_write R (pending_slice b) c = (Some count, c1) \<Longrightarrow> 0 < count \<Longrightarrow>
       P c1 (sb_advance count b) ok sent b' c' \<Longrightarrow> P c b ok (take count (pending_slice b) @ sent) b' c'"
  shows "P c b ok sent b' c'"
  using assms(1)
proof (induction "length (pending_slice b)" arbitrary: c b sent rule: less_induct)
  case less
  show ?case
  proof (cases "has_pending b")
    case pend: True
    obtain r c1 where w: "rl_write R (pending_slice b) c = (r, c1)" by fastforce
    show ?thesis
    proof (cases r)
      case None
      then show ?thesis using less.prems pend w assms(3) by (simp add: tls_buffer_eqs(2))
    next
      case (Some count)
      show ?thesis
      proof (cases "count = 0")
        case False
        then obtain sent' where rest: "tls_buffer R c1 (sb_advance count b) = (ok, sent', b', c')"
          "sent = take count (pending_slice b) @ sent'"
          using less.prems pend w Some by (auto simp: tls_buffer_eqs(4) split: prod.splits)
        then show ?thesis
          using less.hyps [OF _ rest(1)] assms(5) pend w Some False by (simp add: has_pending_slice)
      qed (use less.prems pend w Some assms(4) in \<open>simp add: tls_buffer_eqs(3)\<close>)
    qed
  qed (use less.prems assms(2) in \<open>simp add: tls_buffer_eqs(1)\<close>)
qed

lemma tls_buffer_sent:
  assumes "tls_buffer R c b = (ok, sent, b', c')"
  shows "sent @ pending_slice b' = pending_slice b \<and> sb_max_pending b' = sb_max_pending b \<and> (buffer_ok b \<longrightarrow> buffer_ok b')"
  using assms by (induction rule: tls_buffer_induct) auto

lemma tls_write_cases:
  assumes "tls_write R answers c b = Some (outcome, sent, b', c')"
  obtains (refused) "tls_buffer R c b = (False, sent, b', c')" "outcome = Closed"
  | (flushed) c1 where "tls_buffer R c b = (True, sent, b', c1)" "tls_flush R answers c1 = Some (outcome, c')"
proof -
  obtain ok sent1 b1 c1 where buf: "tls_buffer R c b = (ok, sent1, b1, c1)" by (metis prod_cases4)
  show ?thesis
  proof (cases ok)
    case True
    then have "sent1 = sent \<and> b1 = b' \<and> tls_flush R answers c1 = Some (outcome, c')" using assms buf by (auto simp: tls_write_def)
    then show ?thesis using flushed [of c1] buf True by simp
  qed (use assms buf refused in \<open>auto simp: tls_write_def\<close>)
qed

interpretation tls: buffered_writer "tls_transport R" for R :: "'c rustls"
proof unfold_locales
  fix ws c b outcome sent b' c'
  assume "tr_write (tls_transport R) ws c b = Some (outcome, sent, b', c')"
  then have "tls_write R ws c b = Some (outcome, sent, b', c')" by (simp add: tls_transport_def)
  then have "sent @ pending_slice b' = pending_slice b \<and> sb_max_pending b' = sb_max_pending b \<and> (buffer_ok b \<longrightarrow> buffer_ok b')"
    by (cases rule: tls_write_cases) (drule tls_buffer_sent, simp)+
  then show "sent @ pending_slice b' = pending_slice b" "sb_max_pending b' = sb_max_pending b" "buffer_ok b \<Longrightarrow> buffer_ok b'"
    by blast+
qed

lemma tls_reactor_transport:
  assumes "\<not> rl_wants_write R (rl_new R)"
  shows "reactor_transport (tls_transport R)"
  by unfold_locales (simp add: assms tls_transport_def tls_wants_write_def)

section \<open>What the library promises\<close>

text \<open>
  Observations on a rustls connection: the TLS bytes it has been given by \<open>read_tls\<close>, the plaintext its
  reader has handed out, and the plaintext its writer has taken.
\<close>

record 'c tls_view =
  tls_received :: "'c \<Rightarrow> u8 list"
  plain_read :: "'c \<Rightarrow> u8 list"
  plain_written :: "'c \<Rightarrow> u8 list"

definition same_view :: "'c tls_view \<Rightarrow> 'c \<Rightarrow> 'c \<Rightarrow> bool" where
  "same_view V c c' \<longleftrightarrow> tls_received V c' = tls_received V c \<and> plain_read V c' = plain_read V c \<and> plain_written V c' = plain_written V c"

text \<open>
  The documented behaviour of the operations, where \<open>decrypt\<close> gives the plaintext that a prefix of the peer's TLS stream carries: a
  successful \<open>read_tls\<close> takes what the socket gave; after a successful \<open>process_new_packets\<close> the plaintext not yet read is as long as the reported
  number of bytes; \<open>read_exact\<close> of that many bytes hands them out; \<open>write\<close> takes a prefix of its argument; a new server
  connection has nothing to write.
\<close>

definition rustls_reads :: "'c rustls \<Rightarrow> 'c tls_view \<Rightarrow> bool" where
  "rustls_reads R V \<longleftrightarrow> (\<forall>answer c r c'. rl_read_tls R answer c = (r, c') \<longrightarrow>
     plain_read V c' = plain_read V c \<and> plain_written V c' = plain_written V c \<and>
     (\<forall>n. r = Io_Ok n \<longrightarrow> n = 0 \<or> (\<exists>bytes. answer = Read_Data bytes \<and> tls_received V c' = tls_received V c @ bytes)) \<and>
     (r = Io_WouldBlock \<or> r = Io_Interrupted \<longrightarrow> tls_received V c' = tls_received V c))"

definition rustls_processes :: "'c rustls \<Rightarrow> 'c tls_view \<Rightarrow> (u8 list \<Rightarrow> u8 list) \<Rightarrow> bool" where
  "rustls_processes R V decrypt \<longleftrightarrow> (\<forall>c r c'. rl_process_new_packets R c = (r, c') \<longrightarrow> same_view V c c' \<and>
     (\<forall>io. r = Some io \<longrightarrow>
       (\<exists>rest. decrypt (tls_received V c) = plain_read V c @ rest \<and> length rest = plaintext_bytes_to_read io)))"

definition rustls_hands_out :: "'c rustls \<Rightarrow> 'c tls_view \<Rightarrow> (u8 list \<Rightarrow> u8 list) \<Rightarrow> bool" where
  "rustls_hands_out R V decrypt \<longleftrightarrow> (\<forall>n c ok plaintext c' rest. rl_read_exact R n c = (ok, plaintext, c') \<longrightarrow>
     decrypt (tls_received V c) = plain_read V c @ rest \<longrightarrow> length rest = n \<longrightarrow>
     ok \<and> plaintext = rest \<and> tls_received V c' = tls_received V c \<and> plain_read V c' = plain_read V c @ rest \<and>
     plain_written V c' = plain_written V c)"

definition rustls_writes :: "'c rustls \<Rightarrow> 'c tls_view \<Rightarrow> bool" where
  "rustls_writes R V \<longleftrightarrow>
     (\<forall>bytes c r c'. rl_write R bytes c = (r, c') \<longrightarrow> tls_received V c' = tls_received V c \<and> plain_read V c' = plain_read V c \<and>
        (r = None \<longrightarrow> plain_written V c' = plain_written V c) \<and>
        (\<forall>n. r = Some n \<longrightarrow> plain_written V c' = plain_written V c @ take n bytes)) \<and>
     (\<forall>answer c r c'. rl_write_tls R answer c = (r, c') \<longrightarrow> same_view V c c')"

definition rustls_starts :: "'c rustls \<Rightarrow> 'c tls_view \<Rightarrow> (u8 list \<Rightarrow> u8 list) \<Rightarrow> bool" where
  "rustls_starts R V decrypt \<longleftrightarrow> tls_received V (rl_new R) = [] \<and> plain_read V (rl_new R) = [] \<and> plain_written V (rl_new R) = [] \<and>
     decrypt [] = [] \<and> \<not> rl_wants_write R (rl_new R)"

definition rustls_contract :: "'c rustls \<Rightarrow> 'c tls_view \<Rightarrow> (u8 list \<Rightarrow> u8 list) \<Rightarrow> bool" where
  "rustls_contract R V decrypt \<longleftrightarrow> rustls_reads R V \<and> rustls_processes R V decrypt \<and> rustls_hands_out R V decrypt \<and>
     rustls_writes R V \<and> rustls_starts R V decrypt"

text \<open>The plaintext of everything received has been read.\<close>

definition drained :: "'c tls_view \<Rightarrow> (u8 list \<Rightarrow> u8 list) \<Rightarrow> 'c \<Rightarrow> bool" where
  "drained V decrypt c \<longleftrightarrow> plain_read V c = decrypt (tls_received V c)"

section \<open>Reading\<close>

text \<open>One round of the read loop after \<open>read_tls\<close> has read something: it takes all plaintext there is.\<close>

lemma process_round:
  assumes "rustls_contract R V decrypt" "rl_process_new_packets R c = (Some io, c2)"
    "(if 0 < plaintext_bytes_to_read io then rl_read_exact R (plaintext_bytes_to_read io) c2 else (True, [], c2)) = (ok, plaintext, c3)"
  shows "ok \<and> drained V decrypt c3 \<and> plain_read V c3 = plain_read V c @ plaintext \<and> plain_written V c3 = plain_written V c"
proof -
  obtain rest where rest: "same_view V c c2" "decrypt (tls_received V c) = plain_read V c @ rest" "length rest = plaintext_bytes_to_read io"
    using assms(1,2) unfolding rustls_contract_def rustls_processes_def by blast
  show ?thesis
  proof (cases "0 < plaintext_bytes_to_read io")
    case True
    then have "rl_read_exact R (plaintext_bytes_to_read io) c2 = (ok, plaintext, c3)" using assms(3) by simp
    moreover have "decrypt (tls_received V c2) = plain_read V c2 @ rest" using rest by (simp add: same_view_def)
    ultimately have "ok \<and> plaintext = rest \<and> tls_received V c3 = tls_received V c2 \<and> plain_read V c3 = plain_read V c2 @ rest \<and>
        plain_written V c3 = plain_written V c2"
      using assms(1) rest(3) unfolding rustls_contract_def rustls_hands_out_def by blast
    then show ?thesis using rest by (simp add: same_view_def drained_def)
  qed (use assms(3) rest in \<open>auto simp: same_view_def drained_def\<close>)
qed

lemma tls_read_drains:
  assumes "rustls_contract R V decrypt" "tls_read R answers c buf = Some (outcome, buf', c')"
  shows "(\<exists>p. buf' = buf @ p \<and> plain_read V c' = plain_read V c @ p) \<and> plain_written V c' = plain_written V c \<and>
    (outcome = Continue \<longrightarrow> drained V decrypt c \<longrightarrow> drained V decrypt c')"
  using assms(2)
proof (induction answers arbitrary: c buf)
  case (Cons answer answers)
  obtain r c1 where r: "rl_read_tls R answer c = (r, c1)" by fastforce
  have view: "plain_read V c1 = plain_read V c" "plain_written V c1 = plain_written V c"
    "r = Io_WouldBlock \<or> r = Io_Interrupted \<Longrightarrow> drained V decrypt c \<Longrightarrow> drained V decrypt c1"
    using assms(1) r unfolding rustls_contract_def rustls_reads_def drained_def by metis+
  show ?case
  proof (cases r)
    case (Io_Ok n)
    show ?thesis
    proof (cases "n = 0")
      case False
      obtain r2 c2 where r2: "rl_process_new_packets R c1 = (r2, c2)" by fastforce
      show ?thesis
      proof (cases r2)
        case None
        have "same_view V c1 c2" using assms(1) r2 unfolding rustls_contract_def rustls_processes_def by blast
        then show ?thesis using Cons.prems r Io_Ok False r2 None view by (auto simp: same_view_def)
      next
        case (Some io)
        obtain ok p c3 where p: "(if 0 < plaintext_bytes_to_read io then rl_read_exact R (plaintext_bytes_to_read io) c2 else (True, [], c2)) = (ok, p, c3)"
          by (metis prod_cases3)
        note round = process_round [OF assms(1) r2 [unfolded Some] p]
        show ?thesis
        proof (cases "peer_has_closed io")
          case True
          then have "outcome = Closed \<and> buf' = buf @ p \<and> c' = c3"
            using Cons.prems r Io_Ok False r2 Some p by (simp split: if_splits)
          then show ?thesis using round view by simp
        next
          case open_peer: False
          then have "tls_read R answers c3 (buf @ p) = Some (outcome, buf', c')"
            using Cons.prems r Io_Ok False r2 Some p round by (simp split: if_splits)
          from Cons.IH [OF this] show ?thesis using round view by auto
        qed
      qed
    qed (use Cons.prems r Io_Ok view in auto)
  next
    case Io_Interrupted
    then show ?thesis using Cons.IH [of c1 buf] Cons.prems r view by auto
  qed (use Cons.prems r view in auto)
qed simp

section \<open>Writing\<close>

lemma tls_buffer_writes:
  assumes "rustls_contract R V decrypt" "tls_buffer R c b = (ok, sent, b', c')"
  shows "plain_written V c' = plain_written V c @ sent \<and> plain_read V c' = plain_read V c \<and> tls_received V c' = tls_received V c"
proof -
  have w: "tls_received V c' = tls_received V c \<and> plain_read V c' = plain_read V c \<and>
      plain_written V c' = plain_written V c @ (case r of None \<Rightarrow> [] | Some n \<Rightarrow> take n bytes)"
    if "rl_write R bytes c = (r, c')" for bytes c r c'
    using assms(1) that unfolding rustls_contract_def rustls_writes_def by (cases r) auto
  show ?thesis using assms(2) by (induction rule: tls_buffer_induct) (auto dest!: w)
qed

lemma tls_flush_view:
  assumes "rustls_contract R V decrypt" "tls_flush R answers c = Some (outcome, c')"
  shows "same_view V c c'"
  using assms(2)
proof (induction answers arbitrary: c)
  case Nil
  then show ?case by (subst (asm) tls_flush.simps) (simp add: same_view_def split: if_splits)
next
  case (Cons answer answers)
  obtain r c1 where r: "rl_write_tls R answer c = (r, c1)" by fastforce
  then have "same_view V c c1" using assms(1) unfolding rustls_contract_def rustls_writes_def by blast
  moreover have "c' = c \<or> c' = c1 \<or> tls_flush R answers c1 = Some (outcome, c')"
    using Cons.prems r by (subst (asm) tls_flush.simps) (auto split: if_splits io_result.splits)
  ultimately show ?case using Cons.IH [of c1] by (auto simp: same_view_def)
qed

lemma tls_write_view:
  assumes "rustls_contract R V decrypt" "tls_write R answers c b = Some (outcome, sent, b', c')"
  shows "plain_written V c' = plain_written V c @ sent \<and> plain_read V c' = plain_read V c \<and> tls_received V c' = tls_received V c"
  using assms(2)
proof (cases rule: tls_write_cases)
  case (flushed c1)
  then show ?thesis using tls_buffer_writes [OF assms(1)] tls_flush_view [OF assms(1)] by (fastforce simp: same_view_def)
qed (use tls_buffer_writes [OF assms(1)] in blast)

end
