(* ===== verification/Reactor.thy ===== *)
theory Reactor
  imports Transport State_System
begin

text \<open>
  Sessions and the reactor worker (\<^verbatim>\<open>session.rs\<close>, \<^verbatim>\<open>reactor.rs\<close>, \<open>HostShutdown\<close> of \<^verbatim>\<open>tcp_host.rs\<close>) over any
  transport that meets the contract \<open>reactor_transport\<close>. One worker thread runs \<open>Reactor::run\<close>; any number of other threads call \<open>Session::send\<close>,
  \<open>Session::close\<close> and \<open>HostShutdown::shutdown\<close> or hand over accepted connections. Each lock region, atomic access and
  handler call is one step. Sessions are named by the token of their connection and outlive it, as
  the \<open>Arc\<close> that a sender holds does. The poller is represented by what the code relies on: a waker that stays
  signalled until a poll reports it, and the write interest of a connection. Events of connections and
  socket answers are arbitrary.

  History variables: \<open>accepted\<close> are the bytes for which \<open>append\<close> was done, \<open>wire\<close> those the transport has taken
  (over TCP: the socket),
  \<open>handler_log\<close> the calls of the handler, with the token of the session besides its id,
  \<open>reregister_failed\<close> tells that the poller has refused a change of interest, and \<open>reactor_dropped\<close> that \<open>run\<close> has returned an error.
\<close>

section \<open>State\<close>

record session =
  session_id :: u64
  outbound :: send_buffer
  disposed :: bool
  close_requested :: bool

datatype send_result = Success | BufferFull | Disposed

datatype handler_event = On_Accepted nat u64 | On_Data nat u64 "u8 list" | On_Disconnected nat u64

datatype event = Ev_Listener | Ev_Waker | Ev_Conn nat bool bool

text \<open>Where another thread stands.\<close>

datatype client_pc =
    T_Idle
  | T_Send nat "u8 list"
  | T_Append nat "u8 list"
  | T_Push nat
  | T_Close nat
  | T_Swap nat
  | T_PushClose nat
  | T_Incoming u64
  | T_Stop
  | T_Wake "send_result option"
  | T_Result send_result

text \<open>Where the worker stands in \<open>run\<close>; the events are those of the current batch that are left.\<close>

datatype reactor_pc =
    P_Poll
  | P_Events "event list"
  | P_Incoming "u64 list" "event list"
  | P_TakeWrites "event list"
  | P_Flush "nat list" "event list"
  | P_TakeCloses "event list"
  | P_Closes "nat list" "event list"
  | P_Read nat bool "event list"
  | P_ReadFlush nat bool "event list"
  | P_Writable nat "event list"
  | P_Close nat reactor_pc
  | P_CloseAll "nat list"
  | P_Returned
  | P_Failed

text \<open>A connection owns its transport; \<open>conn_interest\<close> tells whether the poller reports its socket when it is writable.\<close>

record 'c managed_connection =
  conn_interest :: bool
  conn_transport :: 'c

record 'c reactor =
  connections :: "nat \<rightharpoonup> 'c managed_connection"
  transport_factory :: "'c transport"
  sessions :: "nat \<rightharpoonup> session"
  next_token :: nat
  max_pending_send :: nat
  stopped :: bool
  waker_signalled :: bool
  pending_writes :: "nat list"
  pending_closes :: "nat list"
  incoming :: "u64 list"
  next_session_id :: u64
  next_worker :: nat
  peer_count :: nat
  worker :: reactor_pc
  clients :: "nat \<Rightarrow> client_pc"
  accepted :: "nat \<Rightarrow> u8 list"
  wire :: "nat \<Rightarrow> u8 list"
  handler_log :: "handler_event list"
  reregister_failed :: bool
  reactor_dropped :: bool

definition FIRST_CONNECTION_TOKEN :: nat where "FIRST_CONNECTION_TOKEN = 2"

definition new_session :: "u64 \<Rightarrow> nat \<Rightarrow> session" where
  "new_session sid max_pending = \<lparr>session_id = sid, outbound = new_send_buffer max_pending, disposed = False, close_requested = False\<rparr>"

definition new_reactor :: "'c transport \<Rightarrow> nat \<Rightarrow> nat \<Rightarrow> 'c reactor" where
  "new_reactor factory peers max_pending =
     \<lparr>connections = Map.empty, transport_factory = factory, sessions = Map.empty, next_token = FIRST_CONNECTION_TOKEN, max_pending_send = max_pending,
      stopped = False, waker_signalled = False, pending_writes = [], pending_closes = [], incoming = [],
      next_session_id = 1, next_worker = 0, peer_count = peers,
      worker = P_Poll, clients = (\<lambda>_. T_Idle), accepted = (\<lambda>_. []), wire = (\<lambda>_. []), handler_log = [], reregister_failed = False, reactor_dropped = False\<rparr>"

abbreviation client_at :: "nat \<Rightarrow> client_pc \<Rightarrow> 'c reactor \<Rightarrow> 'c reactor" where
  "client_at t pc s \<equiv> s\<lparr>clients := (clients s)(t := pc)\<rparr>"

section \<open>Session operations\<close>

definition update_session :: "nat \<Rightarrow> (session \<Rightarrow> session) \<Rightarrow> 'c reactor \<Rightarrow> 'c reactor" where
  "update_session tok f s = s\<lparr>sessions := (sessions s)(tok := map_option f (sessions s tok))\<rparr>"

definition mark_disposed :: "session \<Rightarrow> session" where
  "mark_disposed ses = ses\<lparr>disposed := True\<rparr>"

fun client_step :: "nat \<Rightarrow> client_pc \<Rightarrow> 'c reactor \<Rightarrow> 'c reactor option" where
  "client_step t (T_Send tok bytes) s =
     map_option (\<lambda>ses. client_at t (if disposed ses \<or> stopped s then T_Result Disposed else T_Append tok bytes) s) (sessions s tok)"
| "client_step t (T_Append tok bytes) s =
     map_option (\<lambda>ses.
       if \<not> can_write (length bytes) (outbound ses) then client_at t (T_Result BufferFull) s
       else client_at t (T_Push tok)
         ((update_session tok (\<lambda>ses. ses\<lparr>outbound := sb_append bytes (outbound ses)\<rparr>) s)
            \<lparr>accepted := (accepted s)(tok := accepted s tok @ bytes)\<rparr>)) (sessions s tok)"
| "client_step t (T_Push tok) s = Some (client_at t (T_Wake (Some Success)) (s\<lparr>pending_writes := pending_writes s @ [tok]\<rparr>))"
| "client_step t (T_Close tok) s =
     map_option (\<lambda>ses. client_at t (if disposed ses then T_Idle else T_Swap tok) s) (sessions s tok)"
| "client_step t (T_Swap tok) s =
     map_option (\<lambda>ses. client_at t (if close_requested ses then T_Idle else T_PushClose tok)
       (update_session tok (\<lambda>ses. ses\<lparr>close_requested := True\<rparr>) s)) (sessions s tok)"
| "client_step t (T_PushClose tok) s = Some (client_at t (T_Wake None) (s\<lparr>pending_closes := pending_closes s @ [tok]\<rparr>))"
| "client_step t (T_Incoming sid) s = Some (client_at t (T_Wake None) (s\<lparr>incoming := incoming s @ [sid]\<rparr>))"
| "client_step t T_Stop s = Some (client_at t (T_Wake None) (s\<lparr>stopped := True\<rparr>))"
| "client_step t (T_Wake res) s =
     Some (client_at t (case res of None \<Rightarrow> T_Idle | Some r \<Rightarrow> T_Result r) (s\<lparr>waker_signalled := True\<rparr>))"
| "client_step t (T_Result r) s = Some (client_at t T_Idle s)"
| "client_step t T_Idle s = None"

section \<open>Reactor operations\<close>

text \<open>
  The accept loop on the answers of the listener: the connections it hands over, as pairs of worker and
  session id, and the two counters after it. \<open>None\<close> is a loop that is still running; an error ends it
  after what it has handed over.
\<close>

datatype accept_answer = Accept_Ok | Accept_WouldBlock | Accept_Interrupted | Accept_Error

fun accept :: "nat \<Rightarrow> accept_answer list \<Rightarrow> u64 \<Rightarrow> nat \<Rightarrow> ((nat \<times> u64) list \<times> bool \<times> u64 \<times> nat) option" where
  "accept peers [] next_id target = None"
| "accept peers (Accept_Ok # answers) next_id target =
     map_option (\<lambda>(assigned, ok, id', target'). ((target, next_id) # assigned, ok, id', target'))
       (accept peers answers (next_id + 1) ((target + 1) mod peers))"
| "accept peers (Accept_WouldBlock # _) next_id target = Some ([], True, next_id, target)"
| "accept peers (Accept_Interrupted # answers) next_id target = accept peers answers next_id target"
| "accept peers (Accept_Error # _) next_id target = Some ([], False, next_id, target)"

text \<open>One connection of \<open>take_incoming\<close>; \<open>registered\<close> is the answer of the poller.\<close>

definition take_one :: "bool \<Rightarrow> u64 \<Rightarrow> 'c reactor \<Rightarrow> 'c reactor" where
  "take_one registered sid s =
     (let tok = next_token s; s' = s\<lparr>next_token := next_token s + 1\<rparr> in
      if \<not> registered then s'
      else s'\<lparr>sessions := (sessions s)(tok \<mapsto> new_session sid (max_pending_send s)),
              connections := (connections s)(tok \<mapsto> \<lparr>conn_interest = False, conn_transport = tr_create (transport_factory s)\<rparr>),
              handler_log := handler_log s @ [On_Accepted tok sid]\<rparr>)"

text \<open>Whether the connection is to be closed, and the state; \<open>None\<close> while the write loop is running.\<close>

definition flush :: "write_answer list \<Rightarrow> bool \<Rightarrow> nat \<Rightarrow> 'c reactor \<Rightarrow> (bool \<times> 'c reactor) option" where
  "flush answers reregistered tok s =
     (case (connections s tok, sessions s tok) of
        (Some connection, Some ses) \<Rightarrow>
          map_option (\<lambda>(outcome, sent, b, c).
            let still_pending = has_pending b \<or> tr_wants_write (transport_factory s) c;
                connection' = connection\<lparr>conn_transport := c\<rparr>;
                s' = (update_session tok (\<lambda>ses. ses\<lparr>outbound := b\<rparr>) s)
                       \<lparr>wire := (wire s)(tok := wire s tok @ sent), connections := (connections s)(tok \<mapsto> connection')\<rparr> in
            if outcome = Closed then (True, s')
            else if reregistered then (False, s'\<lparr>connections := (connections s)(tok \<mapsto> connection'\<lparr>conn_interest := still_pending\<rparr>)\<rparr>)
            else (False, s'\<lparr>reregister_failed := True\<rparr>))
          (tr_write (transport_factory s) answers (conn_transport connection) (outbound ses))
      | _ \<Rightarrow> Some (False, s))"

definition close :: "nat \<Rightarrow> 'c reactor \<Rightarrow> 'c reactor" where
  "close tok s =
     (case (connections s tok, sessions s tok) of
        (Some _, Some ses) \<Rightarrow>
          (update_session tok mark_disposed s)
            \<lparr>connections := (connections s)(tok := None), handler_log := handler_log s @ [On_Disconnected tok (session_id ses)]\<rparr>
      | _ \<Rightarrow> s)"

text \<open>The read half of \<open>Reactor::read\<close>: whether the peer has closed, and the state after \<open>on_data\<close>.\<close>

definition read :: "read_answer list \<Rightarrow> nat \<Rightarrow> 'c reactor \<Rightarrow> (bool \<times> 'c reactor) option" where
  "read answers tok s =
     (case (connections s tok, sessions s tok) of
        (Some connection, Some ses) \<Rightarrow>
          map_option (\<lambda>(outcome, scratch, c).
            let s' = s\<lparr>connections := (connections s)(tok \<mapsto> connection\<lparr>conn_transport := c\<rparr>)\<rparr> in
            (outcome = Closed,
             if scratch = [] then s' else s'\<lparr>handler_log := handler_log s @ [On_Data tok (session_id ses) scratch]\<rparr>))
          (tr_read (transport_factory s) answers (conn_transport connection) [])
      | _ \<Rightarrow> Some (False, s))"

abbreviation worker_at :: "reactor_pc \<Rightarrow> 'c reactor \<Rightarrow> 'c reactor" where
  "worker_at pc s \<equiv> s\<lparr>worker := pc\<rparr>"

text \<open>
  When \<open>run\<close> returns an error, the reactor it owns is dropped: its connections, and with them their sockets and
  transports, are gone, without \<open>close\<close>. The sessions live on in the hands of their senders.
\<close>

definition drop_reactor :: "'c reactor \<Rightarrow> 'c reactor" where
  "drop_reactor s = s\<lparr>worker := P_Failed, connections := Map.empty, reactor_dropped := True\<rparr>"

lemma drop_reactor_simps [simp]:
  "worker (drop_reactor s) = P_Failed" "connections (drop_reactor s) = Map.empty" "reactor_dropped (drop_reactor s)"
  "sessions (drop_reactor s) = sessions s" "handler_log (drop_reactor s) = handler_log s" "clients (drop_reactor s) = clients s"
  "wire (drop_reactor s) = wire s" "accepted (drop_reactor s) = accepted s" "next_token (drop_reactor s) = next_token s"
  "max_pending_send (drop_reactor s) = max_pending_send s" "transport_factory (drop_reactor s) = transport_factory s"
  "waker_signalled (drop_reactor s) = waker_signalled s" "stopped (drop_reactor s) = stopped s" "incoming (drop_reactor s) = incoming s"
  "pending_writes (drop_reactor s) = pending_writes s" "pending_closes (drop_reactor s) = pending_closes s"
  by (simp_all add: drop_reactor_def)

text \<open>The answers of poller and sockets that one step of the worker sees.\<close>

record answers =
  ans_events :: "event list"
  ans_ok :: bool
  ans_reads :: "read_answer list"
  ans_writes :: "write_answer list"
  ans_accepts :: "accept_answer list"
  ans_tokens :: "nat list"

fun run_step :: "nat \<Rightarrow> answers \<Rightarrow> reactor_pc \<Rightarrow> 'c reactor \<Rightarrow> 'c reactor option" where
  "run_step me a P_Poll s =
     (if ans_ok a then
        if Ev_Waker \<in> set (ans_events a) \<and> \<not> waker_signalled s then None
        else Some (worker_at (P_Events (ans_events a))
               (s\<lparr>waker_signalled := (waker_signalled s \<and> Ev_Waker \<notin> set (ans_events a))\<rparr>))
      else Some (drop_reactor s))"
| "run_step me a (P_Events []) s = Some (worker_at P_Poll s)"
| "run_step me a (P_Events (Ev_Listener # evs)) s =
     (if me \<noteq> 0 then Some (worker_at (P_Events evs) s) else
      map_option (\<lambda>(assigned, ok, id', target').
       let own = map snd (filter (\<lambda>(w, _). w = me) assigned) in
       (if ok then worker_at (P_Events evs) else drop_reactor)
         (s\<lparr>incoming := incoming s @ own, waker_signalled := (waker_signalled s \<or> own \<noteq> []),
            next_session_id := id', next_worker := target'\<rparr>))
       (accept (peer_count s) (ans_accepts a) (next_session_id s) (next_worker s)))"
| "run_step me a (P_Events (Ev_Waker # evs)) s =
     (if stopped s then
        if distinct (ans_tokens a) \<and> set (ans_tokens a) = dom (connections s) then Some (worker_at (P_CloseAll (ans_tokens a)) s)
        else None
      else Some (worker_at (P_Incoming (incoming s) evs) (s\<lparr>incoming := []\<rparr>)))"
| "run_step me a (P_Events (Ev_Conn tok readable writable # evs)) s =
     Some (worker_at (if readable then P_Read tok writable evs else if writable then P_Writable tok evs else P_Events evs) s)"
| "run_step me a (P_Incoming [] evs) s = Some (worker_at (P_TakeWrites evs) s)"
| "run_step me a (P_Incoming (sid # ids) evs) s = Some (worker_at (P_Incoming ids evs) (take_one (ans_ok a) sid s))"
| "run_step me a (P_TakeWrites evs) s = Some (worker_at (P_Flush (pending_writes s) evs) (s\<lparr>pending_writes := []\<rparr>))"
| "run_step me a (P_Flush [] evs) s = Some (worker_at (P_TakeCloses evs) s)"
| "run_step me a (P_Flush (tok # toks) evs) s =
     map_option (\<lambda>(closed, s'). worker_at (if closed then P_Close tok (P_Flush toks evs) else P_Flush toks evs) s')
       (flush (ans_writes a) (ans_ok a) tok s)"
| "run_step me a (P_TakeCloses evs) s = Some (worker_at (P_Closes (pending_closes s) evs) (s\<lparr>pending_closes := []\<rparr>))"
| "run_step me a (P_Closes [] evs) s = Some (worker_at (P_Events evs) s)"
| "run_step me a (P_Closes (tok # toks) evs) s = Some (worker_at (P_Closes toks evs) (close tok s))"
| "run_step me a (P_Read tok writable evs) s =
     (case connections s tok of
        None \<Rightarrow> Some (worker_at (if writable then P_Writable tok evs else P_Events evs) s)
      | Some _ \<Rightarrow>
          map_option (\<lambda>(closed, s'). worker_at (if closed then P_Close tok (P_Events evs) else P_ReadFlush tok writable evs) s')
            (read (ans_reads a) tok s))"
| "run_step me a (P_ReadFlush tok writable evs) s =
     map_option (\<lambda>(closed, s'). worker_at
       (if closed then P_Close tok (P_Events evs) else if writable then P_Writable tok evs else P_Events evs) s')
       (flush (ans_writes a) (ans_ok a) tok s)"
| "run_step me a (P_Writable tok evs) s =
     map_option (\<lambda>(closed, s'). worker_at (if closed then P_Close tok (P_Events evs) else P_Events evs) s')
       (flush (ans_writes a) (ans_ok a) tok s)"
| "run_step me a (P_Close tok next) s = Some (worker_at next (close tok s))"
| "run_step me a (P_CloseAll []) s = Some (worker_at P_Returned s)"
| "run_step me a (P_CloseAll (tok # toks)) s = Some (worker_at (P_CloseAll toks) (close tok s))"
| "run_step me a P_Returned s = None"
| "run_step me a P_Failed s = None"

text \<open>
  Any thread may call into a session it has been given, stop the host, or be the accepting worker
  that hands over a connection.
\<close>

inductive reactor_step :: "nat \<Rightarrow> 'c reactor \<Rightarrow> 'c reactor \<Rightarrow> bool" for me where
  start_send: "clients s t = T_Idle \<Longrightarrow> sessions s tok \<noteq> None \<Longrightarrow> reactor_step me s (client_at t (T_Send tok bytes) s)"
| start_close: "clients s t = T_Idle \<Longrightarrow> sessions s tok \<noteq> None \<Longrightarrow> reactor_step me s (client_at t (T_Close tok) s)"
| start_stop: "clients s t = T_Idle \<Longrightarrow> reactor_step me s (client_at t T_Stop s)"
| start_incoming: "clients s t = T_Idle \<Longrightarrow> me \<noteq> 0 \<Longrightarrow> reactor_step me s (client_at t (T_Incoming sid) s)"
| client: "client_step t (clients s t) s = Some s' \<Longrightarrow> reactor_step me s s'"
| worker: "run_step me a (worker s) s = Some s' \<Longrightarrow> reactor_step me s s'"

definition fresh_reactor :: "'c reactor \<Rightarrow> bool" where
  "fresh_reactor s \<longleftrightarrow> (\<exists>factory peers max_pending. reactor_transport factory \<and> 0 < peers \<and> s = new_reactor factory peers max_pending)"

abbreviation reactor_reach :: "nat \<Rightarrow> 'c reactor \<Rightarrow> bool" where
  "reactor_reach me \<equiv> reach fresh_reactor (reactor_step me)"

section \<open>Sessions\<close>

fun event_token :: "handler_event \<Rightarrow> nat" where
  "event_token (On_Accepted tok _) = tok"
| "event_token (On_Data tok _ _) = tok"
| "event_token (On_Disconnected tok _) = tok"

text \<open>The calls of the handler about one connection.\<close>

definition calls_for :: "nat \<Rightarrow> 'c reactor \<Rightarrow> handler_event list" where
  "calls_for tok s = filter (\<lambda>e. event_token e = tok) (handler_log s)"

definition life :: "nat \<Rightarrow> session \<Rightarrow> u8 list list \<Rightarrow> handler_event list" where
  "life tok ses ds = On_Accepted tok (session_id ses) # map (On_Data tok (session_id ses)) ds @
     (if disposed ses then [On_Disconnected tok (session_id ses)] else [])"

definition sess_ok :: "'c reactor \<Rightarrow> nat \<Rightarrow> bool" where
  "sess_ok s tok \<longleftrightarrow>
     (case sessions s tok of
        None \<Rightarrow> connections s tok = None \<and> accepted s tok = [] \<and> wire s tok = [] \<and> calls_for tok s = []
      | Some ses \<Rightarrow>
          tok < next_token s \<and> buffer_ok (outbound ses) \<and> sb_max_pending (outbound ses) = max_pending_send s \<and>
          accepted s tok = wire s tok @ pending_slice (outbound ses) \<and> (disposed ses \<longrightarrow> connections s tok = None) \<and>
          (connections s tok = None \<longrightarrow> disposed ses \<or> reactor_dropped s) \<and> (\<exists>ds. calls_for tok s = life tok ses ds))"

definition session_inv :: "'c reactor \<Rightarrow> bool" where
  "session_inv s \<longleftrightarrow> reactor_transport (transport_factory s) \<and> (\<forall>tok. sess_ok s tok)"

lemma session_inv_frame [simp]:
  "session_inv (s\<lparr>worker := pc\<rparr>) = session_inv s" "session_inv (s\<lparr>clients := cs\<rparr>) = session_inv s"
  "session_inv (s\<lparr>waker_signalled := b\<rparr>) = session_inv s" "session_inv (s\<lparr>pending_writes := ts\<rparr>) = session_inv s"
  "session_inv (s\<lparr>pending_closes := ts\<rparr>) = session_inv s" "session_inv (s\<lparr>incoming := ids\<rparr>) = session_inv s"
  "session_inv (s\<lparr>stopped := b\<rparr>) = session_inv s" "session_inv (s\<lparr>next_session_id := n\<rparr>) = session_inv s"
  "session_inv (s\<lparr>next_worker := w\<rparr>) = session_inv s" "session_inv (s\<lparr>reregister_failed := b\<rparr>) = session_inv s"
  by (simp_all add: session_inv_def sess_ok_def calls_for_def cong: option.case_cong)

lemma session_inv_drop:
  assumes "session_inv s"
  shows "session_inv (drop_reactor s)"
proof -
  have "sess_ok (drop_reactor s) tok" if "sess_ok s tok" for tok
    using that by (simp add: sess_ok_def calls_for_def split: option.splits)
  then show ?thesis using assms by (simp add: session_inv_def)
qed

text \<open>An operation that changes the session of one token only.\<close>

lemma session_inv_at:
  assumes "session_inv s" "sess_ok s' tok" "max_pending_send s' = max_pending_send s" "next_token s \<le> next_token s'"
    "\<And>t. t \<noteq> tok \<Longrightarrow> sessions s' t = sessions s t \<and> connections s' t = connections s t \<and> accepted s' t = accepted s t \<and>
       wire s' t = wire s t \<and> calls_for t s' = calls_for t s"
    "transport_factory s' = transport_factory s" "reactor_dropped s \<Longrightarrow> reactor_dropped s'"
  shows "session_inv s'"
proof -
  have "sess_ok s' t" for t
  proof (cases "t = tok")
    case False
    have "sess_ok s t" using assms(1) by (simp add: session_inv_def)
    then show ?thesis using assms(3,4,7) assms(5) [OF False] by (auto simp: sess_ok_def split: option.splits)
  qed (use assms(2) in simp)
  then show ?thesis using assms(1,6) by (simp add: session_inv_def)
qed

lemma life_frame [simp]:
  "life tok (ses\<lparr>outbound := b\<rparr>) ds = life tok ses ds" "life tok (ses\<lparr>close_requested := c\<rparr>) ds = life tok ses ds"
  by (simp_all add: life_def)

lemma calls_for_frame [simp]:
  "calls_for t (s\<lparr>sessions := m\<rparr>) = calls_for t s" "calls_for t (s\<lparr>connections := c\<rparr>) = calls_for t s"
  "calls_for t (s\<lparr>accepted := x\<rparr>) = calls_for t s" "calls_for t (s\<lparr>wire := x\<rparr>) = calls_for t s"
  "calls_for t (s\<lparr>next_token := n\<rparr>) = calls_for t s" "calls_for t (s\<lparr>reregister_failed := b\<rparr>) = calls_for t s"
  "calls_for t (s\<lparr>handler_log := handler_log s @ [e]\<rparr>) = (if event_token e = t then calls_for t s @ [e] else calls_for t s)"
  by (simp_all add: calls_for_def)

lemma sess_okI [intro]: "session_inv s \<Longrightarrow> sess_ok s tok"
  by (simp add: session_inv_def)

lemma session_inv_append:
  assumes "session_inv s" "sessions s tok = Some ses" "can_write (length bytes) (outbound ses)"
  shows "session_inv ((update_session tok (\<lambda>ses. ses\<lparr>outbound := sb_append bytes (outbound ses)\<rparr>) s)
            \<lparr>accepted := (accepted s)(tok := accepted s tok @ bytes)\<rparr>)"
  by (rule session_inv_at [OF assms(1), of _ tok])
     (use sess_okI [OF assms(1), of tok] assms(2,3) in \<open>auto simp: update_session_def sess_ok_def\<close>)

lemma session_inv_close_request:
  assumes "session_inv s"
  shows "session_inv (update_session tok (\<lambda>ses. ses\<lparr>close_requested := True\<rparr>) s)"
  by (rule session_inv_at [OF assms, of _ tok])
     (use sess_okI [OF assms, of tok] in \<open>auto simp: update_session_def sess_ok_def split: option.splits\<close>)

lemma session_inv_take_one:
  assumes "session_inv s"
  shows "session_inv (take_one registered sid s)"
proof -
  have "sess_ok s (next_token s)" using assms by (simp add: session_inv_def)
  then have none: "sessions s (next_token s) = None" by (auto simp: sess_ok_def split: option.splits)
  then have "sess_ok (take_one registered sid s) (next_token s)"
    using \<open>sess_ok s (next_token s)\<close>
    by (auto simp: take_one_def sess_ok_def calls_for_def life_def new_session_def new_send_buffer_def Let_def)
       (simp_all add: buffer_ok_def pending_len_def pending_slice_def)
  then show ?thesis
    by (rule session_inv_at [OF assms]) (auto simp: take_one_def Let_def calls_for_def)
qed

lemma session_inv_close:
  assumes "session_inv s"
  shows "session_inv (close tok s)"
proof (cases "connections s tok")
  case (Some interest)
  have ok: "sess_ok s tok" using assms by (simp add: session_inv_def)
  then obtain ses where ses: "sessions s tok = Some ses" using Some by (auto simp: sess_ok_def split: option.splits)
  have "sess_ok (close tok s) tok"
    using ok ses Some
    by (auto simp: close_def sess_ok_def update_session_def mark_disposed_def calls_for_def life_def)
  then show ?thesis
    by (rule session_inv_at [OF assms]) (use ses Some in \<open>auto simp: close_def update_session_def calls_for_def\<close>)
qed (use assms in \<open>simp add: close_def\<close>)

lemma session_inv_flush:
  assumes "session_inv s" "flush ws ok tok s = Some (closed, s')"
  shows "session_inv s'"
proof (cases "connections s tok")
  case (Some conn)
  have inv: "sess_ok s tok" and writer: "buffered_writer (transport_factory s)"
    using assms by (simp_all add: session_inv_def reactor_transport_def)
  then obtain ses where ses: "sessions s tok = Some ses" using Some by (auto simp: sess_ok_def split: option.splits)
  then obtain outcome sent b c where
    w: "tr_write (transport_factory s) ws (conn_transport conn) (outbound ses) = Some (outcome, sent, b, c)"
    using assms(2) Some by (auto simp: flush_def)
  have "accepted s tok = (wire s tok @ sent) @ pending_slice b" "sb_max_pending b = max_pending_send s" "buffer_ok b"
    using buffered_writer.history_kept [OF writer w] buffered_writer.keeps_limit [OF writer w]
      buffered_writer.keeps_ok [OF writer w] inv ses by (auto simp: sess_ok_def)
  then show ?thesis
    by (intro session_inv_at [OF assms(1), of _ tok])
       (use inv w ses Some assms(2) in
         \<open>auto simp: flush_def Let_def update_session_def sess_ok_def calls_for_def life_def split: if_splits\<close>)
qed (use assms in \<open>simp add: flush_def\<close>)

lemma session_inv_read:
  assumes "session_inv s" "read rs tok s = Some (closed, s')"
  shows "session_inv s'"
proof (cases "connections s tok")
  case (Some conn)
  have inv: "sess_ok s tok" using assms by (simp add: session_inv_def)
  then obtain ses ds where ses: "sessions s tok = Some ses" "\<not> disposed ses" "calls_for tok s = life tok ses ds"
    using Some by (auto simp: sess_ok_def split: option.splits)
  then obtain outcome scratch c where
    "tr_read (transport_factory s) rs (conn_transport conn) [] = Some (outcome, scratch, c)"
    using assms(2) Some by (auto simp: read_def)
  then have s': "s' = (if scratch = [] then s\<lparr>connections := (connections s)(tok \<mapsto> conn\<lparr>conn_transport := c\<rparr>)\<rparr>
      else s\<lparr>connections := (connections s)(tok \<mapsto> conn\<lparr>conn_transport := c\<rparr>),
             handler_log := handler_log s @ [On_Data tok (session_id ses) scratch]\<rparr>)"
    using assms(2) Some ses(1) by (simp add: read_def Let_def)
  have "life tok ses ds @ [On_Data tok (session_id ses) scratch] = life tok ses (ds @ [scratch])" using ses(2) by (simp add: life_def)
  then have "sess_ok s' tok"
    using inv ses Some s' by (auto simp: sess_ok_def calls_for_def)
  then show ?thesis
    by (rule session_inv_at [OF assms(1)]) (auto simp: s' calls_for_def)
qed (use assms in \<open>simp add: read_def\<close>)

lemmas session_inv_ops = session_inv_append session_inv_close_request session_inv_take_one session_inv_close
  session_inv_flush session_inv_read session_inv_drop

lemma session_inv_step:
  assumes "session_inv s" "reactor_step me s s'"
  shows "session_inv s'"
  using assms(2)
proof cases
  case (client t)
  then show ?thesis
    using assms(1) by (cases "clients s t") (auto intro: session_inv_ops)
next
  case (worker a)
  then show ?thesis
    using assms(1)
    by (cases "(me, a, reactor.worker s, s)" rule: run_step.cases)
       (auto simp: Let_def split: if_splits option.splits intro: session_inv_ops)
qed (use assms(1) in simp_all)

lemma session_inv_init: "fresh_reactor s \<Longrightarrow> session_inv s"
  by (auto simp: fresh_reactor_def new_reactor_def session_inv_def sess_ok_def calls_for_def)

interpretation sess: invariant_system fresh_reactor "reactor_step me" session_inv
  by unfold_locales (auto intro: session_inv_init session_inv_step)

section \<open>Wake-ups\<close>

text \<open>The events of the batch that the worker has still to look at.\<close>

fun events_left :: "reactor_pc \<Rightarrow> event list" where
  "events_left (P_Events evs) = evs"
| "events_left (P_Incoming _ evs) = evs"
| "events_left (P_TakeWrites evs) = evs"
| "events_left (P_Flush _ evs) = evs"
| "events_left (P_TakeCloses evs) = evs"
| "events_left (P_Closes _ evs) = evs"
| "events_left (P_Read _ _ evs) = evs"
| "events_left (P_ReadFlush _ _ evs) = evs"
| "events_left (P_Writable _ evs) = evs"
| "events_left (P_Close _ next) = events_left next"
| "events_left _ = []"

fun ended :: "reactor_pc \<Rightarrow> bool" where
  "ended (P_CloseAll _) \<longleftrightarrow> True"
| "ended P_Returned \<longleftrightarrow> True"
| "ended P_Failed \<longleftrightarrow> True"
| "ended _ \<longleftrightarrow> False"

text \<open>The worker is in the handling of a wake-up and has not yet taken the writes, or the closes.\<close>

fun before_writes :: "reactor_pc \<Rightarrow> bool" where
  "before_writes (P_Incoming _ _) \<longleftrightarrow> True"
| "before_writes (P_TakeWrites _) \<longleftrightarrow> True"
| "before_writes _ \<longleftrightarrow> False"

fun before_closes :: "reactor_pc \<Rightarrow> bool" where
  "before_closes (P_Incoming _ _) \<longleftrightarrow> True"
| "before_closes (P_TakeWrites _) \<longleftrightarrow> True"
| "before_closes (P_Flush _ _) \<longleftrightarrow> True"
| "before_closes (P_TakeCloses _) \<longleftrightarrow> True"
| "before_closes (P_Close _ next) \<longleftrightarrow> before_closes next"
| "before_closes _ \<longleftrightarrow> False"

definition waking :: "client_pc \<Rightarrow> bool" where
  "waking pc \<longleftrightarrow> (\<exists>res. pc = T_Wake res)"

text \<open>The worker will look at its queues again.\<close>

definition wake_due :: "'c reactor \<Rightarrow> bool" where
  "wake_due s \<longleftrightarrow> waker_signalled s \<or> some_at waking (clients s) \<or> Ev_Waker \<in> set (events_left (worker s)) \<or> ended (worker s)"

definition wake_inv :: "'c reactor \<Rightarrow> bool" where
  "wake_inv s \<longleftrightarrow>
     (pending_writes s \<noteq> [] \<longrightarrow> wake_due s \<or> before_writes (worker s)) \<and>
     (pending_closes s \<noteq> [] \<longrightarrow> wake_due s \<or> before_closes (worker s)) \<and>
     (incoming s \<noteq> [] \<or> stopped s \<longrightarrow> wake_due s)"

text \<open>Closing, flushing, reading and accepting leave the queues, the waker and the other threads alone.\<close>

definition same_queues :: "'c reactor \<Rightarrow> 'c reactor \<Rightarrow> bool" where
  "same_queues s s' \<longleftrightarrow> pending_writes s' = pending_writes s \<and> pending_closes s' = pending_closes s \<and>
     incoming s' = incoming s \<and> stopped s' = stopped s \<and> waker_signalled s' = waker_signalled s \<and> clients s' = clients s"

lemma same_queues_ops:
  "same_queues s (close tok s)" "same_queues s (take_one ok sid s)"
  "flush ws ok tok s = Some (closed, s') \<Longrightarrow> same_queues s s'"
  "read rs tok s = Some (closed, s') \<Longrightarrow> same_queues s s'"
  by (auto simp: same_queues_def close_def take_one_def flush_def read_def update_session_def Let_def
      split: option.splits if_splits prod.splits)

lemma wake_inv_queues:
  assumes "wake_inv s" "same_queues s s'" "worker s = pc"
    "before_writes pc \<Longrightarrow> before_writes pc'" "before_closes pc \<Longrightarrow> before_closes pc'"
    "Ev_Waker \<in> set (events_left pc) \<Longrightarrow> Ev_Waker \<in> set (events_left pc')" "ended pc \<Longrightarrow> ended pc'"
  shows "wake_inv (s'\<lparr>worker := pc'\<rparr>)"
  using assms unfolding wake_inv_def wake_due_def same_queues_def by auto

lemma wake_inv_goto:
  assumes "wake_inv s" "before_writes (worker s) \<Longrightarrow> before_writes pc'" "before_closes (worker s) \<Longrightarrow> before_closes pc'"
    "Ev_Waker \<in> set (events_left (worker s)) \<Longrightarrow> Ev_Waker \<in> set (events_left pc')" "ended (worker s) \<Longrightarrow> ended pc'"
  shows "wake_inv (s\<lparr>worker := pc'\<rparr>)"
  by (rule wake_inv_queues [OF assms(1), of s, where pc = "worker s"]) (use assms in \<open>auto simp: same_queues_def\<close>)

lemma client_step_worker: "client_step t pc s = Some s' \<Longrightarrow> worker s' = worker s"
  by (erule client_step.elims) (auto simp: update_session_def map_option_case split: if_splits option.splits)

lemma client_step_clients: "client_step t pc s = Some s' \<Longrightarrow> \<exists>pc'. clients s' = (clients s)(t := pc')"
  by (erule client_step.elims) (auto simp: update_session_def map_option_case split: if_splits option.splits)

lemma client_step_waker:
  "client_step t pc s = Some s' \<Longrightarrow> waker_signalled s \<Longrightarrow> waker_signalled s'"
  "client_step t (T_Wake res) s = Some s' \<Longrightarrow> waker_signalled s'"
  by (erule client_step.elims; auto simp: update_session_def map_option_case split: if_splits option.splits)+

lemma client_step_queues:
  "client_step t pc s = Some s' \<Longrightarrow> waking (clients s' t) \<or> pending_writes s' = pending_writes s \<and>
     pending_closes s' = pending_closes s \<and> incoming s' = incoming s \<and> stopped s' = stopped s"
  by (erule client_step.elims) (auto simp: update_session_def map_option_case waking_def split: if_splits option.splits)

lemma wake_inv_client:
  assumes "wake_inv s" "client_step t (clients s t) s = Some s'"
  shows "wake_inv s'"
proof -
  obtain pc' where pc': "clients s' = (clients s)(t := pc')" using client_step_clients [OF assms(2)] ..
  have shape: "worker s' = worker s" "clients s' = (clients s)(t := clients s' t)" "waker_signalled s \<Longrightarrow> waker_signalled s'"
    using client_step_worker [OF assms(2)] client_step_waker(1) [OF assms(2)] pc' by simp_all
  have "waker_signalled s'" if "waking (clients s t)"
    using that client_step_waker(2) [of t _ s s'] assms(2) by (auto simp: waking_def)
  note shape = shape this client_step_queues [OF assms(2)]
  have "some_at waking (clients s') \<longleftrightarrow> waking (clients s' t) \<or> some_at waking (clients s)" if "\<not> waking (clients s t)"
    using some_at_upd [of waking "clients s" t "clients s' t"] that shape(2) by simp
  moreover have "some_at waking (clients s')" if "waking (clients s' t)" using that by (auto simp: some_at_def)
  ultimately have "wake_due s \<Longrightarrow> wake_due s'" "waking (clients s' t) \<Longrightarrow> wake_due s'"
    using shape(1,3,4) unfolding wake_due_def by auto
  then show ?thesis using assms(1) shape(1,5) unfolding wake_inv_def by auto
qed

lemma wake_inv_accept:
  assumes "wake_inv s" "worker s = P_Events (Ev_Listener # evs)" "run_step me a (worker s) s = Some s'"
  shows "wake_inv s'"
proof (cases "me = 0")
  case True
  then obtain assigned ok i w where
    "accept (peer_count s) (ans_accepts a) (next_session_id s) (next_worker s) = Some (assigned, ok, i, w)"
    using assms(2,3) by (auto simp: Let_def)
  moreover define own where "own = map snd (filter (\<lambda>(w, _). w = me) assigned)"
  ultimately have s': "s' = (if ok then worker_at (P_Events evs) else drop_reactor)
      (s\<lparr>incoming := incoming s @ own, waker_signalled := (waker_signalled s \<or> own \<noteq> []), next_session_id := i, next_worker := w\<rparr>)"
    using assms(2,3) True by (simp add: Let_def)
  have "wake_due s \<or> own \<noteq> [] \<Longrightarrow> wake_due s'" using s' assms(2) by (auto simp: wake_due_def split: if_splits)
  then show ?thesis using assms(1,2) s' by (auto simp: wake_inv_def split: if_splits)
next
  case False
  then show ?thesis using assms by (auto simp: wake_inv_def wake_due_def)
qed

lemma wake_inv_worker:
  assumes "wake_inv s" "run_step me a (worker s) s = Some s'"
  shows "wake_inv s'"
proof (cases "(me, a, worker s, s)" rule: run_step.cases)
  case (3 me' a' evs s'')
  then show ?thesis using assms wake_inv_accept by blast
next
  case (10 me' a' tok toks evs s'')
  then obtain closed x where x: "flush (ans_writes a) (ans_ok a) tok s = Some (closed, x)"
    "s' = worker_at (if closed then P_Close tok (P_Flush toks evs) else P_Flush toks evs) x" using assms(2) by auto
  show ?thesis
    unfolding x(2) by (rule wake_inv_queues [OF assms(1) same_queues_ops(3) [OF x(1)], where pc = "worker s"]) (use 10 in \<open>auto split: if_splits\<close>)
next
  case (14 me' a' tok w evs s'')
  show ?thesis
  proof (cases "connections s tok")
    case None
    then have s': "s' = worker_at (if w then P_Writable tok evs else P_Events evs) s" using 14 assms(2) by auto
    have "same_queues s s" by (simp add: same_queues_def)
    then show ?thesis unfolding s' by (rule wake_inv_queues [OF assms(1), where pc = "P_Read tok w evs"]) (use 14 in auto)
  next
    case (Some i)
    then obtain closed x where x: "read (ans_reads a) tok s = Some (closed, x)"
      "s' = worker_at (if closed then P_Close tok (P_Events evs) else P_ReadFlush tok w evs) x" using 14 assms(2) by auto
    show ?thesis
      unfolding x(2) by (rule wake_inv_queues [OF assms(1) same_queues_ops(4) [OF x(1)], where pc = "worker s"]) (use 14 in \<open>auto split: if_splits\<close>)
  qed
next
  case (15 me' a' tok w evs s'')
  then obtain closed x where x: "flush (ans_writes a) (ans_ok a) tok s = Some (closed, x)"
    "s' = worker_at (if closed then P_Close tok (P_Events evs) else if w then P_Writable tok evs else P_Events evs) x" using assms(2) by auto
  show ?thesis
    unfolding x(2) by (rule wake_inv_queues [OF assms(1) same_queues_ops(3) [OF x(1)], where pc = "worker s"]) (use 15 in \<open>auto split: if_splits\<close>)
next
  case (16 me' a' tok evs s'')
  then obtain closed x where x: "flush (ans_writes a) (ans_ok a) tok s = Some (closed, x)"
    "s' = worker_at (if closed then P_Close tok (P_Events evs) else P_Events evs) x" using assms(2) by auto
  show ?thesis
    unfolding x(2) by (rule wake_inv_queues [OF assms(1) same_queues_ops(3) [OF x(1)], where pc = "worker s"]) (use 16 in \<open>auto split: if_splits\<close>)
next
  case (7 me' a' sid ids evs s'')
  then have s': "s' = worker_at (P_Incoming ids evs) (take_one (ans_ok a) sid s)" using assms(2) by auto
  show ?thesis
    unfolding s' by (rule wake_inv_queues [OF assms(1) same_queues_ops(2), where pc = "P_Incoming (sid # ids) evs"]) (use 7 in auto)
next
  case (13 me' a' tok toks evs s'')
  then have s': "s' = worker_at (P_Closes toks evs) (close tok s)" using assms(2) by auto
  show ?thesis
    unfolding s' by (rule wake_inv_queues [OF assms(1) same_queues_ops(1), where pc = "P_Closes (tok # toks) evs"]) (use 13 in auto)
next
  case (17 me' a' tok nxt s'')
  then have s': "s' = worker_at (nxt) (close tok s)" using assms(2) by auto
  show ?thesis
    unfolding s' by (rule wake_inv_queues [OF assms(1) same_queues_ops(1), where pc = "P_Close tok nxt"]) (use 17 in auto)
next
  case (19 me' a' tok toks s'')
  then have s': "s' = worker_at (P_CloseAll toks) (close tok s)" using assms(2) by auto
  show ?thesis
    unfolding s' by (rule wake_inv_queues [OF assms(1) same_queues_ops(1), where pc = "P_CloseAll (tok # toks)"]) (use 19 in auto)
next
  case (1 me' a' s'')
  then have pc: "worker s = P_Poll" by blast
  have "wake_due s \<Longrightarrow> wake_due s'" using pc assms(2) by (auto simp: wake_due_def split: if_splits)
  moreover have "pending_writes s' = pending_writes s \<and> pending_closes s' = pending_closes s \<and> incoming s' = incoming s \<and> stopped s' = stopped s"
    using pc assms(2) by (auto split: if_splits)
  ultimately show ?thesis using assms(1) pc unfolding wake_inv_def by simp
next
  case (2 me' a' s'')
  then have "s' = worker_at (P_Poll) s" using assms(2) by auto
  then show ?thesis using wake_inv_goto [OF assms(1), of "P_Poll"] 2 by auto
next
  case (4 me' a' evs s'')
  show ?thesis
  proof (cases "stopped s")
    case True
    then have "wake_due s'" using 4 assms(2) by (auto simp: wake_due_def split: if_splits)
    then show ?thesis by (simp add: wake_inv_def)
  next
    case False
    then have "s' = worker_at (P_Incoming (incoming s) evs) (s\<lparr>incoming := []\<rparr>)" using 4 assms(2) by auto
    then show ?thesis using False by (simp add: wake_inv_def)
  qed
next
  case (5 me' a' tok readable writable evs s'')
  then have "s' = worker_at (if readable then P_Read tok writable evs else if writable then P_Writable tok evs else P_Events evs) s" using assms(2) by auto
  then show ?thesis using wake_inv_goto [OF assms(1), of "if readable then P_Read tok writable evs else if writable then P_Writable tok evs else P_Events evs"] 5 by auto
next
  case (6 me' a' evs s'')
  then have "s' = worker_at (P_TakeWrites evs) s" using assms(2) by auto
  then show ?thesis using wake_inv_goto [OF assms(1), of "P_TakeWrites evs"] 6 by auto
next
  case (8 me' a' evs s'')
  then have s': "s' = worker_at (P_Flush (pending_writes s) evs) (s\<lparr>pending_writes := []\<rparr>)" using assms(2) by auto
  moreover have pc: "worker s = P_TakeWrites evs" using 8 by blast
  ultimately have "wake_due s \<Longrightarrow> wake_due s'" by (simp add: wake_due_def)
  then show ?thesis using assms(1) pc s' unfolding wake_inv_def by simp
next
  case (9 me' a' evs s'')
  then have "s' = worker_at (P_TakeCloses evs) s" using assms(2) by auto
  then show ?thesis using wake_inv_goto [OF assms(1), of "P_TakeCloses evs"] 9 by auto
next
  case (11 me' a' evs s'')
  then have s': "s' = worker_at (P_Closes (pending_closes s) evs) (s\<lparr>pending_closes := []\<rparr>)" using assms(2) by auto
  moreover have pc: "worker s = P_TakeCloses evs" using 11 by blast
  ultimately have "wake_due s \<Longrightarrow> wake_due s'" by (simp add: wake_due_def)
  then show ?thesis using assms(1) pc s' unfolding wake_inv_def by simp
next
  case (12 me' a' evs s'')
  then have "s' = worker_at (P_Events evs) s" using assms(2) by auto
  then show ?thesis using wake_inv_goto [OF assms(1), of "P_Events evs"] 12 by auto
next
  case (18 me' a' s'')
  then have "s' = worker_at (P_Returned) s" using assms(2) by auto
  then show ?thesis using wake_inv_goto [OF assms(1), of "P_Returned"] 18 by auto
qed (use assms(2) in simp_all)

lemma wake_inv_init: "fresh_reactor s \<Longrightarrow> wake_inv s"
  by (auto simp: fresh_reactor_def new_reactor_def wake_inv_def)

lemma wake_inv_step:
  assumes "wake_inv s" "reactor_step me s s'"
  shows "wake_inv s'"
  using assms(2)
proof cases
  case (client t)
  then show ?thesis using assms(1) wake_inv_client by blast
next
  case (worker a)
  then show ?thesis using assms(1) wake_inv_worker by blast
qed (use assms(1) in \<open>auto simp: wake_inv_def wake_due_def waking_def some_at_upd\<close>)

interpretation wake: invariant_system fresh_reactor "reactor_step me" wake_inv
  by unfold_locales (auto intro: wake_inv_init wake_inv_step)

text \<open>
  C11: no request is lost between the worker's polls. When the worker is about to poll, its waker is not
  signalled and no thread is between queueing a request and waking the worker, then nothing is queued:
  no write, no close and no new connection is waiting, and the host has not been stopped. So every
  send, close, hand-over and shutdown reaches a worker that sleeps.
\<close>

theorem worker_misses_no_request:
  assumes "reactor_reach me s" "worker s = P_Poll" "\<not> waker_signalled s" "\<And>t res. clients s t \<noteq> T_Wake res"
  shows "pending_writes s = [] \<and> pending_closes s = [] \<and> incoming s = [] \<and> \<not> stopped s"
proof -
  have "\<not> some_at waking (clients s)" using assms(4) by (auto simp: some_at_def waking_def)
  then show ?thesis using wake.reach_inv [OF assms(1)] assms(2,3) unfolding wake_inv_def wake_due_def by auto
qed

section \<open>Pending bytes\<close>

fun will_flush :: "nat \<Rightarrow> reactor_pc \<Rightarrow> bool" where
  "will_flush tok (P_Flush toks _) \<longleftrightarrow> tok \<in> set toks"
| "will_flush tok (P_Close t next) \<longleftrightarrow> t = tok \<or> will_flush tok next"
| "will_flush tok (P_ReadFlush t _ _) \<longleftrightarrow> t = tok"
| "will_flush tok _ \<longleftrightarrow> False"

text \<open>An open connection with unsent bytes, or whose transport has output of its own, and what makes the worker come back to it.\<close>

definition write_interest :: "'c reactor \<Rightarrow> nat \<Rightarrow> bool" where
  "write_interest s tok \<longleftrightarrow> (\<exists>conn. connections s tok = Some conn \<and> conn_interest conn)"

definition needs_flush :: "'c reactor \<Rightarrow> nat \<Rightarrow> bool" where
  "needs_flush s tok \<longleftrightarrow> (\<exists>conn ses. connections s tok = Some conn \<and> sessions s tok = Some ses \<and>
     (has_pending (outbound ses) \<or> tr_wants_write (transport_factory s) (conn_transport conn)))"

definition flush_due :: "'c reactor \<Rightarrow> nat \<Rightarrow> bool" where
  "flush_due s tok \<longleftrightarrow> write_interest s tok \<or> tok \<in> set (pending_writes s) \<or>
     some_at (\<lambda>pc. pc = T_Push tok) (clients s) \<or> will_flush tok (worker s)"

definition flush_inv :: "'c reactor \<Rightarrow> bool" where
  "flush_inv s \<longleftrightarrow> ended (worker s) \<or> reregister_failed s \<or> (\<forall>tok. needs_flush s tok \<longrightarrow> flush_due s tok)"

lemma flush_inv_move:
  assumes "flush_inv s" "same_queues s x" "reregister_failed s \<Longrightarrow> reregister_failed x" "ended (worker s) \<Longrightarrow> ended pc'"
    "\<And>t. needs_flush x t \<Longrightarrow> write_interest x t \<or> will_flush t pc' \<or> reregister_failed x \<or>
       needs_flush s t \<and> connections x t = connections s t \<and> \<not> will_flush t (worker s)"
  shows "flush_inv (x\<lparr>worker := pc'\<rparr>)"
proof -
  have "flush_due (x\<lparr>worker := pc'\<rparr>) t" if "needs_flush x t" "\<not> ended (worker s)" "\<not> reregister_failed x" for t
    using assms(1,2,3) assms(5) [OF that(1)] that(2,3)
    by (auto simp: flush_inv_def flush_due_def same_queues_def write_interest_def)
  then show ?thesis using assms(4) by (auto simp: flush_inv_def needs_flush_def)
qed

lemma flush_effect:
  assumes "flush ws ok tok s = Some (closed, x)"
  shows "reregister_failed s \<Longrightarrow> reregister_failed x" "t \<noteq> tok \<Longrightarrow> connections x t = connections s t"
    "t \<noteq> tok \<Longrightarrow> needs_flush x t = needs_flush s t" "\<not> closed \<Longrightarrow> needs_flush x tok \<Longrightarrow> write_interest x tok \<or> reregister_failed x"
  by (use assms in \<open>auto simp: flush_def needs_flush_def write_interest_def update_session_def Let_def split: option.splits if_splits\<close>)

lemma close_effect:
  "reregister_failed (close tok s) = reregister_failed s" "t \<noteq> tok \<Longrightarrow> connections (close tok s) t = connections s t"
  "t \<noteq> tok \<Longrightarrow> needs_flush (close tok s) t = needs_flush s t" "\<not> needs_flush (close tok s) tok"
  by (auto simp: close_def needs_flush_def update_session_def split: option.splits)

lemma read_effect:
  assumes "read rs tok s = Some (closed, x)"
  shows "reregister_failed x = reregister_failed s" "t \<noteq> tok \<Longrightarrow> connections x t = connections s t"
    "t \<noteq> tok \<Longrightarrow> needs_flush x t = needs_flush s t"
  by (use assms in \<open>auto simp: read_def needs_flush_def Let_def split: option.splits if_splits\<close>)

lemma take_one_effect:
  assumes "session_inv s"
  shows "reregister_failed (take_one ok sid s) = reregister_failed s"
    "needs_flush (take_one ok sid s) t \<Longrightarrow> needs_flush s t \<and> connections (take_one ok sid s) t = connections s t"
  using assms reactor_transport.quiet_start [of "transport_factory s"]
  by (auto simp: session_inv_def take_one_def needs_flush_def Let_def new_session_def has_pending_def new_send_buffer_def split: if_splits)

lemma client_step_keeps:
  "client_step t pc s = Some s' \<Longrightarrow> connections s' = connections s \<and> transport_factory s' = transport_factory s \<and> reregister_failed s' = reregister_failed s \<and>
     set (pending_writes s) \<subseteq> set (pending_writes s')"
  by (erule client_step.elims) (auto simp: update_session_def map_option_case split: if_splits option.splits)

lemma client_step_needs:
  "client_step t pc s = Some s' \<Longrightarrow> needs_flush s' tok \<Longrightarrow> needs_flush s tok \<or> clients s' t = T_Push tok"
  by (erule client_step.elims)
     (auto simp: update_session_def needs_flush_def map_option_case split: if_splits option.splits)

lemma flush_inv_client:
  assumes "flush_inv s" "client_step t (clients s t) s = Some s'"
  shows "flush_inv s'"
proof -
  obtain pc' where pc': "clients s' = (clients s)(t := pc')" using client_step_clients [OF assms(2)] ..
  have keep: "connections s' = connections s" "reregister_failed s' = reregister_failed s" "worker s' = worker s"
    "set (pending_writes s) \<subseteq> set (pending_writes s')"
    using client_step_keeps [OF assms(2)] client_step_worker [OF assms(2)] by simp_all
  have push: "clients s t = T_Push tok \<Longrightarrow> tok \<in> set (pending_writes s')" for tok using assms(2) by auto
  have needs: "needs_flush s' tok \<Longrightarrow> needs_flush s tok \<or> pc' = T_Push tok" for tok
    using client_step_needs [OF assms(2)] pc' by simp
  have "flush_due s' tok" if due: "needs_flush s tok \<longrightarrow> flush_due s tok" and n: "needs_flush s' tok" for tok
  proof (cases "pc' = T_Push tok")
    case True
    then show ?thesis using pc' by (auto simp: flush_due_def some_at_def)
  next
    case False
    then have "flush_due s tok" using needs [OF n] due by blast
    moreover have "some_at (\<lambda>pc. pc = T_Push tok) (clients s) \<Longrightarrow> tok \<in> set (pending_writes s') \<or> some_at (\<lambda>pc. pc = T_Push tok) (clients s')"
      using push pc' by (auto simp: some_at_def) metis
    ultimately show ?thesis using keep by (auto simp: flush_due_def write_interest_def)
  qed
  then show ?thesis using assms(1) keep by (auto simp: flush_inv_def)
qed

lemma flush_inv_flush:
  assumes "flush_inv s" "flush ws ok tok s = Some (closed, x)" "\<not> ended (worker s)"
    "closed \<Longrightarrow> will_flush tok pc'" "\<And>t. will_flush t (worker s) \<Longrightarrow> t = tok \<or> will_flush t pc'"
  shows "flush_inv (x\<lparr>worker := pc'\<rparr>)"
proof (rule flush_inv_move [OF assms(1) same_queues_ops(3) [OF assms(2)]])
  fix t
  assume "needs_flush x t"
  then show "write_interest x t \<or> will_flush t pc' \<or> reregister_failed x \<or>
       needs_flush s t \<and> connections x t = connections s t \<and> \<not> will_flush t (worker s)"
    using flush_effect [OF assms(2)] assms(4,5) by (cases "t = tok") auto
qed (use flush_effect(1) [OF assms(2)] assms(3) in auto)

lemma flush_inv_close:
  assumes "flush_inv s" "ended (worker s) \<Longrightarrow> ended pc'" "\<And>t. will_flush t (worker s) \<Longrightarrow> t = tok \<or> will_flush t pc'"
  shows "flush_inv ((close tok s)\<lparr>worker := pc'\<rparr>)"
proof (rule flush_inv_move [OF assms(1) same_queues_ops(1)])
  fix t
  assume "needs_flush (close tok s) t"
  then show "write_interest (close tok s) t \<or> will_flush t pc' \<or> reregister_failed (close tok s) \<or>
       needs_flush s t \<and> connections (close tok s) t = connections s t \<and> \<not> will_flush t (worker s)"
    using close_effect(4) [of tok s] close_effect(2,3) [of t tok s] assms(3) [of t] by (cases "t = tok") auto
qed (use assms(2) close_effect(1) in auto)

lemma flush_inv_goto:
  assumes "flush_inv s" "ended (worker s) \<Longrightarrow> ended pc'" "\<And>t. will_flush t (worker s) \<Longrightarrow> will_flush t pc'"
  shows "flush_inv (s\<lparr>worker := pc'\<rparr>)"
  by (rule flush_inv_move [OF assms(1), of s]) (use assms(2,3) in \<open>auto simp: same_queues_def\<close>)

lemma flush_inv_irrelevant:
  assumes "flush_inv s" "connections s' = connections s" "sessions s' = sessions s" "pending_writes s' = pending_writes s"
    "clients s' = clients s" "reregister_failed s' = reregister_failed s" "\<And>t. \<not> will_flush t (worker s)"
    "transport_factory s' = transport_factory s"
    "ended (worker s) \<Longrightarrow> ended (worker s')"
  shows "flush_inv s'"
  proof -
  have "needs_flush s' tok = needs_flush s tok" "write_interest s' tok = write_interest s tok" for tok
    using assms(2,3,8) by (simp_all add: needs_flush_def write_interest_def)
  then show ?thesis using assms unfolding flush_inv_def flush_due_def by auto
qed

lemma flush_inv_drop: "flush_inv s \<Longrightarrow> flush_inv (drop_reactor s)"
  by (simp add: flush_inv_def needs_flush_def)

lemma flush_inv_worker:
  assumes "flush_inv s" "session_inv s" "run_step me a (worker s) s = Some s'"
  shows "flush_inv s'"
proof (cases "(me, a, worker s, s)" rule: run_step.cases)
  case (10 me' a' tok toks evs s'')
  then obtain closed x where x: "flush (ans_writes a) (ans_ok a) tok s = Some (closed, x)"
    "s' = worker_at (if closed then P_Close tok (P_Flush toks evs) else P_Flush toks evs) x" using assms(3) by auto
  show ?thesis unfolding x(2) by (rule flush_inv_flush [OF assms(1) x(1)]) (use 10 in auto)
next
  case (15 me' a' tok w evs s'')
  then obtain closed x where x: "flush (ans_writes a) (ans_ok a) tok s = Some (closed, x)"
    "s' = worker_at (if closed then P_Close tok (P_Events evs) else if w then P_Writable tok evs else P_Events evs) x"
    using assms(3) by auto
  show ?thesis unfolding x(2) by (rule flush_inv_flush [OF assms(1) x(1)]) (use 15 in auto)
next
  case (16 me' a' tok evs s'')
  then obtain closed x where x: "flush (ans_writes a) (ans_ok a) tok s = Some (closed, x)"
    "s' = worker_at (if closed then P_Close tok (P_Events evs) else P_Events evs) x" using assms(3) by auto
  show ?thesis unfolding x(2) by (rule flush_inv_flush [OF assms(1) x(1)]) (use 16 in auto)
next
  case (14 me' a' tok w evs s'')
  show ?thesis
  proof (cases "connections s tok")
    case None
    then have s': "s' = worker_at (if w then P_Writable tok evs else P_Events evs) s" using 14 assms(3) by auto
    show ?thesis unfolding s' by (rule flush_inv_goto [OF assms(1)]) (use 14 in auto)
  next
    case (Some i)
    then obtain closed x where x: "read (ans_reads a) tok s = Some (closed, x)"
      "s' = worker_at (if closed then P_Close tok (P_Events evs) else P_ReadFlush tok w evs) x" using 14 assms(3) by auto
    show ?thesis
      unfolding x(2)
    proof (rule flush_inv_move [OF assms(1) same_queues_ops(4) [OF x(1)]])
      fix t
      assume "needs_flush x t"
      then show "write_interest x t \<or> will_flush t (if closed then P_Close tok (P_Events evs) else P_ReadFlush tok w evs) \<or>
          reregister_failed x \<or> needs_flush s t \<and> connections x t = connections s t \<and> \<not> will_flush t (worker s)"
        using read_effect(2,3) [OF x(1), of t] 14 by (cases "t = tok") auto
    qed (use read_effect(1) [OF x(1)] 14 in auto)
  qed
next
  case (7 me' a' sid ids evs s'')
  then have s': "s' = worker_at (P_Incoming ids evs) (take_one (ans_ok a) sid s)" using assms(3) by auto
  show ?thesis
    unfolding s' by (rule flush_inv_move [OF assms(1) same_queues_ops(2)]) (use 7 take_one_effect [OF assms(2)] in auto)
next
  case (13 me' a' tok toks evs s'')
  then have s': "s' = worker_at (P_Closes toks evs) (close tok s)" using assms(3) by auto
  show ?thesis unfolding s' by (rule flush_inv_close [OF assms(1)]) (use 13 in auto)
next
  case (17 me' a' tok nxt s'')
  then have s': "s' = worker_at nxt (close tok s)" using assms(3) by auto
  show ?thesis unfolding s' by (rule flush_inv_close [OF assms(1)]) (use 17 in auto)
next
  case (19 me' a' tok toks s'')
  then have s': "s' = worker_at (P_CloseAll toks) (close tok s)" using assms(3) by auto
  show ?thesis unfolding s' by (rule flush_inv_close [OF assms(1)]) (use 19 in auto)
next
  case (8 me' a' evs s'')
  then have s': "s' = worker_at (P_Flush (pending_writes s) evs) (s\<lparr>pending_writes := []\<rparr>)" and pc: "worker s = P_TakeWrites evs"
    using assms(3) by auto
  then have "flush_due s tok \<Longrightarrow> flush_due s' tok" "needs_flush s' tok = needs_flush s tok" for tok
    by (auto simp: flush_due_def needs_flush_def write_interest_def)
  then show ?thesis using assms(1) s' pc by (auto simp: flush_inv_def)
next
  case (1 me' a' s'')
  then have pc: "worker s = P_Poll" by blast
  show ?thesis
  proof (cases "ans_ok a")
    case True
    show ?thesis by (rule flush_inv_irrelevant [OF assms(1)]) (use assms(3) pc True in \<open>auto split: if_splits\<close>)
  qed (use assms(1,3) pc flush_inv_drop in auto)
next
  case (3 me' a' evs s'')
  then have pc: "worker s = P_Events (Ev_Listener # evs)" by blast
  show ?thesis
  proof (cases "worker s' = P_Failed")
    case True
    then have "connections s' = Map.empty" using assms(3) pc by (auto simp: Let_def split: if_splits)
    then show ?thesis using True by (simp add: flush_inv_def needs_flush_def)
  next
    case False
    show ?thesis by (rule flush_inv_irrelevant [OF assms(1)]) (use assms(3) pc False in \<open>auto simp: Let_def split: if_splits\<close>)
  qed
qed (rule flush_inv_irrelevant [OF assms(1)]; use assms(3) in \<open>auto simp: Let_def split: if_splits\<close>)+

lemma flush_inv_step:
  assumes "flush_inv s" "session_inv s" "reactor_step me s s'"
  shows "flush_inv s'"
  using assms(3)
proof cases
  case (client t)
  then show ?thesis using assms(1) flush_inv_client by blast
next
  case (worker a)
  then show ?thesis using assms(1,2) flush_inv_worker by blast
qed (use assms(1) in \<open>auto simp: flush_inv_def flush_due_def needs_flush_def write_interest_def some_at_upd\<close>)

lemma flush_inv_init: "fresh_reactor s \<Longrightarrow> flush_inv s"
  by (auto simp: fresh_reactor_def new_reactor_def flush_inv_def needs_flush_def)

interpretation flushing: invariant_system fresh_reactor "reactor_step me" "\<lambda>s. session_inv s \<and> flush_inv s"
  by unfold_locales (auto intro: session_inv_init session_inv_step flush_inv_init flush_inv_step)

lemma flush_is_due:
  assumes "flush_inv s" "wake_inv s" "worker s = P_Poll" "\<And>t. clients s t = T_Idle" "\<not> reregister_failed s"
    "connections s tok = Some conn" "needs_flush s tok"
  shows "conn_interest conn \<or> waker_signalled s"
proof -
  have idle: "\<not> some_at (\<lambda>pc. pc = T_Push tok) (clients s)" "\<not> some_at waking (clients s)"
    using assms(4) by (auto simp: some_at_def waking_def)
  have "flush_due s tok" using assms(1,3,5,7) by (auto simp: flush_inv_def)
  then have "conn_interest conn \<or> pending_writes s \<noteq> []" using idle(1) assms(3,6) by (auto simp: flush_due_def write_interest_def)
  then show ?thesis using assms(2,3) idle(2) by (auto simp: wake_inv_def wake_due_def)
qed

text \<open>
  C2: no accepted byte is stranded. When the worker is about to poll, no thread is inside a call and the
  poller has not refused a change of interest, an open connection with unsent bytes, or whose transport
  has output of its own (the records of a TLS connection), is registered for writability or the waker is
  signalled, so that the next poll returns to it.
\<close>

theorem no_bytes_are_stranded:
  assumes "reactor_reach me s" "worker s = P_Poll" "\<And>t. clients s t = T_Idle" "\<not> reregister_failed s"
    "connections s tok = Some conn" "sessions s tok = Some ses"
    "has_pending (outbound ses) \<or> tr_wants_write (transport_factory s) (conn_transport conn)"
  shows "conn_interest conn \<or> waker_signalled s"
  using flushing.reach_inv [OF assms(1)] wake.reach_inv [OF assms(1)] assms(2-7)
  by (intro flush_is_due) (auto simp: needs_flush_def)

text \<open>
  C12: the bytes of a session arrive in the order in which they were accepted. At every moment the bytes the
  transport of a session has taken (over TCP, its socket), followed by those that are pending, are exactly the bytes of the
  successful sends, in the order in which they were appended; at most \<open>max_pending_send\<close> are pending.
\<close>

theorem sends_are_in_order:
  assumes "reactor_reach me s" "sessions s tok = Some ses"
  shows "accepted s tok = wire s tok @ pending_slice (outbound ses) \<and> pending_len (outbound ses) \<le> max_pending_send s"
  using sess_okI [OF sess.reach_inv [OF assms(1)], of tok] assms(2) by (auto simp: sess_ok_def buffer_ok_def)

section \<open>The end of a worker\<close>

definition closing_inv :: "'c reactor \<Rightarrow> bool" where
  "closing_inv s \<longleftrightarrow> (\<forall>toks. worker s = P_CloseAll toks \<longrightarrow> dom (connections s) \<subseteq> set toks) \<and>
     (worker s = P_Returned \<longrightarrow> dom (connections s) = {}) \<and>
     (\<forall>tok nxt. worker s = P_Close tok nxt \<longrightarrow> \<not> ended nxt \<and> (\<forall>t n. nxt \<noteq> P_Close t n)) \<and>
     (reactor_dropped s \<longrightarrow> worker s = P_Failed)"

lemma dropped_kept [simp]:
  "reactor_dropped (take_one r sid s) = reactor_dropped s" "reactor_dropped (close tok s) = reactor_dropped s"
  "reactor_dropped (update_session tok f s) = reactor_dropped s"
  by (simp_all add: take_one_def close_def update_session_def Let_def split: option.splits)

lemma flush_dropped: "flush ans ok tok s = Some (c, s') \<Longrightarrow> reactor_dropped s' = reactor_dropped s"
  by (auto simp: flush_def Let_def split: option.splits if_splits)

lemma read_dropped: "read ans tok s = Some (c, s') \<Longrightarrow> reactor_dropped s' = reactor_dropped s"
  by (auto simp: read_def Let_def split: option.splits if_splits)

lemma client_step_dropped: "client_step t pc s = Some s' \<Longrightarrow> reactor_dropped s' = reactor_dropped s"
  by (erule client_step.elims) (auto simp: map_option_case split: if_splits option.splits)

lemma closing_inv_worker:
  assumes "closing_inv s" "session_inv s" "run_step me a (worker s) s = Some s'"
  shows "closing_inv s'"
proof (cases "ended (worker s)")
  case False
  show ?thesis
    by (rule run_step.cases [of "(me, a, worker s, s)"])
       (use assms(1,3) False in \<open>auto simp: closing_inv_def Let_def dest: flush_dropped read_dropped split: if_splits option.splits\<close>)
next
  case True
  have gone: "connections (close tok s) tok = None" for tok
    using sess_okI [OF assms(2), of tok] by (auto simp: sess_ok_def close_def split: option.splits)
  show ?thesis
  proof (cases "worker s")
    case (P_CloseAll toks)
    show ?thesis
    proof (cases toks)
      case Nil
      then show ?thesis using assms(1,3) P_CloseAll by (auto simp: closing_inv_def)
    next
      case (Cons tok rest)
      then have s': "s' = worker_at (P_CloseAll rest) (close tok s)" using assms(3) P_CloseAll by simp
      have "t \<in> set rest" if "connections (close tok s) t \<noteq> None" for t
        using that assms(1) P_CloseAll Cons gone [of tok] close_effect(2) [of t tok s] by (cases "t = tok") (auto simp: closing_inv_def)
      then show ?thesis using s' assms(1) P_CloseAll by (auto simp: closing_inv_def)
    qed
  qed (use True assms(3) in simp_all)
qed

lemma closing_inv_step:
  assumes "closing_inv s" "session_inv s" "reactor_step me s s'"
  shows "closing_inv s'"
  using assms(3)
proof cases
  case (client t)
  then show ?thesis
    using assms(1) client_step_worker [OF client] client_step_keeps [OF client] client_step_dropped [OF client] by (simp add: closing_inv_def)
next
  case (worker a)
  then show ?thesis using assms(1,2) closing_inv_worker by blast
qed (use assms(1) in \<open>simp_all add: closing_inv_def\<close>)

lemma closing_inv_init: "fresh_reactor s \<Longrightarrow> closing_inv s"
  by (auto simp: fresh_reactor_def new_reactor_def closing_inv_def)

interpretation closing: invariant_system fresh_reactor "reactor_step me" "\<lambda>s. session_inv s \<and> closing_inv s"
  by unfold_locales (auto intro: session_inv_init session_inv_step closing_inv_init closing_inv_step)

text \<open>
  C21: the handler sees each connection open, then its data, then at most one disconnect. The calls about
  a connection are one \<open>on_accepted\<close>, then any number of \<open>on_data\<close>, then one \<open>on_disconnected\<close> if and only if
  its session is disposed. The worker has then given up the connection, and it has given up no other unless \<open>run\<close> has failed.
\<close>

theorem handler_sees_lifecycle:
  assumes "reactor_reach me s" "sessions s tok = Some ses"
  shows "(\<exists>ds. calls_for tok s = On_Accepted tok (session_id ses) # map (On_Data tok (session_id ses)) ds @
            (if disposed ses then [On_Disconnected tok (session_id ses)] else [])) \<and>
         (disposed ses \<longrightarrow> connections s tok = None) \<and> (connections s tok = None \<longrightarrow> disposed ses \<or> worker s = P_Failed)"
  using sess_okI [of s tok] closing.reach_inv [OF assms(1)] assms(2) by (auto simp: sess_ok_def life_def closing_inv_def)

text \<open>
  C36: a worker that has been stopped leaves nothing open. When \<open>run\<close> has returned without an error,
  every session it has served is disposed and the handler was told of its disconnect as the last
  call about it.
\<close>

theorem stopped_worker_closes_everything:
  assumes "reactor_reach me s" "worker s = P_Returned" "sessions s tok = Some ses"
  shows "connections s tok = None \<and> disposed ses \<and> last (calls_for tok s) = On_Disconnected tok (session_id ses)"
proof -
  note inv = closing.reach_inv [OF assms(1)]
  then have none: "connections s tok = None" using assms(2) by (auto simp: closing_inv_def)
  then show ?thesis
    using sess_okI [of s tok] inv assms(2,3) by (auto simp: sess_ok_def life_def closing_inv_def)
qed

lemma failed_step:
  assumes "worker s = P_Failed" "reactor_step me s s'"
  shows "worker s' = P_Failed" "connections s' = connections s" "handler_log s' = handler_log s"
proof -
  have log: "handler_log s' = handler_log s" if "client_step t pc s = Some s'" for t pc
    using that by (elim client_step.elims) (auto simp: update_session_def map_option_case split: if_splits option.splits)
  show "worker s' = P_Failed" "connections s' = connections s" "handler_log s' = handler_log s"
    using assms(2,1) by (cases; use client_step_worker client_step_keeps log in fastforce)+
qed

lemma failed_star:
  assumes "(reactor_step me)\<^sup>*\<^sup>* s s'" "worker s = P_Failed"
  shows "worker s' = P_Failed \<and> connections s' = connections s \<and> handler_log s' = handler_log s"
  using assms by (induction rule: rtranclp.induct) (use failed_step in force)+

text \<open>
  C37: an error of the listener abandons the sessions of the accepting worker. When the accept loop meets
  an error other than \<open>WouldBlock\<close> and \<open>Interrupted\<close>, \<open>run\<close> returns it at once and the reactor is dropped with all its connections. Whatever
  happens afterwards, the sessions of the connections that were open are never marked disposed, the handler is never told of a disconnect,
  and a send on such a session goes on to the buffer that nothing will ever write, as long as the host is not stopped.
\<close>

theorem accept_error_abandons_sessions:
  assumes reach: "reactor_reach 0 s" and pc: "worker s = P_Events (Ev_Listener # evs)"
    and err: "accept (peer_count s) (ans_accepts a) (next_session_id s) (next_worker s) = Some (assigned, False, i, w)"
    and step: "run_step 0 a (worker s) s = Some s1" and rest: "(reactor_step 0)\<^sup>*\<^sup>* s1 s2"
    and conn: "connections s tok = Some conn"
  shows "worker s2 = P_Failed \<and> connections s2 = Map.empty \<and>
     (\<exists>ses. sessions s2 tok = Some ses \<and> \<not> disposed ses \<and> On_Disconnected tok (session_id ses) \<notin> set (handler_log s2)) \<and>
     (\<not> stopped s2 \<longrightarrow> client_step t (T_Send tok bytes) s2 = Some (client_at t (T_Append tok bytes) s2))"
proof -
  have s1: "worker s1 = P_Failed" "connections s1 = Map.empty" "handler_log s1 = handler_log s" using pc err step by (auto simp: Let_def)
  then have s2: "worker s2 = P_Failed" "connections s2 = Map.empty" "handler_log s2 = handler_log s" using failed_star [OF rest] by simp_all
  obtain ses ds where ses: "calls_for tok s = life tok ses ds" "\<not> disposed ses"
    using sess_okI [OF sess.reach_inv [OF reach], of tok] conn by (auto simp: sess_ok_def split: option.splits)
  have calls: "calls_for tok s2 = life tok ses ds" using ses(1) s2(3) by (simp add: calls_for_def)
  have "reactor_reach 0 s2" using reach_rtranclp [OF reach_step [OF reach reactor_step.worker [OF step]] rest] .
  from sess_okI [OF sess.reach_inv [OF this], of tok] calls obtain ses2 ds2 where
    ses2: "sessions s2 tok = Some ses2" "life tok ses ds = life tok ses2 ds2"
    by (auto simp: sess_ok_def life_def split: option.splits)
  have none: "On_Disconnected tok i \<notin> set (life tok ses ds)" for i using ses(2) by (auto simp: life_def)
  have "\<not> disposed ses2" using none [of "session_id ses2"] unfolding ses2(2) by (auto simp: life_def)
  moreover have "On_Disconnected tok i \<notin> set (handler_log s2)" for i
    using none [of i] unfolding calls [symmetric] by (simp add: calls_for_def)
  ultimately show ?thesis using s2 ses2(1) by simp
qed

section \<open>Accepting\<close>

lemma accept_assigns:
  assumes "accept peers answers next_id target = Some (assigned, ok, id', target')" "target < peers"
  shows "assigned = map (\<lambda>k. ((target + k) mod peers, next_id + of_nat k)) [0..<length assigned]"
    and "id' = next_id + of_nat (length assigned)" and "target' = (target + length assigned) mod peers"
proof -
  have "assigned = map (\<lambda>k. ((target + k) mod peers, next_id + of_nat k)) [0..<length assigned] \<and>
      id' = next_id + of_nat (length assigned) \<and> target' = (target + length assigned) mod peers"
    using assms
  proof (induction peers answers next_id target arbitrary: assigned rule: accept.induct)
    case (2 peers answers next_id target)
    then obtain rest where rest: "accept peers answers (next_id + 1) ((target + 1) mod peers) = Some (rest, ok, id', target')"
      "assigned = (target, next_id) # rest" by auto
    have "(target + 1) mod peers < peers" using 2(3) by simp
    note IH = 2(1) [OF rest(1) this]
    have "map (\<lambda>k. ((target + k) mod peers, next_id + of_nat k)) [0..<Suc (length rest)] =
        (target, next_id) # map (\<lambda>k. (((target + 1) mod peers + k) mod peers, next_id + 1 + of_nat k)) [0..<length rest]"
      using 2(3) by (simp add: upt_conv_Cons map_Suc_upt [symmetric] mod_add_left_eq add.assoc del: upt_Suc)
    then show ?case using IH rest(2) by (simp add: mod_add_left_eq add.assoc del: upt_Suc)
  qed auto
  then show "assigned = map (\<lambda>k. ((target + k) mod peers, next_id + of_nat k)) [0..<length assigned]"
    "id' = next_id + of_nat (length assigned)" "target' = (target + length assigned) mod peers" by blast+
qed

text \<open>
  Accepted connections go to the workers in turn and get consecutive session ids. The \<open>k\<close>-th
  connection of an accept loop goes to the worker \<open>k\<close> places after the next one, cyclically, with the
  \<open>k\<close>-th id after the next one; the counters continue there, so that the next loop goes on where this one stopped;
  among fewer than \<open>2 ^ 64\<close> connections no id is used twice.
\<close>

theorem accept_is_round_robin:
  assumes "accept peers answers next_id target = Some (assigned, ok, id', target')" "target < peers"
  shows "(\<forall>k < length assigned. assigned ! k = ((target + k) mod peers, next_id + of_nat k)) \<and>
     id' = next_id + of_nat (length assigned) \<and> target' = (target + length assigned) mod peers \<and>
     (length assigned < 2 ^ 64 \<longrightarrow> distinct (map snd assigned))"
proof -
  note a = accept_assigns [OF assms]
  have "distinct (map snd assigned)" if "length assigned < 2 ^ 64"
  proof -
    have "inj_on (\<lambda>k. next_id + of_nat k :: u64) {0..<length assigned}"
      using that by (auto simp: inj_on_def of_nat_eq_small)
    then have "distinct (map (\<lambda>k. next_id + of_nat k :: u64) [0..<length assigned])" by (simp add: distinct_map)
    then show ?thesis by (subst a(1)) (simp add: comp_def)
  qed
  moreover have "\<forall>k < length assigned. assigned ! k = ((target + k) mod peers, next_id + of_nat k)"
    by (subst a(1)) simp
  ultimately show ?thesis using a(2,3) by blast
qed

theorem accept_is_round_robin_witness:
  "accept 2 [Accept_Ok, Accept_Interrupted, Accept_Ok, Accept_Ok, Accept_WouldBlock] 1 0 =
     Some ([(0, 1), (1, 2), (0, 3)], True, 4, 1) \<and> distinct (map snd [(0::nat, 1::u64), (1, 2), (0, 3)])"
proof -
  have "accept 2 [Accept_Ok, Accept_Interrupted, Accept_Ok, Accept_Ok, Accept_WouldBlock] 1 0 =
     Some ([(0, 1), (1, 2), (0, 3)], True, 4, 1)" by simp
  with accept_is_round_robin [OF this] show ?thesis by simp
qed

section \<open>A worker with one connection\<close>

definition worker_run :: "answers list \<Rightarrow> 'c reactor \<Rightarrow> 'c reactor" where
  "worker_run as s = fold (\<lambda>a. advance (\<lambda>s. run_step 0 a (worker s) s)) as s"

definition client_run :: "nat \<Rightarrow> nat \<Rightarrow> 'c reactor \<Rightarrow> 'c reactor" where
  "client_run t n s = (advance (\<lambda>s. client_step t (clients s t) s) ^^ n) s"

lemma worker_run_star: "(reactor_step 0)\<^sup>*\<^sup>* s (worker_run as s)"
proof (induction as arbitrary: s)
  case (Cons a as)
  let ?s = "advance (\<lambda>s. run_step 0 a (worker s) s) s"
  have "?s = s \<or> reactor_step 0 s ?s" by (auto simp: advance_def split: option.split intro: reactor_step.worker)
  then show ?case using Cons [of ?s] by (auto simp: worker_run_def intro: converse_rtranclp_into_rtranclp)
qed (simp add: worker_run_def)

lemma runs_reach:
  "reactor_reach 0 s \<Longrightarrow> reactor_reach 0 (worker_run as s)" "reactor_reach 0 s \<Longrightarrow> reactor_reach 0 (client_run t n s)"
proof -
  show "reactor_reach 0 s \<Longrightarrow> reactor_reach 0 (worker_run as s)" by (rule reach_rtranclp [OF _ worker_run_star])
  show "reactor_reach 0 s \<Longrightarrow> reactor_reach 0 (client_run t n s)"
    unfolding client_run_def
    by (rule reach_funpow) (auto simp: advance_def split: option.split intro: reactor_step.client)
qed

definition on_events :: "event list \<Rightarrow> answers" where
  "on_events evs = \<lparr>ans_events = evs, ans_ok = True, ans_reads = [], ans_writes = [],
     ans_accepts = [Accept_Ok, Accept_WouldBlock], ans_tokens = []\<rparr>"

abbreviation idle_connection :: "unit managed_connection" where
  "idle_connection \<equiv> \<lparr>conn_interest = False, conn_transport = ()\<rparr>"

text \<open>One connection is accepted and taken over; its token is 2 and its id 1.\<close>

definition open_reactor :: "unit reactor" where
  "open_reactor = worker_run (on_events [Ev_Listener] # replicate 2 (on_events []) @ on_events [Ev_Waker] # replicate 8 (on_events []))
     (new_reactor tcp_transport 1 10)"

lemmas reactor_simps = worker_run_def client_run_def on_events_def new_reactor_def advance_def FIRST_CONNECTION_TOKEN_def
  take_one_def eval_nat_numeral Let_def

lemma open_reactor_eq:
  "open_reactor = (new_reactor tcp_transport 1 10)\<lparr>connections := [2 \<mapsto> idle_connection], sessions := [2 \<mapsto> new_session 1 10], next_token := 3,
     next_session_id := 2, handler_log := [On_Accepted 2 1]\<rparr>"
  by (simp add: open_reactor_def reactor_simps)

lemma open_reactor_reach: "reactor_reach 0 open_reactor"
  unfolding open_reactor_def
  by (intro runs_reach reach_init) (use tcp.reactor_transport_axioms in \<open>auto simp: fresh_reactor_def\<close>)

text \<open>A client has sent two bytes.\<close>

definition sent_reactor :: "unit reactor" where
  "sent_reactor = client_run 0 5 (client_at 0 (T_Send 2 [7, 8]) open_reactor)"

lemma sent_reactor_eq:
  "sent_reactor = open_reactor\<lparr>sessions := [2 \<mapsto> (new_session 1 10)\<lparr>outbound := sb_append [7, 8] (new_send_buffer 10)\<rparr>],
     pending_writes := [2], waker_signalled := True, accepted := (\<lambda>_. [])(2 := [7, 8])\<rparr>"
  by (simp add: sent_reactor_def open_reactor_eq reactor_simps new_session_def update_session_def
      can_write_def pending_len_def new_send_buffer_def sb_append_def fun_upd_idem_iff)

lemma sent_reactor_reach: "reactor_reach 0 sent_reactor"
proof -
  have "reactor_step 0 open_reactor (client_at 0 (T_Send 2 [7, 8]) open_reactor)"
    by (rule reactor_step.start_send) (simp_all add: open_reactor_eq new_reactor_def)
  then show ?thesis unfolding sent_reactor_def by (intro runs_reach reach_step [OF open_reactor_reach])
qed

theorem worker_misses_no_request_witness:
  "pending_writes open_reactor = [] \<and> incoming open_reactor = [] \<and> \<not> stopped open_reactor"
  using worker_misses_no_request [OF open_reactor_reach] by (simp add: open_reactor_eq new_reactor_def)

theorem no_bytes_are_stranded_witness: "connections sent_reactor 2 = Some idle_connection \<and> waker_signalled sent_reactor"
  using no_bytes_are_stranded [OF sent_reactor_reach, of 2 idle_connection]
  by (simp add: sent_reactor_eq open_reactor_eq new_reactor_def has_pending_def sb_append_def new_send_buffer_def)

theorem sends_are_in_order_witness: "accepted sent_reactor 2 = wire sent_reactor 2 @ [7, 8]"
  using sends_are_in_order [OF sent_reactor_reach, of 2]
  by (simp add: sent_reactor_eq open_reactor_eq new_reactor_def)

theorem handler_sees_lifecycle_witness: "\<exists>ds. calls_for 2 open_reactor = On_Accepted 2 1 # map (On_Data 2 1) ds"
  using handler_sees_lifecycle [OF open_reactor_reach, of 2 "new_session 1 10"]
  by (simp add: open_reactor_eq new_session_def)

text \<open>The host is stopped while the connection is open.\<close>

definition stopped_reactor :: "unit reactor" where
  "stopped_reactor = worker_run (on_events [Ev_Waker] # (on_events [])\<lparr>ans_tokens := [2]\<rparr> # replicate 2 (on_events []))
     (client_run 0 2 (client_at 0 T_Stop open_reactor))"

theorem stopped_worker_closes_everything_witness:
  "worker stopped_reactor = P_Returned \<and> last (calls_for 2 stopped_reactor) = On_Disconnected 2 1"
proof -
  have "reactor_step 0 open_reactor (client_at 0 T_Stop open_reactor)"
    by (rule reactor_step.start_stop) (simp add: open_reactor_eq new_reactor_def)
  then have reach: "reactor_reach 0 stopped_reactor"
    unfolding stopped_reactor_def by (intro runs_reach reach_step [OF open_reactor_reach])
  have "worker stopped_reactor = P_Returned \<and> sessions stopped_reactor 2 = Some ((new_session 1 10)\<lparr>disposed := True\<rparr>)"
    by (simp add: stopped_reactor_def open_reactor_eq reactor_simps close_def update_session_def mark_disposed_def new_session_def)
  then show ?thesis using stopped_worker_closes_everything [OF reach] by (simp add: new_session_def)
qed

text \<open>The listener fails while the connection is open.\<close>

definition failing_reactor :: "unit reactor" where
  "failing_reactor = worker_run [on_events [Ev_Listener]] open_reactor"

theorem accept_error_abandons_sessions_witness:
  "\<exists>s1. run_step 0 ((on_events [])\<lparr>ans_accepts := [Accept_Error]\<rparr>) (worker failing_reactor) failing_reactor = Some s1 \<and>
     worker s1 = P_Failed \<and> (\<exists>ses. sessions s1 2 = Some ses \<and> \<not> disposed ses)"
proof -
  let ?a = "(on_events [])\<lparr>ans_accepts := [Accept_Error]\<rparr>"
  have reach: "reactor_reach 0 failing_reactor" unfolding failing_reactor_def by (intro runs_reach open_reactor_reach)
  have f: "worker failing_reactor = P_Events [Ev_Listener]" "connections failing_reactor 2 = Some idle_connection"
    by (simp_all add: failing_reactor_def open_reactor_eq reactor_simps)
  have err: "accept (peer_count failing_reactor) (ans_accepts ?a) (next_session_id failing_reactor) (next_worker failing_reactor) =
      Some ([], False, next_session_id failing_reactor, next_worker failing_reactor)" by simp
  obtain s1 where s1: "run_step 0 ?a (worker failing_reactor) failing_reactor = Some s1"
    using f(1) by simp
  then show ?thesis
    using accept_error_abandons_sessions [OF reach f(1) err s1 rtranclp.rtrancl_refl f(2)] by blast
qed

end
