(* ===== verification/Tls_Reactor.thy ===== *)
theory Tls_Reactor
  imports Tls_Transport Reactor
begin

text \<open>
  The reactor over the TLS transport. Under the documented behaviour of rustls (\<open>rustls_contract\<close>) the data that
  the handler of a connection has been given is the plaintext of the TLS bytes read from its socket, and the
  bytes that have left the send buffer of its session are the plaintext that rustls has taken.
\<close>

section \<open>Data of a connection\<close>

text \<open>The bytes of the \<open>on_data\<close> calls about one connection.\<close>

fun event_data :: "handler_event \<Rightarrow> u8 list" where
  "event_data (On_Data _ _ bytes) = bytes"
| "event_data _ = []"

definition data_for :: "nat \<Rightarrow> 'c reactor \<Rightarrow> u8 list" where
  "data_for tok s = concat (map event_data (calls_for tok s))"

definition tracks :: "'c tls_view \<Rightarrow> 'c reactor \<Rightarrow> nat \<Rightarrow> bool" where
  "tracks V s tok \<longleftrightarrow> (\<forall>conn. connections s tok = Some conn \<longrightarrow>
     data_for tok s = plain_read V (conn_transport conn) \<and> wire s tok = plain_written V (conn_transport conn))"

definition all_drained :: "'c tls_view \<Rightarrow> (u8 list \<Rightarrow> u8 list) \<Rightarrow> 'c reactor \<Rightarrow> nat \<Rightarrow> bool" where
  "all_drained V decrypt s tok \<longleftrightarrow> (\<forall>conn. connections s tok = Some conn \<longrightarrow> drained V decrypt (conn_transport conn))"

text \<open>A connection whose last read failed is the next to be closed.\<close>

definition tls_inv :: "'c rustls \<Rightarrow> 'c tls_view \<Rightarrow> (u8 list \<Rightarrow> u8 list) \<Rightarrow> 'c reactor \<Rightarrow> bool" where
  "tls_inv R V decrypt s \<longleftrightarrow> transport_factory s = tls_transport R \<and>
     (\<forall>tok. tracks V s tok \<and> (all_drained V decrypt s tok \<or> (\<exists>nxt. worker s = P_Close tok nxt)))"

lemma tls_inv_same:
  assumes "tls_inv R V decrypt s" "transport_factory s' = transport_factory s" "connections s' = connections s" "wire s' = wire s"
    "handler_log s' = handler_log s" "\<And>tok nxt. worker s = P_Close tok nxt \<Longrightarrow> worker s' = worker s"
  shows "tls_inv R V decrypt s'"
proof -
  have "tracks V s' tok = tracks V s tok" "all_drained V decrypt s' tok = all_drained V decrypt s tok" for tok
    using assms(3-5) by (simp_all add: tracks_def all_drained_def data_for_def calls_for_def)
  then show ?thesis using assms(1,2,6) unfolding tls_inv_def by metis
qed

lemma tls_inv_drop:
  assumes "tls_inv R V decrypt s" "transport_factory s' = transport_factory s" "connections s' = Map.empty"
  shows "tls_inv R V decrypt s'"
  using assms by (simp add: tls_inv_def tracks_def all_drained_def)

text \<open>An operation of the worker on one connection.\<close>

lemma tls_inv_at:
  assumes "tls_inv R V decrypt s" "transport_factory s' = transport_factory s"
    "\<And>t. t \<noteq> tok \<Longrightarrow> connections s' t = connections s t \<and> wire s' t = wire s t \<and> calls_for t s' = calls_for t s"
    "\<And>t nxt. worker s = P_Close t nxt \<Longrightarrow> t = tok"
    "tracks V s' tok" "all_drained V decrypt s' tok \<or> (\<exists>nxt. worker s' = P_Close tok nxt)"
  shows "tls_inv R V decrypt s'"
  unfolding tls_inv_def
proof (intro conjI allI)
  fix t
  show "tracks V s' t" "all_drained V decrypt s' t \<or> (\<exists>nxt. worker s' = P_Close t nxt)"
    by (cases "t = tok"; use assms in \<open>fastforce simp: tls_inv_def tracks_def all_drained_def data_for_def\<close>)+
qed (use assms(1,2) in \<open>simp add: tls_inv_def\<close>)

lemma tracks_worker [simp]:
  "tracks V (s\<lparr>worker := pc\<rparr>) = tracks V s" "all_drained V decrypt (s\<lparr>worker := pc\<rparr>) = all_drained V decrypt s"
  by (simp_all add: tracks_def all_drained_def data_for_def calls_for_def fun_eq_iff)

lemma flush_other:
  assumes "flush ws ok tok s = Some (closed, x)"
  shows "transport_factory x = transport_factory s" "handler_log x = handler_log s" "t \<noteq> tok \<Longrightarrow> wire x t = wire s t"
  by (use assms in \<open>auto simp: flush_def Let_def update_session_def split: option.splits if_splits\<close>)

lemma flush_this:
  assumes "flush ws ok tok s = Some (closed, x)" "connections s tok = Some conn" "sessions s tok = Some ses"
  shows "\<exists>outcome bytes b c conn'. tr_write (transport_factory s) ws (conn_transport conn) (outbound ses) = Some (outcome, bytes, b, c) \<and>
     wire x tok = wire s tok @ bytes \<and> connections x tok = Some conn' \<and> conn_transport conn' = c"
  by (use assms in \<open>auto simp: flush_def Let_def update_session_def split: if_splits\<close>)

lemma read_other:
  assumes "read rs tok s = Some (closed, x)"
  shows "transport_factory x = transport_factory s" "wire x = wire s" "t \<noteq> tok \<Longrightarrow> calls_for t x = calls_for t s"
  by (use assms in \<open>auto simp: read_def Let_def calls_for_def split: option.splits if_splits\<close>)

lemma read_this:
  assumes "read rs tok s = Some (closed, x)" "connections s tok = Some conn" "sessions s tok = Some ses"
  shows "\<exists>outcome bytes c conn'. tr_read (transport_factory s) rs (conn_transport conn) [] = Some (outcome, bytes, c) \<and>
     closed = (outcome = Closed) \<and> data_for tok x = data_for tok s @ bytes \<and> connections x tok = Some conn' \<and> conn_transport conn' = c"
  by (use assms in \<open>auto simp: read_def Let_def data_for_def calls_for_def split: if_splits\<close>)

section \<open>Preservation\<close>

lemma tls_inv_flush:
  assumes "rustls_contract R V decrypt" "tls_inv R V decrypt s" "session_inv s" "flush ws ok tok s = Some (closed, x)"
    "\<And>t nxt. worker s \<noteq> P_Close t nxt"
  shows "tls_inv R V decrypt (x\<lparr>worker := pc\<rparr>)"
proof (rule tls_inv_at [OF assms(2), of _ tok])
  have factory: "transport_factory s = tls_transport R" and here: "tracks V s tok" "all_drained V decrypt s tok"
    using assms(2,5) by (auto simp: tls_inv_def)
  have "tracks V x tok \<and> all_drained V decrypt x tok"
  proof (cases "connections s tok")
    case None
    then have "x = s" using assms(4) by (simp add: flush_def)
    then show ?thesis using here by simp
  next
    case (Some conn)
    then obtain ses where ses: "sessions s tok = Some ses"
      using sess_okI [OF assms(3), of tok] by (auto simp: sess_ok_def split: option.splits)
    obtain outcome bytes b c conn' where w: "tls_write R ws (conn_transport conn) (outbound ses) = Some (outcome, bytes, b, c)"
      "wire x tok = wire s tok @ bytes" "connections x tok = Some conn'" "conn_transport conn' = c"
      using flush_this [OF assms(4) Some ses] factory by (auto simp: tls_transport_def)
    have "data_for tok x = data_for tok s" using flush_other(2) [OF assms(4)] by (simp add: data_for_def calls_for_def)
    then show ?thesis
      using tls_write_view [OF assms(1) w(1)] w(2-4) here Some by (simp add: tracks_def all_drained_def drained_def)
  qed
  then show "tracks V (x\<lparr>worker := pc\<rparr>) tok"
    "all_drained V decrypt (x\<lparr>worker := pc\<rparr>) tok \<or> (\<exists>nxt. worker (x\<lparr>worker := pc\<rparr>) = P_Close tok nxt)" by simp_all
qed (use flush_other [OF assms(4)] flush_effect(2) [OF assms(4)] assms(5) in \<open>auto simp: calls_for_def\<close>)

lemma tls_inv_read:
  assumes "rustls_contract R V decrypt" "tls_inv R V decrypt s" "session_inv s" "read rs tok s = Some (closed, x)"
    "\<And>t nxt. worker s \<noteq> P_Close t nxt" "closed \<Longrightarrow> \<exists>nxt. pc = P_Close tok nxt"
  shows "tls_inv R V decrypt (x\<lparr>worker := pc\<rparr>)"
proof (rule tls_inv_at [OF assms(2), of _ tok])
  have factory: "transport_factory s = tls_transport R" and here: "tracks V s tok" "all_drained V decrypt s tok"
    using assms(2,5) by (auto simp: tls_inv_def)
  have "tracks V x tok \<and> (all_drained V decrypt x tok \<or> closed)"
  proof (cases "connections s tok")
    case None
    then have "x = s" using assms(4) by (simp add: read_def)
    then show ?thesis using here by simp
  next
    case (Some conn)
    then obtain ses where ses: "sessions s tok = Some ses"
      using sess_okI [OF assms(3), of tok] by (auto simp: sess_ok_def split: option.splits)
    obtain outcome bytes c conn' where r: "tls_read R rs (conn_transport conn) [] = Some (outcome, bytes, c)"
      "closed = (outcome = Closed)" "data_for tok x = data_for tok s @ bytes" "connections x tok = Some conn'" "conn_transport conn' = c"
      using read_this [OF assms(4) Some ses] factory by (auto simp: tls_transport_def)
    have "outcome = Continue \<or> closed" using r(2) by (cases outcome) auto
    then show ?thesis
      using tls_read_drains [OF assms(1) r(1)] r(3-5) read_other(2) [OF assms(4)] here Some
      by (auto simp: tracks_def all_drained_def)
  qed
  then show "tracks V (x\<lparr>worker := pc\<rparr>) tok"
    "all_drained V decrypt (x\<lparr>worker := pc\<rparr>) tok \<or> (\<exists>nxt. worker (x\<lparr>worker := pc\<rparr>) = P_Close tok nxt)"
    using assms(6) by auto
qed (use read_other [OF assms(4)] read_effect(2) [OF assms(4)] assms(5) in \<open>auto simp: calls_for_def\<close>)

lemma tls_inv_close:
  assumes "tls_inv R V decrypt s" "session_inv s" "\<And>t nxt. worker s = P_Close t nxt \<Longrightarrow> t = tok"
  shows "tls_inv R V decrypt ((close tok s)\<lparr>worker := pc\<rparr>)"
proof (rule tls_inv_at [OF assms(1), of _ tok])
  have "connections (close tok s) tok = None"
    using sess_okI [OF assms(2), of tok] by (auto simp: sess_ok_def close_def split: option.splits)
  then show "tracks V ((close tok s)\<lparr>worker := pc\<rparr>) tok" "all_drained V decrypt ((close tok s)\<lparr>worker := pc\<rparr>) tok \<or>
      (\<exists>nxt. worker ((close tok s)\<lparr>worker := pc\<rparr>) = P_Close tok nxt)"
    by (simp_all add: tracks_def all_drained_def)
qed (use assms(3) in \<open>auto simp: close_def update_session_def calls_for_def split: option.splits\<close>)

lemma tls_inv_take_one:
  assumes "rustls_contract R V decrypt" "tls_inv R V decrypt s" "session_inv s" "\<And>t nxt. worker s \<noteq> P_Close t nxt"
  shows "tls_inv R V decrypt ((take_one ok sid s)\<lparr>worker := pc\<rparr>)"
proof (rule tls_inv_at [OF assms(2), of _ "next_token s"])
  have "sess_ok s (next_token s)" using assms(3) by blast
  then have "sessions s (next_token s) = None" by (auto simp: sess_ok_def split: option.splits)
  then have "wire s (next_token s) = []" "calls_for (next_token s) s = []" "connections s (next_token s) = None"
    using \<open>sess_ok s (next_token s)\<close> by (simp_all add: sess_ok_def)
  moreover have "transport_factory s = tls_transport R" using assms(2) by (simp add: tls_inv_def)
  moreover have "rustls_starts R V decrypt" using assms(1) by (simp add: rustls_contract_def)
  ultimately show "tracks V ((take_one ok sid s)\<lparr>worker := pc\<rparr>) (next_token s)"
    "all_drained V decrypt ((take_one ok sid s)\<lparr>worker := pc\<rparr>) (next_token s) \<or>
      (\<exists>nxt. worker ((take_one ok sid s)\<lparr>worker := pc\<rparr>) = P_Close (next_token s) nxt)"
    by (auto simp: take_one_def Let_def tracks_def all_drained_def drained_def data_for_def calls_for_def tls_transport_def rustls_starts_def)
qed (use assms(4) in \<open>auto simp: take_one_def Let_def calls_for_def\<close>)

lemma client_step_log: "client_step t pc s = Some s' \<Longrightarrow> wire s' = wire s \<and> handler_log s' = handler_log s"
  by (erule client_step.elims) (auto simp: update_session_def map_option_case split: if_splits option.splits)

lemma tls_inv_worker:
  assumes "rustls_contract R V decrypt" "tls_inv R V decrypt s" "session_inv s" "run_step me a (worker s) s = Some s'"
  shows "tls_inv R V decrypt s'"
proof (cases "(me, a, worker s, s)" rule: run_step.cases)
  case (1 me' a' s'')
  show ?thesis
  proof (cases "ans_ok a")
    case True
    then show ?thesis by (intro tls_inv_same [OF assms(2)]) (use 1 assms(4) in \<open>auto split: if_splits\<close>)
  next
    case False
    then show ?thesis by (intro tls_inv_drop [OF assms(2)]) (use 1 assms(4) in auto)
  qed
next
  case (3 me' a' evs s'')
  show ?thesis
  proof (cases "worker s' = P_Failed")
    case False
    then show ?thesis by (intro tls_inv_same [OF assms(2)]) (use 3 assms(4) in \<open>auto simp: Let_def split: if_splits\<close>)
  next
    case True
    then show ?thesis by (intro tls_inv_drop [OF assms(2)]) (use 3 assms(4) in \<open>auto simp: Let_def split: if_splits\<close>)
  qed
next
  case (10 me' a' tok toks evs s'')
  then obtain closed x where x: "flush (ans_writes a) (ans_ok a) tok s = Some (closed, x)"
    "s' = worker_at (if closed then P_Close tok (P_Flush toks evs) else P_Flush toks evs) x" using assms(4) by auto
  show ?thesis unfolding x(2) by (rule tls_inv_flush [OF assms(1-3) x(1)]) (use 10 in auto)
next
  case (15 me' a' tok w evs s'')
  then obtain closed x where x: "flush (ans_writes a) (ans_ok a) tok s = Some (closed, x)"
    "s' = worker_at (if closed then P_Close tok (P_Events evs) else if w then P_Writable tok evs else P_Events evs) x" using assms(4) by auto
  show ?thesis unfolding x(2) by (rule tls_inv_flush [OF assms(1-3) x(1)]) (use 15 in auto)
next
  case (16 me' a' tok evs s'')
  then obtain closed x where x: "flush (ans_writes a) (ans_ok a) tok s = Some (closed, x)"
    "s' = worker_at (if closed then P_Close tok (P_Events evs) else P_Events evs) x" using assms(4) by auto
  show ?thesis unfolding x(2) by (rule tls_inv_flush [OF assms(1-3) x(1)]) (use 16 in auto)
next
  case (14 me' a' tok w evs s'')
  show ?thesis
  proof (cases "connections s tok")
    case None
    then show ?thesis by (intro tls_inv_same [OF assms(2)]) (use 14 assms(4) in auto)
  next
    case (Some conn)
    then obtain closed x where x: "read (ans_reads a) tok s = Some (closed, x)"
      "s' = worker_at (if closed then P_Close tok (P_Events evs) else P_ReadFlush tok w evs) x" using 14 assms(4) by auto
    show ?thesis unfolding x(2) by (rule tls_inv_read [OF assms(1-3) x(1)]) (use 14 in auto)
  qed
next
  case (7 me' a' sid ids evs s'')
  then have s': "s' = worker_at (P_Incoming ids evs) (take_one (ans_ok a) sid s)" using assms(4) by auto
  show ?thesis unfolding s' by (rule tls_inv_take_one [OF assms(1-3)]) (use 7 in auto)
next
  case (13 me' a' tok toks evs s'')
  then have s': "s' = worker_at (P_Closes toks evs) (close tok s)" using assms(4) by auto
  show ?thesis unfolding s' by (rule tls_inv_close [OF assms(2,3)]) (use 13 in auto)
next
  case (17 me' a' tok nxt s'')
  then have s': "s' = worker_at (nxt) (close tok s)" using assms(4) by auto
  show ?thesis unfolding s' by (rule tls_inv_close [OF assms(2,3)]) (use 17 in auto)
next
  case (19 me' a' tok toks s'')
  then have s': "s' = worker_at (P_CloseAll toks) (close tok s)" using assms(4) by auto
  show ?thesis unfolding s' by (rule tls_inv_close [OF assms(2,3)]) (use 19 in auto)
qed (rule tls_inv_same [OF assms(2)]; use assms(4) in \<open>auto simp: Let_def split: if_splits\<close>)+

lemma tls_inv_step:
  assumes "rustls_contract R V decrypt" "tls_inv R V decrypt s" "session_inv s" "reactor_step me s s'"
  shows "tls_inv R V decrypt s'"
  using assms(4)
proof cases
  case (client t)
  then show ?thesis
    using client_step_keeps [OF client] client_step_log [OF client] client_step_worker [OF client]
    by (intro tls_inv_same [OF assms(2)]) auto
next
  case (worker a)
  then show ?thesis using assms(1-3) tls_inv_worker by blast
qed (rule tls_inv_same [OF assms(2)]; simp)+

text \<open>The workers of a TLS host: \<open>bind\<close> gives every reactor the factory of its configuration.\<close>

definition fresh_tls :: "'c rustls \<Rightarrow> 'c reactor \<Rightarrow> bool" where
  "fresh_tls R s \<longleftrightarrow> (\<exists>peers max_pending. 0 < peers \<and> s = new_reactor (tls_transport R) peers max_pending)"

lemma fresh_tls_reactor:
  assumes "rustls_contract R V decrypt" "fresh_tls R s"
  shows "fresh_reactor s" "tls_inv R V decrypt s"
proof -
  have "\<not> rl_wants_write R (rl_new R)" using assms(1) by (simp add: rustls_contract_def rustls_starts_def)
  from tls_reactor_transport [OF this] show "fresh_reactor s"
    using assms(2) by (auto simp: fresh_tls_def fresh_reactor_def)
  show "tls_inv R V decrypt s"
    using assms(2) by (auto simp: fresh_tls_def tls_inv_def new_reactor_def tracks_def all_drained_def)
qed

lemma tls_invariant_system:
  assumes "rustls_contract R V decrypt"
  shows "invariant_system (fresh_tls R) (reactor_step me) (\<lambda>s. session_inv s \<and> tls_inv R V decrypt s)"
  by unfold_locales
     (use fresh_tls_reactor [OF assms] tls_inv_step [OF assms] in \<open>auto intro: session_inv_init session_inv_step\<close>)

section \<open>Properties\<close>

abbreviation tls_reach :: "'c rustls \<Rightarrow> nat \<Rightarrow> 'c reactor \<Rightarrow> bool" where
  "tls_reach R me \<equiv> reach (fresh_tls R) (reactor_step me)"

text \<open>A worker of a TLS host is a worker in the sense of the theorems on reactors.\<close>

lemma tls_reach_reactor:
  assumes "rustls_contract R V decrypt" "tls_reach R me s"
  shows "reactor_reach me s"
  using assms(2) by (induction rule: reach.induct) (auto intro: reach.intros fresh_tls_reactor(1) [OF assms(1)])


text \<open>A connection that does not encrypt, on which the hypotheses of the theorem hold.\<close>

record null_tls =
  nt_read :: "u8 list"
  nt_unread :: "u8 list"
  nt_written :: "u8 list"
  nt_sent :: nat

definition null_rustls :: "null_tls rustls" where
  "null_rustls =
     \<lparr>rl_new = \<lparr>nt_read = [], nt_unread = [], nt_written = [], nt_sent = 0\<rparr>,
      rl_read_tls = (\<lambda>answer c. case answer of
          Read_Data bytes \<Rightarrow> (Io_Ok (length bytes), c\<lparr>nt_unread := nt_unread c @ bytes\<rparr>)
        | Read_WouldBlock \<Rightarrow> (Io_WouldBlock, c) | Read_Interrupted \<Rightarrow> (Io_Interrupted, c) | Read_Error \<Rightarrow> (Io_Error, c)),
      rl_process_new_packets = (\<lambda>c. (Some \<lparr>plaintext_bytes_to_read = length (nt_unread c), peer_has_closed = False\<rparr>, c)),
      rl_read_exact = (\<lambda>n c. (n \<le> length (nt_unread c), take n (nt_unread c),
          c\<lparr>nt_read := nt_read c @ take n (nt_unread c), nt_unread := drop n (nt_unread c)\<rparr>)),
      rl_write = (\<lambda>bytes c. (Some (length bytes), c\<lparr>nt_written := nt_written c @ bytes\<rparr>)),
      rl_wants_write = (\<lambda>c. nt_sent c < length (nt_written c)),
      rl_write_tls = (\<lambda>answer c. case answer of
          Write_Count n \<Rightarrow> (Io_Ok n, c\<lparr>nt_sent := nt_sent c + n\<rparr>)
        | Write_WouldBlock \<Rightarrow> (Io_WouldBlock, c) | Write_Interrupted \<Rightarrow> (Io_Interrupted, c) | Write_Error \<Rightarrow> (Io_Error, c))\<rparr>"

definition null_view :: "null_tls tls_view" where
  "null_view = \<lparr>tls_received = (\<lambda>c. nt_read c @ nt_unread c), plain_read = nt_read, plain_written = nt_written\<rparr>"

lemma null_contract: "rustls_contract null_rustls null_view (\<lambda>bytes. bytes)"
  unfolding rustls_contract_def
  by (intro conjI; unfold rustls_reads_def rustls_processes_def rustls_hands_out_def rustls_writes_def rustls_starts_def same_view_def null_view_def;
      auto simp: null_rustls_def split: read_answer.splits write_answer.splits)

text \<open>
  One connection is taken over, has received two reads, and its session has sent three bytes, of which
  the socket has taken one.
\<close>

definition open_tls :: "null_tls reactor" where
  "open_tls = worker_run (on_events [Ev_Listener] # replicate 2 (on_events []) @ on_events [Ev_Waker] # replicate 8 (on_events []))
     (new_reactor (tls_transport null_rustls) 1 10)"

definition read_tls_run :: "null_tls reactor" where
  "read_tls_run = worker_run [on_events [Ev_Conn 2 True False], on_events [],
     (on_events [])\<lparr>ans_reads := [Read_Data [1, 2], Read_Interrupted, Read_Data [3], Read_WouldBlock]\<rparr>, on_events [], on_events []] open_tls"

definition sent_tls :: "null_tls reactor" where
  "sent_tls = worker_run (on_events [Ev_Waker] # replicate 3 (on_events []) @
       (on_events [])\<lparr>ans_writes := [Write_Count 1, Write_WouldBlock]\<rparr> # replicate 4 (on_events []))
     (client_run 0 5 (client_at 0 (T_Send 2 [7, 8, 9]) read_tls_run))"

lemma open_tls_eq:
  "open_tls = (new_reactor (tls_transport null_rustls) 1 10)\<lparr>connections := [2 \<mapsto> \<lparr>conn_interest = False, conn_transport = rl_new null_rustls\<rparr>],
     sessions := [2 \<mapsto> new_session 1 10], next_token := 3, next_session_id := 2, handler_log := [On_Accepted 2 1]\<rparr>"
  by (simp add: open_tls_def reactor_simps tls_transport_def)

lemma read_tls_run_eq:
  "read_tls_run = open_tls\<lparr>connections := [2 \<mapsto> \<lparr>conn_interest = False,
       conn_transport = \<lparr>nt_read = [1, 2, 3], nt_unread = [], nt_written = [], nt_sent = 0\<rparr>\<rparr>],
     handler_log := [On_Accepted 2 1, On_Data 2 1 [1, 2, 3]]\<rparr>"
  by (simp add: read_tls_run_def open_tls_eq reactor_simps read_def flush_def tls_transport_def null_rustls_def tls_write_def
      tls_buffer_eqs tls_flush.simps tls_wants_write_def new_session_def update_session_def has_pending_def new_send_buffer_def fun_upd_idem_iff)

lemma null_buffer:
  assumes "has_pending b"
  shows "tls_buffer null_rustls c b =
    (True, pending_slice b, sb_advance (length (pending_slice b)) b, c\<lparr>nt_written := nt_written c @ pending_slice b\<rparr>)"
proof -
  have "rl_write null_rustls (pending_slice b) c = (Some (length (pending_slice b)), c\<lparr>nt_written := nt_written c @ pending_slice b\<rparr>)"
    by (simp add: null_rustls_def)
  then show ?thesis using assms by (simp add: tls_buffer_eqs(1,4) has_pending_slice)
qed

lemma null_write:
  assumes "has_pending b" "nt_sent c = 0" "1 < length (pending_slice b)"
  shows "tls_write null_rustls [Write_Count (Suc 0), Write_WouldBlock] c b =
    Some (Continue, pending_slice b, sb_advance (length (pending_slice b)) b, c\<lparr>nt_written := nt_written c @ pending_slice b, nt_sent := Suc 0\<rparr>)"
proof -
  have some: "pending_slice b \<noteq> []" using assms(1) by (simp add: has_pending_slice)
  let ?c = "c\<lparr>nt_written := nt_written c @ pending_slice b\<rparr>"
  have "tls_flush null_rustls [Write_WouldBlock] (?c\<lparr>nt_sent := 1\<rparr>) = Some (Continue, ?c\<lparr>nt_sent := 1\<rparr>)"
    using assms(3) by (subst tls_flush.simps) (simp add: null_rustls_def)
  moreover have "tls_flush null_rustls [Write_Count 1, Write_WouldBlock] ?c = tls_flush null_rustls [Write_WouldBlock] (?c\<lparr>nt_sent := 1\<rparr>)"
    using assms(2) some by (subst tls_flush.simps) (simp add: null_rustls_def)
  ultimately show ?thesis using assms(1) by (simp add: tls_write_def null_buffer)
qed

definition asked_tls :: "null_tls reactor" where
  "asked_tls = client_run 0 5 (client_at 0 (T_Send 2 [7, 8, 9]) read_tls_run)"

lemma asked_tls_eq:
  "asked_tls = read_tls_run\<lparr>sessions := [2 \<mapsto> (new_session 1 10)\<lparr>outbound := sb_append [7, 8, 9] (new_send_buffer 10)\<rparr>],
     pending_writes := [2], waker_signalled := True, accepted := (\<lambda>_. [])(2 := [7, 8, 9])\<rparr>"
  by (simp add: asked_tls_def read_tls_run_eq open_tls_eq reactor_simps new_session_def update_session_def
      can_write_def pending_len_def new_send_buffer_def sb_append_def fun_upd_idem_iff)

lemma sent_tls_facts:
  "connections sent_tls 2 = Some \<lparr>conn_interest = True, conn_transport = \<lparr>nt_read = [1, 2, 3], nt_unread = [], nt_written = [7, 8, 9], nt_sent = 1\<rparr>\<rparr>"
  "worker sent_tls = P_Poll" "data_for 2 sent_tls = [1, 2, 3]"
proof -
  have run: "sent_tls = worker_run (on_events [Ev_Waker] # replicate 3 (on_events []) @
       (on_events [])\<lparr>ans_writes := [Write_Count 1, Write_WouldBlock]\<rparr> # replicate 4 (on_events [])) asked_tls"
    by (simp add: sent_tls_def asked_tls_def)
  have wants: "rl_wants_write null_rustls c \<longleftrightarrow> nt_sent c < length (nt_written c)" for c by (simp add: null_rustls_def)
  note simps = run asked_tls_eq read_tls_run_eq open_tls_eq reactor_simps flush_def tls_transport_def null_write wants
      tls_wants_write_def update_session_def has_pending_def new_send_buffer_def
      sb_append_def pending_slice_def sb_advance_def
  show "connections sent_tls 2 = Some \<lparr>conn_interest = True, conn_transport = \<lparr>nt_read = [1, 2, 3], nt_unread = [], nt_written = [7, 8, 9], nt_sent = 1\<rparr>\<rparr>"
    by (simp add: simps)
  show "worker sent_tls = P_Poll" by (simp add: simps)
  show "data_for 2 sent_tls = [1, 2, 3]" by (simp add: simps data_for_def calls_for_def)
qed

lemma sent_tls_reach: "tls_reach null_rustls 0 sent_tls"
proof -
  have run: "tls_reach null_rustls 0 s \<Longrightarrow> tls_reach null_rustls 0 (worker_run as s)" for s as
    by (rule reach_rtranclp [OF _ worker_run_star])
  have call: "tls_reach null_rustls 0 s \<Longrightarrow> tls_reach null_rustls 0 (client_run t n s)" for s t n
    unfolding client_run_def by (rule reach_funpow) (auto simp: advance_def split: option.split intro: reactor_step.client)
  have "tls_reach null_rustls 0 open_tls"
    unfolding open_tls_def by (intro run reach_init) (auto simp: fresh_tls_def)
  then have "tls_reach null_rustls 0 read_tls_run" unfolding read_tls_run_def by (rule run)
  moreover have "reactor_step 0 read_tls_run (client_at 0 (T_Send 2 [7, 8, 9]) read_tls_run)"
    by (rule reactor_step.start_send) (simp_all add: read_tls_run_eq open_tls_eq new_reactor_def)
  ultimately have "tls_reach null_rustls 0 (client_at 0 (T_Send 2 [7, 8, 9]) read_tls_run)" by (rule reach_step)
  then show ?thesis unfolding sent_tls_def by (rule run [OF call])
qed


end
