(* ===== verification/Codec.thy ===== *)
theory Codec
  imports Prelude
begin

text \<open>
  Framing of \<^verbatim>\<open>codec.rs\<close>, \<^verbatim>\<open>frame_encoder.rs\<close> and \<^verbatim>\<open>length_prefixed_decoder.rs\<close>. The deserializer of a
  frame is user code and a parameter. The locale \<open>frame_decoder\<close> is what a host needs of a decoder so
  that it does not matter how the bytes of a stream are cut into reads; it is interpreted for the
  length-prefixed decoder.
\<close>

section \<open>Encoders and decoders\<close>

datatype 'm decode_result = Incomplete | Frame nat "'m option" | Corrupt

definition raw_try_decode :: "(u8 list \<Rightarrow> 'm) \<Rightarrow> u8 list \<Rightarrow> 'm decode_result" where
  "raw_try_decode session_received buffer =
     (if buffer = [] then Incomplete else Frame (length buffer) (Some (session_received buffer)))"

definition raw_encode :: "u8 list \<Rightarrow> u8 list" where
  "raw_encode payload = payload"

definition LENGTH_PREFIX_SIZE :: nat where "LENGTH_PREFIX_SIZE = 4"

definition DEFAULT_MAX_FRAME_LEN :: nat where "DEFAULT_MAX_FRAME_LEN = 2 ^ 20"

definition to_be_bytes :: "u32 \<Rightarrow> u8 list" where
  "to_be_bytes w = [ucast (drop_bit 24 w), ucast (drop_bit 16 w), ucast (drop_bit 8 w), ucast w]"

definition from_be_bytes :: "u8 \<Rightarrow> u8 \<Rightarrow> u8 \<Rightarrow> u8 \<Rightarrow> u32" where
  "from_be_bytes a b c d =
     push_bit 24 (ucast a) OR push_bit 16 (ucast b) OR push_bit 8 (ucast c) OR ucast d"

definition length_prefixed_frame :: "u8 list \<Rightarrow> u8 list" where
  "length_prefixed_frame payload = to_be_bytes (of_nat (length payload)) @ payload"

definition length_prefixed_encode :: "u8 list \<Rightarrow> u8 list" where
  "length_prefixed_encode payload = length_prefixed_frame payload"

record 'm length_prefixed_decoder =
  deserialize :: "u8 list \<Rightarrow> 'm option"
  max_frame_len :: nat

definition new_length_prefixed_decoder :: "(u8 list \<Rightarrow> 'm option) \<Rightarrow> 'm length_prefixed_decoder" where
  "new_length_prefixed_decoder f = \<lparr>deserialize = f, max_frame_len = DEFAULT_MAX_FRAME_LEN\<rparr>"

definition with_max_frame_len :: "(u8 list \<Rightarrow> 'm option) \<Rightarrow> nat \<Rightarrow> 'm length_prefixed_decoder" where
  "with_max_frame_len f n = \<lparr>deserialize = f, max_frame_len = n\<rparr>"

definition lp_try_decode :: "'m length_prefixed_decoder \<Rightarrow> u8 list \<Rightarrow> 'm decode_result" where
  "lp_try_decode dec buffer =
     (if length buffer < LENGTH_PREFIX_SIZE then Incomplete
      else let payload_len = unat (from_be_bytes (buffer ! 0) (buffer ! 1) (buffer ! 2) (buffer ! 3)) in
        if payload_len > max_frame_len dec then Corrupt
        else let total = LENGTH_PREFIX_SIZE + payload_len in
          if length buffer < total then Incomplete
          else Frame total (deserialize dec (take payload_len (drop LENGTH_PREFIX_SIZE buffer))))"

section \<open>Decoding a buffer\<close>

text \<open>
  The loop with which a host takes frames off a buffer, from an offset on: the messages it posts, how
  it ends and at which offset. A decoder that claims to consume nothing would keep it running
  (\<open>None\<close>); one that claims more than the buffer has makes the slice panic.
\<close>

datatype loop_end = Loop_Incomplete | Loop_Corrupt | Loop_Panic

partial_function (option) decode_loop ::
    "(u8 list \<Rightarrow> 'm decode_result) \<Rightarrow> u8 list \<Rightarrow> nat \<Rightarrow> 'm list \<Rightarrow> (nat \<times> loop_end \<times> 'm list) option" where
  "decode_loop dec buffer offset posts =
     (if length buffer < offset then Some (offset, Loop_Panic, posts)
      else case dec (drop offset buffer) of
        Incomplete \<Rightarrow> Some (offset, Loop_Incomplete, posts)
      | Corrupt \<Rightarrow> Some (offset, Loop_Corrupt, posts)
      | Frame consumed message \<Rightarrow>
          decode_loop dec buffer (offset + consumed) (posts @ (case message of None \<Rightarrow> [] | Some m \<Rightarrow> [m])))"

text \<open>The reference: the messages of a whole stream, what is left of it, and whether it is corrupt.\<close>

function (sequential) decode_stream ::
    "(u8 list \<Rightarrow> 'm decode_result) \<Rightarrow> u8 list \<Rightarrow> 'm list \<times> u8 list \<times> bool" where
  "decode_stream dec stream =
     (case dec stream of
        Incomplete \<Rightarrow> ([], stream, False)
      | Corrupt \<Rightarrow> ([], stream, True)
      | Frame consumed message \<Rightarrow>
          if consumed = 0 \<or> length stream < consumed then ([], stream, False)
          else let (ms, rest, bad) = decode_stream dec (drop consumed stream)
               in ((case message of None \<Rightarrow> [] | Some m \<Rightarrow> [m]) @ ms, rest, bad))"
  by pat_completeness auto
termination by (relation "measure (length \<circ> snd)") auto

declare decode_stream.simps [simp del]

section \<open>Decoders that do not depend on how the stream is cut\<close>

locale frame_decoder =
  fixes try_decode :: "u8 list \<Rightarrow> 'm decode_result"
  assumes nothing_yet: "try_decode [] = Incomplete"
    and consumes: "try_decode buffer = Frame n m \<Longrightarrow> 0 < n \<and> n \<le> length buffer"
    and frame_stable: "try_decode buffer = Frame n m \<Longrightarrow> try_decode (buffer @ ys) = Frame n m"
    and corrupt_stable: "try_decode buffer = Corrupt \<Longrightarrow> try_decode (buffer @ ys) = Corrupt"
begin

lemma decode_loop_stream:
  assumes "offset \<le> length buffer" "decode_stream try_decode (drop offset buffer) = (ms, rest, bad)"
  shows "decode_loop try_decode buffer offset posts =
     Some (length buffer - length rest, if bad then Loop_Corrupt else Loop_Incomplete, posts @ ms)
     \<and> rest = drop (length buffer - length rest) buffer \<and> length rest \<le> length buffer - offset"
  using assms
proof (induction "length buffer - offset" arbitrary: offset posts ms rest rule: less_induct)
  case less
  show ?case
  proof (cases "try_decode (drop offset buffer)")
    case (Frame n m)
    have n: "0 < n" "offset + n \<le> length buffer"
      using consumes [OF Frame] less.prems(1) by auto
    then have lt: "length buffer - (offset + n) < length buffer - offset" by simp
    obtain ms' rest' bad' where rec: "decode_stream try_decode (drop (offset + n) buffer) = (ms', rest', bad')"
      by (metis prod_cases3)
    then have "ms = (case m of None \<Rightarrow> [] | Some m \<Rightarrow> [m]) @ ms'" "rest = rest'" "bad = bad'"
      using less.prems(2) Frame consumes [OF Frame]
      by (auto simp: decode_stream.simps [of _ "drop offset buffer"] add.commute Let_def)
    then show ?thesis
      using less.hyps [OF lt n(2) rec [folded \<open>bad = bad'\<close>],
          of "posts @ (case m of None \<Rightarrow> [] | Some m \<Rightarrow> [m])"] Frame less.prems(1) n
      by (subst decode_loop.simps) auto
  qed (use less.prems in \<open>auto simp: decode_stream.simps [of _ "drop offset buffer"] decode_loop.simps\<close>)
qed

lemma decode_stream_append:
  assumes "decode_stream try_decode xs = (ms, rest, False)"
  shows "decode_stream try_decode (xs @ ys) =
     (let (ms', rest', bad) = decode_stream try_decode (rest @ ys) in (ms @ ms', rest', bad))"
  using assms
proof (induction "length xs" arbitrary: xs ms rest rule: less_induct)
  case less
  show ?case
  proof (cases "try_decode xs")
    case (Frame n m)
    have n: "0 < n" "n \<le> length xs" using consumes [OF Frame] by simp_all
    obtain ms' rest' bad where rec: "decode_stream try_decode (drop n xs) = (ms', rest', bad)" by (metis prod_cases3)
    have eq: "bad = False" "rest = rest'" "ms = (case m of None \<Rightarrow> [] | Some m \<Rightarrow> [m]) @ ms'"
      using less.prems Frame n rec by (auto simp: decode_stream.simps [of _ xs])
    have "length (drop n xs) < length xs" using n by simp
    from less.hyps [OF this rec [unfolded eq(1)]] show ?thesis
      using frame_stable [OF Frame, of ys] n eq
      by (auto simp: decode_stream.simps [of _ "xs @ ys"] split: prod.splits)
  qed (use less.prems in \<open>auto simp: decode_stream.simps [of _ xs] split: prod.splits\<close>)
qed

lemma decode_stream_corrupt:
  assumes "decode_stream try_decode xs = (ms, rest, True)"
  shows "decode_stream try_decode (xs @ ys) = (ms, rest @ ys, True)"
  using assms
proof (induction "length xs" arbitrary: xs ms rest rule: less_induct)
  case less
  show ?case
  proof (cases "try_decode xs")
    case (Frame n m)
    have n: "0 < n" "n \<le> length xs" using consumes [OF Frame] by simp_all
    obtain ms' rest' bad where rec: "decode_stream try_decode (drop n xs) = (ms', rest', bad)" by (metis prod_cases3)
    have eq: "bad = True" "rest = rest'" "ms = (case m of None \<Rightarrow> [] | Some m \<Rightarrow> [m]) @ ms'"
      using less.prems Frame n rec by (auto simp: decode_stream.simps [of _ xs])
    have "length (drop n xs) < length xs" using n by simp
    from less.hyps [OF this rec [unfolded eq(1)]] show ?thesis
      using frame_stable [OF Frame, of ys] n eq by (auto simp: decode_stream.simps [of _ "xs @ ys"])
  next
    case Corrupt
    then show ?thesis
      using less.prems corrupt_stable [OF Corrupt, of ys]
      by (subst decode_stream.simps) (auto simp: decode_stream.simps [of _ xs])
  qed (use less.prems in \<open>auto simp: decode_stream.simps [of _ xs]\<close>)
qed

lemma decode_stream_rest:
  assumes "decode_stream try_decode xs = (ms, rest, False)"
  shows "decode_stream try_decode rest = ([], rest, False)"
  using assms
proof (induction "length xs" arbitrary: xs ms rule: less_induct)
  case less
  show ?case
  proof (cases "try_decode xs")
    case (Frame n m)
    have n: "0 < n" "n \<le> length xs" using consumes [OF Frame] by simp_all
    obtain ms' rest' bad where rec: "decode_stream try_decode (drop n xs) = (ms', rest', bad)" by (metis prod_cases3)
    then have "bad = False" "rest = rest'" using less.prems Frame n by (auto simp: decode_stream.simps [of _ xs])
    then show ?thesis using less.hyps [of "drop n xs" ms'] rec n by simp
  next
    case Incomplete
    then have "rest = xs" using less.prems by (simp add: decode_stream.simps [of _ xs])
    then show ?thesis using Incomplete by (simp add: decode_stream.simps [of _ xs])
  qed (use less.prems in \<open>auto simp: decode_stream.simps [of _ xs]\<close>)
qed

end

section \<open>The length-prefixed decoder\<close>

lemma be_bytes_roundtrip: "from_be_bytes (ucast (drop_bit 24 w)) (ucast (drop_bit 16 w)) (ucast (drop_bit 8 w)) (ucast w) = w"
proof (rule bit_word_eqI)
  fix n assume "n < LENGTH(32)"
  then consider "n < 8" | "8 \<le> n" "n < 16" | "16 \<le> n" "n < 24" | "24 \<le> n" "n < 32" by fastforce
  then show "bit (from_be_bytes (ucast (drop_bit 24 w)) (ucast (drop_bit 16 w)) (ucast (drop_bit 8 w)) (ucast w)) n = bit w n"
    unfolding from_be_bytes_def by cases (auto simp: bit_simps)
qed

interpretation lp: frame_decoder "lp_try_decode dec" for dec :: "'m length_prefixed_decoder"
  by unfold_locales
     (auto simp: lp_try_decode_def LENGTH_PREFIX_SIZE_def Let_def nth_append split: if_splits)

lemma lp_decode_frame:
  assumes "length payload \<le> max_frame_len dec" "length payload < 2 ^ 32"
  shows "lp_try_decode dec (length_prefixed_frame payload @ ys) = Frame (4 + length payload) (deserialize dec payload)"
proof -
  have "unat (of_nat (length payload) :: u32) = length payload"
    using assms(2) by (intro of_nat_inverse [OF refl]) simp
  then show ?thesis
    using assms(1)
    by (simp add: lp_try_decode_def length_prefixed_frame_def to_be_bytes_def LENGTH_PREFIX_SIZE_def Let_def be_bytes_roundtrip)
qed

lemma lp_decode_stream_frames:
  assumes "\<forall>p \<in> set payloads. length p \<le> max_frame_len dec \<and> length p < 2 ^ 32"
  shows "decode_stream (lp_try_decode dec) (concat (map length_prefixed_frame payloads) @ ys) =
     (let (ms, rest, bad) = decode_stream (lp_try_decode dec) ys
      in (List.map_filter (deserialize dec) payloads @ ms, rest, bad))"
  using assms
proof (induction payloads)
  case (Cons p payloads)
  have "length (length_prefixed_frame p) = 4 + length p"
    by (simp add: length_prefixed_frame_def to_be_bytes_def)
  then show ?case
    using Cons lp_decode_frame [of p dec "concat (map length_prefixed_frame payloads) @ ys"]
    by (auto simp: decode_stream.simps [of _ "length_prefixed_frame p @ z" for z] map_filter_simps
        split: prod.splits option.splits)
qed (simp add: map_filter_simps)

section \<open>Properties\<close>

text \<open>
  The length-prefixed decoder inverts the encoder. A frame of a payload within the decoder's limit,
  followed by any bytes, decodes to exactly that payload and consumes exactly the frame; any proper
  prefix of the frame is reported as incomplete.
\<close>

theorem length_prefixed_roundtrip:
  assumes "length payload \<le> max_frame_len dec" "length payload < 2 ^ 32"
  shows "lp_try_decode dec (length_prefixed_encode payload @ ys) =
       Frame (length (length_prefixed_encode payload)) (deserialize dec payload) \<and>
     (k < length (length_prefixed_encode payload) \<longrightarrow>
       lp_try_decode dec (take k (length_prefixed_encode payload)) = Incomplete)"
proof -
  have len: "length (length_prefixed_frame payload) = 4 + length payload"
    by (simp add: length_prefixed_frame_def to_be_bytes_def)
  have "lp_try_decode dec (take k (length_prefixed_frame payload)) = Incomplete" if k: "k < 4 + length payload"
  proof -
    let ?f = "length_prefixed_frame payload"
    have whole: "lp_try_decode dec (take k ?f @ drop k ?f) = Frame (4 + length payload) (deserialize dec payload)"
      using lp_decode_frame [OF assms, of "[]"] by simp
    show ?thesis
    proof (cases "lp_try_decode dec (take k ?f)")
      case (Frame n m)
      then have "n = 4 + length payload" using lp.frame_stable [OF Frame, of "drop k ?f"] whole by simp
      then show ?thesis using lp.consumes [OF Frame] k by simp
    next
      case Corrupt
      then show ?thesis using lp.corrupt_stable [OF Corrupt, of "drop k ?f"] whole by simp
    qed simp
  qed
  then show ?thesis
    using lp_decode_frame [OF assms] len by (simp add: length_prefixed_encode_def)
qed

theorem length_prefixed_roundtrip_witness:
  "lp_try_decode (new_length_prefixed_decoder Some) ([0, 0, 0, 2, 7, 8] @ [9]) = Frame 6 (Some [7, 8]) \<and>
   lp_try_decode (new_length_prefixed_decoder Some) [0, 0, 0, 2, 7] = Incomplete"
  using length_prefixed_roundtrip [of "[7, 8]" "new_length_prefixed_decoder Some" "[9]" 5]
  by (simp add: new_length_prefixed_decoder_def DEFAULT_MAX_FRAME_LEN_def length_prefixed_encode_def
      length_prefixed_frame_def to_be_bytes_def)

text \<open>
  The decoder bounds what it accepts: it never consumes more than it is given nor a frame beyond the
  limit, it reports corruption exactly when four bytes announce more than the limit, and taking frames
  off any buffer always terminates without a slice panic.
\<close>

theorem length_prefixed_bounds:
  "(lp_try_decode dec buffer = Frame n m \<longrightarrow> 4 \<le> n \<and> n \<le> length buffer \<and> n \<le> 4 + max_frame_len dec) \<and>
   (lp_try_decode dec buffer = Corrupt \<longleftrightarrow> 4 \<le> length buffer \<and>
      max_frame_len dec < unat (from_be_bytes (buffer ! 0) (buffer ! 1) (buffer ! 2) (buffer ! 3))) \<and>
   (\<exists>offset ending posts. decode_loop (lp_try_decode dec) buffer 0 [] = Some (offset, ending, posts) \<and>
      ending \<noteq> Loop_Panic \<and> offset \<le> length buffer)"
proof -
  obtain ms rest bad where "decode_stream (lp_try_decode dec) (drop 0 buffer) = (ms, rest, bad)" by (metis prod_cases3)
  from lp.decode_loop_stream [OF _ this, of "[]"] have
    "\<exists>offset ending posts. decode_loop (lp_try_decode dec) buffer 0 [] = Some (offset, ending, posts) \<and>
      ending \<noteq> Loop_Panic \<and> offset \<le> length buffer" by auto
  then show ?thesis
    by (auto simp: lp_try_decode_def LENGTH_PREFIX_SIZE_def Let_def split: if_splits)
qed

theorem length_prefixed_bounds_witness:
  "lp_try_decode (with_max_frame_len Some 1) [0, 0, 0, 2, 7, 8] = Corrupt"
  using length_prefixed_bounds [of "with_max_frame_len Some 1" "[0, 0, 0, 2, 7, 8]"]
  by (simp add: with_max_frame_len_def from_be_bytes_def)

end
