(* ===== verification/Session_Host.thy ===== *)
theory Session_Host
  imports Codec "HOL-Library.Sublist"
begin

text \<open>
  The session host of \<^verbatim>\<open>session_actor_host.rs\<close>: one actor per connection, an inbound buffer per session,
  and the framing of what arrives. Spawning the session's actor is the actor system's operation; here
  it is the actor handle that comes with the session. Each call returns the calls the host makes on its
  sessions, in order: a message posted to the session's actor, the session closed, the actor killed.
\<close>

section \<open>Data\<close>

datatype ('a, 'm) host_effect = Post_Actor 'a 'm | Close_Session u64 | Kill_Actor 'a

record 'a session_entry =
  entry_actor :: 'a
  inbound :: "u8 list"

type_synonym 'a host_sessions = "u64 \<rightharpoonup> 'a session_entry"

section \<open>Handlers\<close>

definition on_accepted :: "u64 \<Rightarrow> 'a \<Rightarrow> 'a host_sessions \<Rightarrow> 'a host_sessions" where
  "on_accepted sid actor sessions = sessions(sid \<mapsto> \<lparr>entry_actor = actor, inbound = []\<rparr>)"

text \<open>
  \<open>on_data\<close> for one entry: with an empty buffer the frames are taken off the data itself, else off the
  buffer with the data appended. \<open>None\<close> is a decoding loop that does not end; on a slice panic the
  handler unwinds after the messages it had posted.
\<close>

definition on_data_entry ::
    "(u8 list \<Rightarrow> 'm decode_result) \<Rightarrow> u64 \<Rightarrow> u8 list \<Rightarrow> 'a session_entry
     \<Rightarrow> (unit result \<times> ('a, 'm) host_effect list \<times> 'a session_entry) option" where
  "on_data_entry dec sid data entry =
     (if inbound entry = [] then
        case decode_loop dec data 0 [] of
          None \<Rightarrow> None
        | Some (offset, ending, posts) \<Rightarrow>
            (let posted = map (Post_Actor (entry_actor entry)) posts in
             case ending of
               Loop_Panic \<Rightarrow> Some (Inl Index_Out_Of_Bounds, posted, entry)
             | Loop_Corrupt \<Rightarrow> Some (Inr (), posted @ [Close_Session sid], entry)
             | Loop_Incomplete \<Rightarrow>
                 Some (Inr (), posted,
                   if offset < length data then entry\<lparr>inbound := inbound entry @ drop offset data\<rparr> else entry))
      else
        let buffer = inbound entry @ data in
        case decode_loop dec buffer 0 [] of
          None \<Rightarrow> None
        | Some (offset, ending, posts) \<Rightarrow>
            (let posted = map (Post_Actor (entry_actor entry)) posts;
                 entry' = entry\<lparr>inbound := if offset > 0 then drop offset buffer else buffer\<rparr> in
             case ending of
               Loop_Panic \<Rightarrow> Some (Inl Index_Out_Of_Bounds, posted, entry\<lparr>inbound := buffer\<rparr>)
             | Loop_Corrupt \<Rightarrow> Some (Inr (), posted @ [Close_Session sid], entry')
             | Loop_Incomplete \<Rightarrow> Some (Inr (), posted, entry')))"

definition on_data ::
    "(u8 list \<Rightarrow> 'm decode_result) \<Rightarrow> u64 \<Rightarrow> u8 list \<Rightarrow> 'a host_sessions
     \<Rightarrow> (unit result \<times> ('a, 'm) host_effect list \<times> 'a host_sessions) option" where
  "on_data dec sid data sessions =
     (case sessions sid of
        None \<Rightarrow> Some (Inr (), [], sessions)
      | Some entry \<Rightarrow>
          (case on_data_entry dec sid data entry of
             None \<Rightarrow> None
           | Some (r, effects, entry') \<Rightarrow> Some (r, effects, sessions(sid \<mapsto> entry'))))"

definition on_disconnected :: "u64 \<Rightarrow> 'a host_sessions \<Rightarrow> ('a, 'm) host_effect list \<times> 'a host_sessions" where
  "on_disconnected sid sessions =
     (case sessions sid of
        None \<Rightarrow> ([], sessions)
      | Some entry \<Rightarrow> ([Kill_Actor (entry_actor entry)], sessions(sid := None)))"

text \<open>The reads of a session, one after the other.\<close>

fun on_reads ::
    "(u8 list \<Rightarrow> 'm decode_result) \<Rightarrow> u64 \<Rightarrow> u8 list list \<Rightarrow> 'a host_sessions
     \<Rightarrow> (unit result \<times> ('a, 'm) host_effect list \<times> 'a host_sessions) option" where
  "on_reads dec sid [] sessions = Some (Inr (), [], sessions)"
| "on_reads dec sid (data # reads) sessions =
     (case on_data dec sid data sessions of
        None \<Rightarrow> None
      | Some (Inl p, effects, sessions') \<Rightarrow> Some (Inl p, effects, sessions')
      | Some (Inr _, effects, sessions') \<Rightarrow>
          (case on_reads dec sid reads sessions' of
             None \<Rightarrow> None
           | Some (r, effects', sessions'') \<Rightarrow> Some (r, effects @ effects', sessions'')))"

section \<open>Framing does not depend on the reads\<close>

context frame_decoder
begin

lemma on_data_entry_stream:
  assumes "decode_stream try_decode (inbound entry @ data) = (ms, rest, bad)"
  shows "on_data_entry try_decode sid data entry =
     Some (Inr (), map (Post_Actor (entry_actor entry)) ms @ (if bad then [Close_Session sid] else []),
       entry\<lparr>inbound := if bad \<and> inbound entry = [] then [] else rest\<rparr>)"
proof -
  have stream: "decode_stream try_decode (drop 0 (inbound entry @ data)) = (ms, rest, bad)" using assms by simp
  note loop = decode_loop_stream [OF _ stream, of "[]", simplified]
  show ?thesis
    using loop by (cases "inbound entry = []") (auto simp: on_data_entry_def Let_def)
qed

lemma on_reads_stream:
  assumes "sessions sid = Some entry" "decode_stream try_decode (inbound entry) = ([], inbound entry, False)"
    "decode_stream try_decode (inbound entry @ concat reads) = (ms, rest, False)"
  shows "on_reads try_decode sid reads sessions =
     Some (Inr (), map (Post_Actor (entry_actor entry)) ms, sessions(sid \<mapsto> entry\<lparr>inbound := rest\<rparr>))"
  using assms
proof (induction reads arbitrary: sessions entry ms)
  case (Cons data reads)
  obtain ms1 rest1 bad1 where first: "decode_stream try_decode (inbound entry @ data) = (ms1, rest1, bad1)"
    by (metis prod_cases3)
  have "bad1 = False"
    using Cons.prems(3) decode_stream_corrupt [of "inbound entry @ data" ms1 rest1 "concat reads"] first by (cases bad1) auto
  note first = first [unfolded this]
  obtain ms2 where ms2: "decode_stream try_decode (rest1 @ concat reads) = (ms2, rest, False)" "ms = ms1 @ ms2"
    using Cons.prems(3) decode_stream_append [OF first, of "concat reads"] by (auto split: prod.splits)
  let ?entry = "entry\<lparr>inbound := rest1\<rparr>"
  have "on_data try_decode sid data sessions = Some (Inr (), map (Post_Actor (entry_actor entry)) ms1, sessions(sid \<mapsto> ?entry))"
    using on_data_entry_stream [OF first, of sid] Cons.prems(1) by (simp add: on_data_def)
  moreover have "on_reads try_decode sid reads (sessions(sid \<mapsto> ?entry)) =
      Some (Inr (), map (Post_Actor (entry_actor entry)) ms2, sessions(sid \<mapsto> entry\<lparr>inbound := rest\<rparr>))"
    using Cons.IH [of "sessions(sid \<mapsto> ?entry)" ?entry ms2] decode_stream_rest [OF first] ms2
    by (simp del: fun_upd_apply add: fun_upd_same)
  ultimately show ?case by (simp add: ms2(2) del: fun_upd_apply)
qed (auto simp: fun_upd_idem)

end

section \<open>The buffered reference\<close>

text \<open>
  What \<open>on_data\<close> does without its fast path: every read goes through the buffer of the entry, also when that is empty.
\<close>

definition on_data_buffered ::
    "(u8 list \<Rightarrow> 'm decode_result) \<Rightarrow> u64 \<Rightarrow> u8 list \<Rightarrow> 'a host_sessions
     \<Rightarrow> (unit result \<times> ('a, 'm) host_effect list \<times> 'a host_sessions) option" where
  "on_data_buffered dec sid data sessions =
     (case sessions sid of
        None \<Rightarrow> Some (Inr (), [], sessions)
      | Some entry \<Rightarrow>
          (let buffer = inbound entry @ data in
           case decode_loop dec buffer 0 [] of
             None \<Rightarrow> None
           | Some (offset, ending, posts) \<Rightarrow>
               (let posted = map (Post_Actor (entry_actor entry)) posts in
                case ending of
                  Loop_Panic \<Rightarrow> Some (Inl Index_Out_Of_Bounds, posted, sessions(sid \<mapsto> entry\<lparr>inbound := buffer\<rparr>))
                | Loop_Corrupt \<Rightarrow> Some (Inr (), posted @ [Close_Session sid], sessions(sid \<mapsto> entry\<lparr>inbound := drop offset buffer\<rparr>))
                | Loop_Incomplete \<Rightarrow> Some (Inr (), posted, sessions(sid \<mapsto> entry\<lparr>inbound := drop offset buffer\<rparr>)))))"

fun on_reads_buffered ::
    "(u8 list \<Rightarrow> 'm decode_result) \<Rightarrow> u64 \<Rightarrow> u8 list list \<Rightarrow> 'a host_sessions
     \<Rightarrow> (unit result \<times> ('a, 'm) host_effect list \<times> 'a host_sessions) option" where
  "on_reads_buffered dec sid [] sessions = Some (Inr (), [], sessions)"
| "on_reads_buffered dec sid (data # reads) sessions =
     (case on_data_buffered dec sid data sessions of
        None \<Rightarrow> None
      | Some (Inl p, effects, sessions') \<Rightarrow> Some (Inl p, effects, sessions')
      | Some (Inr _, effects, sessions') \<Rightarrow>
          (case on_reads_buffered dec sid reads sessions' of
             None \<Rightarrow> None
           | Some (r, effects', sessions'') \<Rightarrow> Some (r, effects @ effects', sessions'')))"

text \<open>The part of an outcome that the outside sees, and an outcome that neither panics nor asks for a close.\<close>

definition visible :: "(unit result \<times> ('a, 'm) host_effect list \<times> 'a host_sessions) option \<Rightarrow> (unit result \<times> ('a, 'm) host_effect list) option" where
  "visible = map_option (\<lambda>(r, effects, _). (r, effects))"

definition calm :: "u64 \<Rightarrow> (unit result \<times> ('a, 'm) host_effect list \<times> 'a host_sessions) option \<Rightarrow> bool" where
  "calm sid out \<longleftrightarrow> (\<exists>effects. visible out = Some (Inr (), effects) \<and> Close_Session sid \<notin> set effects)"

lemma on_data_visible: "visible (on_data dec sid data sessions) = visible (on_data_buffered dec sid data sessions)"
  by (auto simp: visible_def on_data_def on_data_entry_def on_data_buffered_def Let_def split: option.splits loop_end.splits)

lemma on_data_calm: "calm sid (on_data_buffered dec sid data sessions) \<Longrightarrow> on_data dec sid data sessions = on_data_buffered dec sid data sessions"
  by (auto simp: calm_def visible_def on_data_def on_data_entry_def on_data_buffered_def Let_def split: option.splits loop_end.splits)

lemma calm_visible: "visible out = visible out' \<Longrightarrow> calm sid out \<longleftrightarrow> calm sid out'"
  by (simp add: calm_def)

lemma calm_Cons:
  "calm sid (on_reads dec sid (data # reads) sessions) \<longleftrightarrow>
     calm sid (on_data dec sid data sessions) \<and> calm sid (on_reads dec sid reads (snd (snd (the (on_data dec sid data sessions)))))"
  "calm sid (on_reads_buffered dec sid (data # reads) sessions) \<longleftrightarrow>
     calm sid (on_data_buffered dec sid data sessions) \<and>
     calm sid (on_reads_buffered dec sid reads (snd (snd (the (on_data_buffered dec sid data sessions)))))"
  by (auto simp: calm_def visible_def split: option.splits sum.splits)

lemma on_reads_calm:
  "calm sid (on_reads dec sid reads sessions) \<longleftrightarrow> calm sid (on_reads_buffered dec sid reads sessions)"
  "calm sid (on_reads_buffered dec sid reads sessions) \<Longrightarrow> on_reads dec sid reads sessions = on_reads_buffered dec sid reads sessions"
proof (induction reads arbitrary: sessions)
  case (Cons data reads)
  case 1
  show ?case
  proof (cases "calm sid (on_data_buffered dec sid data sessions)")
    case True
    show ?thesis by (simp only: calm_Cons on_data_calm [OF True] Cons(1))
  qed (simp only: calm_Cons calm_visible [OF on_data_visible] simp_thms)
  case 2
  let ?b = "on_data_buffered dec sid data sessions"
  from 2 have calm: "calm sid ?b" "calm sid (on_reads_buffered dec sid reads (snd (snd (the ?b))))"
    by (simp_all only: calm_Cons)
  obtain effects s' where b: "?b = Some (Inr (), effects, s')" using calm(1) by (auto simp: calm_def visible_def)
  with calm have "on_data dec sid data sessions = Some (Inr (), effects, s')" "on_reads dec sid reads s' = on_reads_buffered dec sid reads s'"
    using on_data_calm [OF calm(1)] Cons(2) [of s'] by simp_all
  then show ?case using b by simp
qed simp_all

section \<open>Properties\<close>

text \<open>
  C4: end to end, the messages of a session arrive whatever the network does to the boundaries: if a
  peer sends length-prefixed frames of payloads within the limit, then however the bytes are cut into
  reads, the host posts exactly the deserialized payloads to the session's actor, in order, keeps
  exactly the incomplete tail in its buffer, closes nothing and leaves every other session alone.
\<close>

theorem frames_survive_any_reads:
  assumes "concat reads = concat (map length_prefixed_encode payloads) @ tail"
    and "\<forall>p \<in> set payloads. length p \<le> max_frame_len dec \<and> length p < 2 ^ 32"
    and "decode_stream (lp_try_decode dec) tail = ([], tail, False)"
    and "sessions sid = Some \<lparr>entry_actor = actor, inbound = []\<rparr>"
  shows "on_reads (lp_try_decode dec) sid reads sessions =
     Some (Inr (), map (Post_Actor actor) (List.map_filter (deserialize dec) payloads),
       sessions(sid \<mapsto> \<lparr>entry_actor = actor, inbound = tail\<rparr>))"
proof -
  have "decode_stream (lp_try_decode dec) (concat reads) = (List.map_filter (deserialize dec) payloads, tail, False)"
    using lp_decode_stream_frames [OF assms(2), of tail] assms(1,3)
    by (simp add: length_prefixed_encode_def [abs_def])
  then show ?thesis
    using lp.on_reads_stream [of sessions sid "\<lparr>entry_actor = actor, inbound = []\<rparr>" dec reads] assms(4)
    by (simp add: decode_stream.simps lp.nothing_yet)
qed

theorem frames_survive_any_reads_witness:
  "on_reads (lp_try_decode (new_length_prefixed_decoder Some)) 5 [[0, 0], [0, 2, 7], [8, 0, 0, 0, 1, 9, 0, 0]]
     [5 \<mapsto> \<lparr>entry_actor = ''a'', inbound = []\<rparr>] =
   Some (Inr (), [Post_Actor ''a'' [7, 8], Post_Actor ''a'' [9]], [5 \<mapsto> \<lparr>entry_actor = ''a'', inbound = [0, 0]\<rparr>])"
proof -
  let ?dec = "new_length_prefixed_decoder Some :: u8 list length_prefixed_decoder"
  have "decode_stream (lp_try_decode ?dec) [0, 0] = ([], [0, 0], False)"
    by (simp add: decode_stream.simps lp_try_decode_def LENGTH_PREFIX_SIZE_def)
  then show ?thesis
    using frames_survive_any_reads [of "[[0, 0], [0, 2, 7], [8, 0, 0, 0, 1, 9, 0, 0]]" "[[7, 8], [9]]" "[0, 0]" ?dec
        "[5 \<mapsto> \<lparr>entry_actor = ''a'', inbound = []\<rparr>]" 5 "''a''"]
    by (simp add: length_prefixed_encode_def length_prefixed_frame_def to_be_bytes_def new_length_prefixed_decoder_def
        DEFAULT_MAX_FRAME_LEN_def map_filter_simps)
qed

text \<open>
  With the raw decoder every read of a session becomes exactly one message with the bytes of that
  read, and nothing stays buffered.
\<close>

theorem raw_decoder_posts_each_read:
  assumes "sessions sid = Some \<lparr>entry_actor = actor, inbound = []\<rparr>" "[] \<notin> set reads"
  shows "on_reads (raw_try_decode received) sid reads sessions =
     Some (Inr (), map (\<lambda>data. Post_Actor actor (received data)) reads, sessions)"
  using assms(2)
proof (induction reads)
  case (Cons data reads)
  then have "decode_loop (raw_try_decode received) data 0 [] = Some (length data, Loop_Incomplete, [received data])"
    by (auto simp: decode_loop.simps raw_try_decode_def)
  then have "on_data (raw_try_decode received) sid data sessions = Some (Inr (), [Post_Actor actor (received data)], sessions)"
    using assms(1) by (simp add: on_data_def on_data_entry_def fun_upd_idem)
  then show ?case using Cons by simp
qed simp

theorem raw_decoder_posts_each_read_witness:
  "on_reads (raw_try_decode id) 5 [[1], [2, 3]] [5 \<mapsto> \<lparr>entry_actor = ''a'', inbound = []\<rparr>] =
   Some (Inr (), [Post_Actor ''a'' [1], Post_Actor ''a'' [2, 3]], [5 \<mapsto> \<lparr>entry_actor = ''a'', inbound = []\<rparr>])"
  using raw_decoder_posts_each_read [of "[5 \<mapsto> \<lparr>entry_actor = ''a'', inbound = []\<rparr>]" 5 "''a''" "[[1], [2, 3]]" id]
  by simp

text \<open>
  C31: the fast path of \<open>on_data\<close> is the buffered decoding. Whatever decoder is plugged in, one read gives the same result and the
  same calls on session and actor as appending it to the buffer first. Over a whole sequence of reads, one of the two neither
  panics nor asks for the session to be closed if and only if the other does not, and then they agree in everything, the bytes
  kept for the next read included. After a close was asked for they may differ in the bytes kept.
\<close>

theorem fast_path_is_buffered_decoding:
  "visible (on_data dec sid data sessions) = visible (on_data_buffered dec sid data sessions) \<and>
   (on_reads dec sid reads sessions = Some (Inr (), effects, sessions') \<and> Close_Session sid \<notin> set effects \<longleftrightarrow>
    on_reads_buffered dec sid reads sessions = Some (Inr (), effects, sessions') \<and> Close_Session sid \<notin> set effects)"
proof -
  have "calm sid out" if "out = Some (Inr (), effects, sessions')" "Close_Session sid \<notin> set effects" for out
    using that by (simp add: calm_def visible_def)
  then show ?thesis
    using on_data_visible on_reads_calm [of sid dec reads sessions] by metis
qed

text \<open>
  C39: a corrupt stream is not always remembered. When the corrupt prefix arrives while the buffer is empty
  the host asks for the session to be closed but keeps nothing of the bytes; a read that is handled
  before the close takes effect is decoded as if a new stream began, and its frames are posted to the
  actor. When the buffer was not empty the corrupt bytes stay in it and no later read posts anything.
\<close>

theorem corrupt_stream_resumes:
  assumes "sessions sid = Some \<lparr>entry_actor = actor, inbound = []\<rparr>"
    "lp_try_decode dec bad = Corrupt" "length p \<le> max_frame_len dec" "length p < 2 ^ 32" "deserialize dec p = Some m"
  shows "on_reads (lp_try_decode dec) sid [bad, length_prefixed_encode p] sessions =
     Some (Inr (), [Close_Session sid, Post_Actor actor m], sessions) \<and>
     on_reads (lp_try_decode dec) sid [take 1 bad, drop 1 bad, length_prefixed_encode p] sessions =
     Some (Inr (), [Close_Session sid, Close_Session sid],
       sessions(sid \<mapsto> \<lparr>entry_actor = actor, inbound = bad @ length_prefixed_encode p\<rparr>))"
proof -
  have big: "4 \<le> length bad" and stream: "decode_stream (lp_try_decode dec) bad = ([], bad, True)"
    using assms(2) by (auto simp: decode_stream.simps [of _ bad] lp_try_decode_def LENGTH_PREFIX_SIZE_def split: if_splits)
  have more: "decode_stream (lp_try_decode dec) (bad @ ys) = ([], bad @ ys, True)" for ys
    using lp.decode_stream_corrupt [OF stream] .
  have frame: "decode_stream (lp_try_decode dec) (length_prefixed_encode p) = ([m], [], False)"
    using lp_decode_stream_frames [of "[p]" dec "[]"] assms(3-5)
    by (simp add: length_prefixed_encode_def map_filter_simps decode_stream.simps [of _ "[]"] lp.nothing_yet)
  have short: "decode_stream (lp_try_decode dec) (take 1 bad) = ([], take 1 bad, False)"
  proof -
    have "length (take 1 bad) < LENGTH_PREFIX_SIZE" by (simp add: LENGTH_PREFIX_SIZE_def min_def)
    then have "lp_try_decode dec (take 1 bad) = Incomplete" unfolding lp_try_decode_def by (simp only: if_True)
    then show ?thesis by (simp add: decode_stream.simps del: One_nat_def)
  qed
  have nonempty: "take 1 bad \<noteq> []" "bad \<noteq> []" using big by auto
  have step: "on_data (lp_try_decode dec) sid data sess = Some (Inr (), map (Post_Actor actor) ms @
       (if c then [Close_Session sid] else []), sess(sid \<mapsto> \<lparr>entry_actor = actor, inbound = if c \<and> buf = [] then [] else rest\<rparr>))"
    if "sess sid = Some \<lparr>entry_actor = actor, inbound = buf\<rparr>" "decode_stream (lp_try_decode dec) (buf @ data) = (ms, rest, c)"
    for sess buf data ms rest c
    using lp.on_data_entry_stream [of dec "\<lparr>entry_actor = actor, inbound = buf\<rparr>" data ms rest c sid] that
    by (simp add: on_data_def)
  have "on_reads (lp_try_decode dec) sid [bad, length_prefixed_encode p] sessions =
     Some (Inr (), [Close_Session sid, Post_Actor actor m], sessions)"
    using step [of sessions "[]" bad "[]" bad True] step [of sessions "[]" "length_prefixed_encode p" "[m]" "[]" False] assms(1) stream frame
    by (simp add: fun_upd_idem)
  moreover have "on_reads (lp_try_decode dec) sid [take 1 bad, drop 1 bad, length_prefixed_encode p] sessions =
     Some (Inr (), [Close_Session sid, Close_Session sid],
       sessions(sid \<mapsto> \<lparr>entry_actor = actor, inbound = bad @ length_prefixed_encode p\<rparr>))"
    using step [of sessions "[]" "take 1 bad" "[]" "take 1 bad" False] assms(1) short nonempty
      step [of "sessions(sid \<mapsto> \<lparr>entry_actor = actor, inbound = take 1 bad\<rparr>)" "take 1 bad" "drop 1 bad" "[]" bad True]
      step [of "sessions(sid \<mapsto> \<lparr>entry_actor = actor, inbound = bad\<rparr>)" bad "length_prefixed_encode p" "[]" "bad @ length_prefixed_encode p" True]
      stream more [of "length_prefixed_encode p"]
    by (simp del: take_append drop_append One_nat_def)
  ultimately show ?thesis by blast
qed

theorem corrupt_stream_resumes_witness:
  "on_reads (lp_try_decode (with_max_frame_len Some 2)) 5 [[0, 0, 0, 3], [0, 0, 0, 1, 9]] [5 \<mapsto> \<lparr>entry_actor = ''a'', inbound = []\<rparr>] =
   Some (Inr (), [Close_Session 5, Post_Actor ''a'' [9]], [5 \<mapsto> \<lparr>entry_actor = ''a'', inbound = []\<rparr>])"
proof -
  have "lp_try_decode (with_max_frame_len Some 2) [0, 0, 0, 3] = (Corrupt :: u8 list decode_result)"
    by (simp add: lp_try_decode_def LENGTH_PREFIX_SIZE_def with_max_frame_len_def from_be_bytes_def)
  then show ?thesis
    using corrupt_stream_resumes [of "[5 \<mapsto> \<lparr>entry_actor = ''a'', inbound = []\<rparr>]" 5 "''a''" "with_max_frame_len Some 2" "[0, 0, 0, 3]" "[9]" "[9]"]
    by (simp add: length_prefixed_encode_def length_prefixed_frame_def to_be_bytes_def with_max_frame_len_def)
qed

end
