(* ===== verification/Network_Host.thy ===== *)
theory Network_Host
  imports Tls_Reactor Session_Host Actor_System
begin

text \<open>
  The host around the reactor workers: its options (\<^verbatim>\<open>host_options.rs\<close>), the worker pool and its
  shutdown (\<^verbatim>\<open>tcp_host.rs\<close>, \<^verbatim>\<open>tls_host.rs\<close>, \<open>Reactor::build_pool\<close>), the senders handed to user code (\<^verbatim>\<open>session_sender.rs\<close>,
  \<^verbatim>\<open>network_session_ref.rs\<close>) and the spawn that the session host makes for a connection
  (\<^verbatim>\<open>session_actor_host.rs\<close>). What the operating system reports, the number of processors and whether the
  poller and the listener could be set up, is a parameter.
\<close>

section \<open>Options\<close>

definition DEFAULT_MAX_PENDING_SEND :: usize where "DEFAULT_MAX_PENDING_SEND = 1048576"

record host_options =
  worker_count :: usize
  opt_max_pending_send :: usize

definition default_options :: "usize option \<Rightarrow> host_options" where
  "default_options available_parallelism =
     \<lparr>worker_count = (case available_parallelism of Some n \<Rightarrow> n | None \<Rightarrow> 1), opt_max_pending_send = DEFAULT_MAX_PENDING_SEND\<rparr>"

definition new_options :: "usize option \<Rightarrow> host_options" where
  "new_options available_parallelism = default_options available_parallelism"

definition with_worker_count :: "usize \<Rightarrow> host_options \<Rightarrow> host_options" where
  "with_worker_count n opts = opts\<lparr>worker_count := max n 1\<rparr>"

definition with_max_pending_send :: "usize \<Rightarrow> host_options \<Rightarrow> host_options" where
  "with_max_pending_send n opts = opts\<lparr>opt_max_pending_send := n\<rparr>"

record session_host_options =
  mailbox_capacity :: usize
  dispatcher_index :: "usize option"

definition default_session_options :: session_host_options where
  "default_session_options = \<lparr>mailbox_capacity = 1024, dispatcher_index = None\<rparr>"

text \<open>The spawn that \<open>on_accepted\<close> makes; \<open>factory\<close> is the user's factory applied to the sender.\<close>

definition session_spawn :: "session_host_options \<Rightarrow> (unit \<Rightarrow> actor_context) \<Rightarrow> spawn_request" where
  "session_spawn opts factory =
     (case dispatcher_index opts of
        Some i \<Rightarrow> spawn_on_dispatcher_with_factory_options factory i None (mailbox_capacity opts)
      | None \<Rightarrow> spawn_with_factory_options factory None (mailbox_capacity opts))"

section \<open>Worker pool\<close>

text \<open>\<open>bound\<close> is the address of the listener, if it and the pollers and wakers could be set up.\<close>

definition build_pool :: "'addr option \<Rightarrow> usize \<Rightarrow> 'c transport \<Rightarrow> usize \<Rightarrow> ('c reactor list \<times> 'addr) option" where
  "build_pool bound workers factory max_pending =
     (let n = unat (max workers 1) in
      map_option (\<lambda>address. (replicate n (new_reactor factory n (unat max_pending)), address)) bound)"

record ('c, 'addr) network_host =
  host_reactors :: "'c reactor list"
  host_address :: 'addr

definition bind_host :: "'addr option \<Rightarrow> host_options \<Rightarrow> (unit, 'addr) network_host option" where
  "bind_host bound opts =
     map_option (\<lambda>(reactors, address). \<lparr>host_reactors = reactors, host_address = address\<rparr>)
       (build_pool bound (worker_count opts) tcp_transport (opt_max_pending_send opts))"

text \<open>\<open>TlsHost::bind\<close>; \<open>R\<close> is rustls with the given configuration.\<close>

definition bind_tls_host :: "'c rustls \<Rightarrow> 'addr option \<Rightarrow> host_options \<Rightarrow> ('c, 'addr) network_host option" where
  "bind_tls_host R bound opts =
     map_option (\<lambda>(reactors, address). \<lparr>host_reactors = reactors, host_address = address\<rparr>)
       (build_pool bound (worker_count opts) (tls_transport R) (opt_max_pending_send opts))"

definition local_address :: "('c, 'addr) network_host \<Rightarrow> 'addr" where
  "local_address host = host_address host"

text \<open>The shared states of the workers, which are part of them here.\<close>

definition shutdown_handle :: "('c, 'addr) network_host \<Rightarrow> 'c reactor list" where
  "shutdown_handle host = host_reactors host"

text \<open>\<open>HostShutdown::shutdown\<close> on workers that no other thread touches meanwhile.\<close>

definition shutdown_host :: "'c reactor list \<Rightarrow> 'c reactor list" where
  "shutdown_host workers = map (\<lambda>s. s\<lparr>stopped := True, waker_signalled := True\<rparr>) workers"

datatype 'e joined = Joined_Ok | Joined_Err 'e | Joined_Panic

datatype 'e host_error = Worker_Error 'e | Worker_Panicked

text \<open>What \<open>run\<close> of a host returns for the results of its workers, and how many of them it has joined.\<close>

fun run_reactors :: "'e joined list \<Rightarrow> ('e host_error + unit) \<times> nat" where
  "run_reactors [] = (Inr (), 0)"
| "run_reactors (Joined_Ok # rest) = (case run_reactors rest of (res, n) \<Rightarrow> (res, Suc n))"
| "run_reactors (Joined_Err e # rest) = (Inl (Worker_Error e), 1)"
| "run_reactors (Joined_Panic # rest) = (Inl Worker_Panicked, 1)"

section \<open>Senders\<close>

record session_sender =
  sender_session :: nat
  sender_encode :: "u8 list \<Rightarrow> u8 list"

definition new_session_sender :: "nat \<Rightarrow> (u8 list \<Rightarrow> u8 list) \<Rightarrow> session_sender" where
  "new_session_sender ses encoder = \<lparr>sender_session = ses, sender_encode = encoder\<rparr>"

text \<open>What they read of the session, which is kept in the state of its worker.\<close>

definition sender_id :: "session_sender \<Rightarrow> 'c reactor \<Rightarrow> u64 option" where
  "sender_id sender s = map_option session_id (sessions s (sender_session sender))"

definition sender_is_disposed :: "session_sender \<Rightarrow> 'c reactor \<Rightarrow> bool option" where
  "sender_is_disposed sender s = map_option disposed (sessions s (sender_session sender))"

text \<open>The calls they make on the session.\<close>

definition sender_send :: "session_sender \<Rightarrow> u8 list \<Rightarrow> client_pc" where
  "sender_send sender payload = T_Send (sender_session sender) (sender_encode sender payload)"

definition sender_send_raw :: "session_sender \<Rightarrow> u8 list \<Rightarrow> client_pc" where
  "sender_send_raw sender bytes = T_Send (sender_session sender) bytes"

definition sender_close :: "session_sender \<Rightarrow> client_pc" where
  "sender_close sender = T_Close (sender_session sender)"

record network_session_ref =
  net_actor_ref :: actor_ref
  net_session :: nat

definition new_network_session_ref :: "actor_ref \<Rightarrow> nat \<Rightarrow> network_session_ref" where
  "new_network_session_ref r ses = \<lparr>net_actor_ref = r, net_session = ses\<rparr>"

definition net_id :: "network_session_ref \<Rightarrow> 'c reactor \<Rightarrow> u64 option" where
  "net_id r s = map_option session_id (sessions s (net_session r))"

definition net_send :: "network_session_ref \<Rightarrow> u8 list \<Rightarrow> client_pc" where
  "net_send r bytes = T_Send (net_session r) bytes"

definition net_post :: "network_session_ref \<Rightarrow> 'm \<Rightarrow> actor_ref \<times> ('m, 'r) actor_mail" where
  "net_post r message = (net_actor_ref r, new_mail message None)"

definition net_close :: "network_session_ref \<Rightarrow> client_pc" where
  "net_close r = T_Close (net_session r)"

text \<open>\<open>kill\<close> closes the session and then kills the actor.\<close>

definition net_kill :: "network_session_ref \<Rightarrow> client_pc \<times> actor_ref" where
  "net_kill r = (net_close r, net_actor_ref r)"

section \<open>Properties\<close>

text \<open>A call of a session that no other thread interrupts, up to its answer.\<close>

definition session_call :: "nat \<Rightarrow> client_pc \<Rightarrow> 'c reactor \<Rightarrow> 'c reactor" where
  "session_call t call s =
     (advance (\<lambda>s. case clients s t of T_Result _ \<Rightarrow> None | pc \<Rightarrow> client_step t pc s) ^^ 4) (client_at t call s)"

text \<open>
  What a send through a sender does. It answers \<open>Disposed\<close> when the session is disposed or the host
  stopped, else \<open>BufferFull\<close> when the encoded payload does not fit beside the pending bytes, and then
  changes nothing; otherwise it answers \<open>Success\<close>, appends exactly the encoded payload to the
  session's pending bytes, queues the session and wakes the worker.
\<close>

theorem sender_send_outcome:
  assumes "sessions s (sender_session sender) = Some ses"
  shows "session_call t (sender_send sender payload) s =
    (if disposed ses \<or> stopped s then client_at t (T_Result Disposed) s
     else if \<not> can_write (length (sender_encode sender payload)) (outbound ses) then client_at t (T_Result BufferFull) s
     else client_at t (T_Result Success)
       (s\<lparr>sessions := (sessions s)(sender_session sender \<mapsto> ses\<lparr>outbound := sb_append (sender_encode sender payload) (outbound ses)\<rparr>),
          accepted := (accepted s)(sender_session sender := accepted s (sender_session sender) @ sender_encode sender payload),
          pending_writes := pending_writes s @ [sender_session sender], waker_signalled := True\<rparr>))"
  using assms by (simp add: session_call_def sender_send_def eval_nat_numeral advance_def update_session_def)

theorem sender_send_outcome_witness:
  "clients (session_call 0 (sender_send \<lparr>sender_session = 2, sender_encode = length_prefixed_encode\<rparr> [9]) open_reactor) 0 = T_Result Success"
  using sender_send_outcome [of open_reactor "\<lparr>sender_session = 2, sender_encode = length_prefixed_encode\<rparr>" "new_session 1 10" 0 "[9]"]
  by (simp add: open_reactor_eq new_reactor_def new_session_def can_write_def pending_len_def new_send_buffer_def
      length_prefixed_encode_def length_prefixed_frame_def to_be_bytes_def)

lemma close_all_loop:
  assumes "session_inv s" "worker s = P_CloseAll toks"
  defines "s' \<equiv> worker_run (replicate (length toks + 1) (on_events [])) s"
  shows "worker s' = P_Returned \<and> dom (connections s') = dom (connections s) - set toks"
  using assms(1,2) unfolding s'_def
proof (induction toks arbitrary: s)
  case Nil
  then show ?case by (simp add: worker_run_def advance_def)
next
  case (Cons tok toks)
  let ?s = "worker_at (P_CloseAll toks) (close tok s)"
  have "dom (connections (close tok s)) = dom (connections s) - {tok}"
    using sess_okI [OF Cons.prems(1), of tok] by (auto simp: sess_ok_def close_def split: option.splits)
  moreover have "session_inv ?s" using session_inv_close [OF Cons.prems(1)] by simp
  from Cons.IH [OF this] have "worker (worker_run (replicate (length toks + 1) (on_events [])) ?s) = P_Returned \<and>
      dom (connections (worker_run (replicate (length toks + 1) (on_events [])) ?s)) = dom (connections (close tok s)) - set toks"
    by simp
  ultimately show ?case using Cons.prems(2) by (auto simp: worker_run_def advance_def)
qed

text \<open>The answers a worker sees that a shutdown finds polling.\<close>

definition shutdown_answers :: "nat list \<Rightarrow> answers list" where
  "shutdown_answers toks =
     [on_events [Ev_Waker], (on_events [])\<lparr>ans_tokens := toks\<rparr>] @ replicate (length toks + 1) (on_events [])"

text \<open>
  Shutting a host down ends its workers. A worker that is about to poll when the host is shut down
  is woken, closes each of its connections and returns, in three steps more than it has connections,
  if the poll reports nothing but the wake-up; it then has no connection left.
\<close>

theorem shutdown_ends_polling_worker:
  assumes "reactor_reach 0 s" "worker s = P_Poll" "distinct toks" "set toks = dom (connections s)"
  shows "\<exists>s' s''. shutdown_host [s] = [s'] \<and> s'' = worker_run (shutdown_answers toks) s' \<and>
     worker s'' = P_Returned \<and> dom (connections s'') = {}"
proof -
  let ?s' = "s\<lparr>stopped := True, waker_signalled := True\<rparr>"
  let ?s1 = "worker_at (P_CloseAll toks) (s\<lparr>stopped := True, waker_signalled := False\<rparr>)"
  have "worker_run [on_events [Ev_Waker], (on_events [])\<lparr>ans_tokens := toks\<rparr>] ?s' = ?s1"
    using assms(2,3,4) by (simp add: worker_run_def advance_def on_events_def)
  then have "worker_run (shutdown_answers toks) ?s' = worker_run (replicate (length toks + 1) (on_events [])) ?s1"
    unfolding shutdown_answers_def by (simp only: worker_run_def fold_append comp_def)
  moreover have "session_inv ?s1" using sess.reach_inv [OF assms(1)] by simp
  note close_all_loop [OF this, of toks]
  ultimately have "worker (worker_run (shutdown_answers toks) ?s') = P_Returned \<and>
      dom (connections (worker_run (shutdown_answers toks) ?s')) = {}"
    using assms(4) by simp
  then show ?thesis by (simp add: shutdown_host_def)
qed

theorem shutdown_ends_polling_worker_witness:
  "worker (worker_run (shutdown_answers [2]) (hd (shutdown_host [open_reactor]))) = P_Returned"
  using shutdown_ends_polling_worker [OF open_reactor_reach, of "[2]"]
  by (auto simp: open_reactor_eq new_reactor_def)

text \<open>
  A host fails with the first worker that fails. \<open>run\<close> succeeds exactly when every worker ends without
  an error, in which case all were joined; otherwise it returns the error of the first that did not, and
  the workers behind it are not waited for.
\<close>

theorem host_fails_with_first_worker:
  "(fst (run_reactors rs) = Inr () \<longleftrightarrow> set rs \<subseteq> {Joined_Ok}) \<and>
   (set rs \<subseteq> {Joined_Ok} \<longrightarrow> snd (run_reactors rs) = length rs) \<and>
   (rs = replicate k Joined_Ok @ Joined_Err e # rest \<longrightarrow> run_reactors rs = (Inl (Worker_Error e), Suc k)) \<and>
   (rs = replicate k Joined_Ok @ Joined_Panic # rest \<longrightarrow> run_reactors rs = (Inl Worker_Panicked, Suc k))"
proof (intro conjI impI)
  show "fst (run_reactors rs) = Inr () \<longleftrightarrow> set rs \<subseteq> {Joined_Ok}"
    by (induction rs rule: run_reactors.induct) (auto split: prod.splits)
  show "set rs \<subseteq> {Joined_Ok} \<Longrightarrow> snd (run_reactors rs) = length rs"
    by (induction rs rule: run_reactors.induct) (auto split: prod.splits)
  have "run_reactors (replicate k Joined_Ok @ Joined_Err e # rest) = (Inl (Worker_Error e), Suc k)"
    "run_reactors (replicate k Joined_Ok @ Joined_Panic # rest) = (Inl (Worker_Panicked :: 'a host_error), Suc k)"
    by (induction k) simp_all
  then show "rs = replicate k Joined_Ok @ Joined_Err e # rest \<Longrightarrow> run_reactors rs = (Inl (Worker_Error e), Suc k)"
    "rs = replicate k Joined_Ok @ Joined_Panic # rest \<Longrightarrow> run_reactors rs = (Inl Worker_Panicked, Suc k)" by simp_all
qed

lemma build_pool_some:
  "build_pool (Some address) workers factory max_pending =
     Some (replicate (max 1 (unat workers)) (new_reactor factory (max 1 (unat workers)) (unat max_pending)), address)"
proof -
  have "unat (max workers 1) = max 1 (unat workers)" by (simp add: max_def word_le_nat_alt)
  then show ?thesis by (simp add: build_pool_def Let_def)
qed

lemma bind_none: "bind_host None opts = None" "bind_tls_host R None opts = None"
  by (simp_all add: bind_host_def bind_tls_host_def build_pool_def)

lemma new_reactor_limit [simp]: "max_pending_send (new_reactor factory peers max_pending) = max_pending"
  by (simp add: new_reactor_def)

text \<open>
  A host that could be bound has at least one worker and every worker starts as the theorems on
  reactors require. Binding gives as many workers as the options ask for, at least one, each empty, with the limit of the options and the transport of the
  host, over TCP and, if rustls behaves as documented, over TLS; without a listener there is no host.
\<close>

theorem bound_host_is_well_formed:
  assumes "rustls_contract R V decrypt"
  shows "bind_host None opts = None \<and> bind_tls_host R None opts = None \<and>
    (\<exists>host. bind_host (Some address) opts = Some host \<and> local_address host = address \<and>
       length (host_reactors host) = max 1 (unat (worker_count opts)) \<and>
       (\<forall>s \<in> set (host_reactors host). fresh_reactor s \<and> max_pending_send s = unat (opt_max_pending_send opts))) \<and>
    (\<exists>host. bind_tls_host R (Some address) opts = Some host \<and> local_address host = address \<and>
       length (host_reactors host) = max 1 (unat (worker_count opts)) \<and>
       (\<forall>s \<in> set (host_reactors host). fresh_tls R s \<and> fresh_reactor s \<and> max_pending_send s = unat (opt_max_pending_send opts)))"
proof -
  let ?n = "max 1 (unat (worker_count opts))" and ?m = "unat (opt_max_pending_send opts)"
  have tcp: "fresh_reactor (new_reactor tcp_transport ?n ?m)"
    unfolding fresh_reactor_def by (intro exI [of _ tcp_transport] exI [of _ ?n] exI [of _ ?m]) (simp add: tcp.reactor_transport_axioms)
  have tls: "fresh_tls R (new_reactor (tls_transport R) ?n ?m)"
    unfolding fresh_tls_def by (intro exI [of _ ?n] exI [of _ ?m]) simp
  note facts = tcp tls fresh_tls_reactor(1) [OF assms tls]
  have "bind_host (Some address) opts = Some \<lparr>host_reactors = replicate ?n (new_reactor tcp_transport ?n ?m), host_address = address\<rparr>"
    "bind_tls_host R (Some address) opts = Some \<lparr>host_reactors = replicate ?n (new_reactor (tls_transport R) ?n ?m), host_address = address\<rparr>"
    by (simp_all only: bind_host_def bind_tls_host_def build_pool_some option.map prod.case)
  then show ?thesis using facts by (simp add: local_address_def bind_none)
qed

theorem bound_host_is_well_formed_witness:
  "\<exists>host. bind_tls_host null_rustls (Some ''127.0.0.1:0'') (with_worker_count 0 (default_options None)) = Some host \<and>
     length (host_reactors host) = 1"
  using bound_host_is_well_formed [OF null_contract, of "with_worker_count 0 (default_options None)" "''127.0.0.1:0''"]
  by (auto simp: with_worker_count_def default_options_def max_def)

end
