(* ===== verification/Session_Actors.thy ===== *)
theory Session_Actors
  imports Network_Host
begin

text \<open>
  The session host as the handler of a reactor worker: \<open>SessionActorHost\<close> of \<^verbatim>\<open>session_actor_host.rs\<close> behind the trait \<open>HostHandler\<close> of
  \<^verbatim>\<open>handler.rs\<close>. \<open>run_handler\<close> gives it the calls that a worker has made; the properties compose the life of a connection
  (\<open>Reactor\<close>) with the framing of its data (\<open>Session_Host\<close>). \<open>actor tok\<close> is the reference that the spawn for connection \<open>tok\<close> returned.
\<close>

section \<open>The handler\<close>

record ('a, 'm) session_actor_host =
  host_decoder :: "u8 list \<Rightarrow> 'm decode_result"
  host_encoder :: "u8 list \<Rightarrow> u8 list"
  host_session_options :: session_host_options
  open_sessions :: "'a host_sessions"

definition with_options ::
    "(u8 list \<Rightarrow> 'm decode_result) \<Rightarrow> (u8 list \<Rightarrow> u8 list) \<Rightarrow> session_host_options \<Rightarrow> ('a, 'm) session_actor_host" where
  "with_options decoder encoder opts =
     \<lparr>host_decoder = decoder, host_encoder = encoder, host_session_options = opts, open_sessions = Map.empty\<rparr>"

definition new_session_actor_host :: "(u8 list \<Rightarrow> 'm decode_result) \<Rightarrow> (u8 list \<Rightarrow> u8 list) \<Rightarrow> ('a, 'm) session_actor_host" where
  "new_session_actor_host decoder encoder = with_options decoder encoder default_session_options"

type_synonym ('a, 'm) handler_outcome = "(unit result \<times> ('a, 'm) host_effect list \<times> ('a, 'm) session_actor_host) option"

definition handle_event :: "(nat \<Rightarrow> 'a) \<Rightarrow> handler_event \<Rightarrow> ('a, 'm) session_actor_host \<Rightarrow> ('a, 'm) handler_outcome" where
  "handle_event actor e host =
     map_option (\<lambda>(r, effects, table). (r, effects, host\<lparr>open_sessions := table\<rparr>))
       (case e of
          On_Accepted tok sid \<Rightarrow> Some (Inr (), [], on_accepted sid (actor tok) (open_sessions host))
        | On_Data tok sid data \<Rightarrow> on_data (host_decoder host) sid data (open_sessions host)
        | On_Disconnected tok sid \<Rightarrow>
            (case on_disconnected sid (open_sessions host) of (effects, table) \<Rightarrow> Some (Inr (), effects, table)))"

fun run_handler :: "(nat \<Rightarrow> 'a) \<Rightarrow> handler_event list \<Rightarrow> ('a, 'm) session_actor_host \<Rightarrow> ('a, 'm) handler_outcome" where
  "run_handler actor [] host = Some (Inr (), [], host)"
| "run_handler actor (e # es) host =
     (case handle_event actor e host of
        None \<Rightarrow> None
      | Some (Inl p, effects, host') \<Rightarrow> Some (Inl p, effects, host')
      | Some (Inr _, effects, host') \<Rightarrow>
          (case run_handler actor es host' of
             None \<Rightarrow> None
           | Some (r, effects', host'') \<Rightarrow> Some (r, effects @ effects', host'')))"

section \<open>One session among many\<close>

fun event_id :: "handler_event \<Rightarrow> u64" where
  "event_id (On_Accepted _ sid) = sid"
| "event_id (On_Data _ sid _) = sid"
| "event_id (On_Disconnected _ sid) = sid"

text \<open>The calls on one session and its actor.\<close>

fun touches :: "'a \<Rightarrow> u64 \<Rightarrow> ('a, 'm) host_effect \<Rightarrow> bool" where
  "touches a sid (Post_Actor a' _) \<longleftrightarrow> a' = a"
| "touches a sid (Kill_Actor a') \<longleftrightarrow> a' = a"
| "touches a sid (Close_Session sid') \<longleftrightarrow> sid' = sid"

definition owns :: "'a \<Rightarrow> u64 \<Rightarrow> ('a, 'm) session_actor_host \<Rightarrow> bool" where
  "owns a sid host \<longleftrightarrow> (\<forall>i entry. open_sessions host i = Some entry \<longrightarrow> (entry_actor entry = a \<longleftrightarrow> i = sid))"

lemma ownsI: "(\<And>i entry. open_sessions host i = Some entry \<Longrightarrow> entry_actor entry = a \<longleftrightarrow> i = sid) \<Longrightarrow> owns a sid host"
  by (simp add: owns_def)

lemma ownsD: "owns a sid host \<Longrightarrow> open_sessions host i = Some entry \<Longrightarrow> entry_actor entry = a \<longleftrightarrow> i = sid"
  by (simp add: owns_def)

lemma run_handler_Cons:
  assumes "run_handler actor (e # es) host = Some (Inr (), effects, host'')"
  obtains effects1 effects2 host' where "handle_event actor e host = Some (Inr (), effects1, host')"
    "run_handler actor es host' = Some (Inr (), effects2, host'')" "effects = effects1 @ effects2"
  using assms by (auto split: option.splits sum.splits)

lemma run_handler_append:
  assumes "run_handler actor es host = Some (Inr (), effects, host')"
  shows "run_handler actor (es @ es') host =
    map_option (\<lambda>(r, effects', host''). (r, effects @ effects', host'')) (run_handler actor es' host')"
  using assms
proof (induction es arbitrary: host effects)
  case (Cons e es)
  from run_handler_Cons [OF Cons.prems] obtain effects1 effects2 host1 where *:
    "handle_event actor e host = Some (Inr (), effects1, host1)" "run_handler actor es host1 = Some (Inr (), effects2, host')"
    "effects = effects1 @ effects2" by blast
  then show ?case using Cons.IH [OF *(2)] by (auto split: option.splits)
qed (simp add: option.map_ident_strong split_beta)

lemma run_handler_data:
  "run_handler actor (map (On_Data tok sid) ds) host =
    map_option (\<lambda>(r, effects, table). (r, effects, host\<lparr>open_sessions := table\<rparr>)) (on_reads (host_decoder host) sid ds (open_sessions host))"
  by (induction ds arbitrary: host) (auto simp: handle_event_def split: option.splits sum.splits)

lemma on_data_local:
  assumes "tbl1 sid = tbl sid" "on_data dec sid data tbl = Some (r, effects, tbl')"
  shows "on_data dec sid data tbl1 = Some (r, effects, tbl1(sid := tbl' sid))"
  using assms by (auto simp: on_data_def fun_upd_idem split: option.splits)

definition data_outcome :: "u64 \<Rightarrow> 'a host_sessions \<Rightarrow> ('a, 'm) host_effect list \<Rightarrow> 'a host_sessions \<Rightarrow> bool" where
  "data_outcome sid tbl effects tbl' \<longleftrightarrow>
     (case tbl sid of
        None \<Rightarrow> effects = [] \<and> tbl' = tbl
      | Some entry \<Rightarrow> (\<exists>buffer. tbl' = tbl(sid \<mapsto> entry\<lparr>inbound := buffer\<rparr>)) \<and>
          (\<forall>x \<in> set effects. x = Close_Session sid \<or> (\<exists>m. x = Post_Actor (entry_actor entry) m)))"

lemma data_outcome_owns:
  assumes "data_outcome i (open_sessions host) effects tbl" "owns a sid host"
  shows "owns a sid (host'\<lparr>open_sessions := tbl\<rparr>)" "i = sid \<Longrightarrow> filter (touches a sid) effects = effects"
    "i \<noteq> sid \<Longrightarrow> filter (touches a sid) effects = []" "i \<noteq> sid \<Longrightarrow> tbl sid = open_sessions host sid"
proof -
  show "owns a sid (host'\<lparr>open_sessions := tbl\<rparr>)"
  proof (rule ownsI)
    fix j entry
    assume "open_sessions (host'\<lparr>open_sessions := tbl\<rparr>) j = Some entry"
    then obtain entry' where "open_sessions host j = Some entry'" "entry_actor entry' = entry_actor entry"
      using assms(1) by (auto simp: data_outcome_def split: option.splits if_splits)
    then show "entry_actor entry = a \<longleftrightarrow> j = sid" using ownsD [OF assms(2)] by metis
  qed
  have "touches a sid x \<longleftrightarrow> i = sid" if "x \<in> set effects" for x
    using that assms by (cases "open_sessions host i") (auto simp: data_outcome_def owns_def)
  then show "i = sid \<Longrightarrow> filter (touches a sid) effects = effects" "i \<noteq> sid \<Longrightarrow> filter (touches a sid) effects = []"
    by (simp_all add: filter_id_conv filter_empty_conv)
  show "i \<noteq> sid \<Longrightarrow> tbl sid = open_sessions host sid"
    using assms(1) by (auto simp: data_outcome_def split: option.splits)
qed

lemma owns_other:
  assumes "owns a sid host" "i \<noteq> sid" "\<And>entry. v = Some entry \<Longrightarrow> entry_actor entry \<noteq> a"
  shows "owns a sid (host\<lparr>open_sessions := (open_sessions host)(i := v)\<rparr>)"
proof (rule ownsI)
  fix j entry
  assume "open_sessions (host\<lparr>open_sessions := (open_sessions host)(i := v)\<rparr>) j = Some entry"
  then show "entry_actor entry = a \<longleftrightarrow> j = sid" using ownsD [OF assms(1), of j entry] assms(2,3) by (cases "j = i") auto
qed

lemma owns_at:
  assumes "owns a sid host1" "\<And>entry. v = Some entry \<Longrightarrow> entry_actor entry = a"
  shows "owns a sid (host1\<lparr>open_sessions := (open_sessions host1)(sid := v)\<rparr>)"
  using assms by (auto simp: owns_def)

context frame_decoder
begin

lemma on_data_total:
  "\<exists>effects tbl'. on_data try_decode sid data tbl = Some (Inr (), effects, tbl') \<and> data_outcome sid tbl effects tbl'"
proof (cases "tbl sid")
  case (Some entry)
  obtain ms rest bad where "decode_stream try_decode (inbound entry @ data) = (ms, rest, bad)" by (metis prod_cases3)
  from on_data_entry_stream [OF this, of sid] Some show ?thesis by (auto simp: on_data_def data_outcome_def)
qed (simp add: on_data_def data_outcome_def)

lemma on_reads_total: "\<exists>effects tbl'. on_reads try_decode sid reads tbl = Some (Inr (), effects, tbl') \<and> data_outcome sid tbl effects tbl'"
proof (induction reads arbitrary: tbl)
  case Nil
  have "\<exists>buffer. tbl = tbl(sid \<mapsto> entry\<lparr>inbound := buffer\<rparr>)" if "tbl sid = Some entry" for entry
    using that by (intro exI [of _ "inbound entry"]) (simp add: fun_upd_idem)
  then show ?case by (auto simp: data_outcome_def simp del: fun_upd_apply split: option.split)
next
  case (Cons data reads)
  obtain effects tbl' where first: "on_data try_decode sid data tbl = Some (Inr (), effects, tbl')" "data_outcome sid tbl effects tbl'"
    using on_data_total by blast
  obtain effects' tbl'' where "on_reads try_decode sid reads tbl' = Some (Inr (), effects', tbl'')" "data_outcome sid tbl' effects' tbl''"
    using Cons.IH by blast
  moreover from this(2) first(2) have "data_outcome sid tbl (effects @ effects') tbl''"
    unfolding data_outcome_def by (cases "tbl sid") (fastforce simp: fun_upd_same simp del: fun_upd_apply)+
  ultimately show ?case using first(1) by auto
qed

lemma handle_total:
  assumes "host_decoder host = try_decode"
  shows "\<exists>effects host'. handle_event actor e host = Some (Inr (), effects, host') \<and> host_decoder host' = try_decode"
proof (cases e)
  case (On_Data tok sid data)
  then show ?thesis using assms on_data_total [of sid data "open_sessions host"] by (auto simp: handle_event_def)
qed (use assms in \<open>auto simp: handle_event_def split: prod.split\<close>)

lemma run_total:
  assumes "host_decoder host = try_decode"
  shows "\<exists>effects host'. run_handler actor es host = Some (Inr (), effects, host')"
  using assms
proof (induction es arbitrary: host)
  case (Cons e es)
  obtain effects host' where "handle_event actor e host = Some (Inr (), effects, host')" "host_decoder host' = try_decode"
    using handle_total [OF Cons.prems] by blast
  then show ?case using Cons.IH [of host'] by auto
qed simp

text \<open>A call about another session does not show.\<close>

lemma handle_other:
  assumes "host_decoder host = try_decode" "handle_event actor e host = Some (Inr (), effects, host')"
    "event_id e \<noteq> sid" "actor (event_token e) \<noteq> a" "owns a sid host"
  shows "open_sessions host' sid = open_sessions host sid \<and> filter (touches a sid) effects = [] \<and> owns a sid host'"
proof (cases e)
  case (On_Data tok i data)
  obtain tbl where d: "host' = host\<lparr>open_sessions := tbl\<rparr>" "data_outcome i (open_sessions host) effects tbl"
    using on_data_total [of i data "open_sessions host"] assms(1,2) On_Data by (auto simp: handle_event_def)
  from data_outcome_owns [OF d(2) assms(5)] show ?thesis using d(1) assms(3) On_Data by simp
next
  case (On_Accepted tok i)
  then have "effects = []" "host' = host\<lparr>open_sessions := (open_sessions host)(i \<mapsto> \<lparr>entry_actor = actor tok, inbound = []\<rparr>)\<rparr>"
    using assms(2) by (auto simp: handle_event_def on_accepted_def)
  then show ?thesis using owns_other [OF assms(5), of i "Some \<lparr>entry_actor = actor tok, inbound = []\<rparr>"] assms(3,4) On_Accepted by simp
next
  case (On_Disconnected tok i)
  then have "effects = (case open_sessions host i of None \<Rightarrow> [] | Some entry \<Rightarrow> [Kill_Actor (entry_actor entry)])"
    "host' = host\<lparr>open_sessions := (open_sessions host)(i := None)\<rparr>"
    using assms(2) by (auto simp: handle_event_def on_disconnected_def fun_upd_idem split: option.splits)
  then show ?thesis
    using owns_other [OF assms(5), of i None] ownsD [OF assms(5), of i] assms(3) On_Disconnected by (auto split: option.split)
qed

lemma handle_same:
  assumes "host_decoder host = try_decode" "host_decoder host1 = try_decode" "handle_event actor e host = Some (Inr (), effects, host')"
    "event_id e = sid" "actor (event_token e) = a" "owns a sid host" "owns a sid host1" "open_sessions host1 sid = open_sessions host sid"
  shows "\<exists>host1'. handle_event actor e host1 = Some (Inr (), effects, host1') \<and> filter (touches a sid) effects = effects \<and>
     open_sessions host1' sid = open_sessions host' sid \<and> owns a sid host' \<and> owns a sid host1' \<and> host_decoder host1' = try_decode"
proof (cases e)
  case (On_Data tok i data)
  obtain tbl where d: "on_data try_decode sid data (open_sessions host) = Some (Inr (), effects, tbl)"
    "host' = host\<lparr>open_sessions := tbl\<rparr>" "data_outcome sid (open_sessions host) effects tbl"
    using on_data_total [of sid data "open_sessions host"] assms(1,3,4) On_Data by (auto simp: handle_event_def)
  have o: "owns a sid host'" using data_outcome_owns(1) [OF d(3) assms(6)] d(2) by simp
  then have "entry_actor entry = a" if "tbl sid = Some entry" for entry using that d(2) by (simp add: owns_def)
  moreover have "handle_event actor e host1 = Some (Inr (), effects, host1\<lparr>open_sessions := (open_sessions host1)(sid := tbl sid)\<rparr>)"
    using on_data_local [of "open_sessions host1", OF assms(8) d(1)] assms(2,4) On_Data by (simp add: handle_event_def)
  ultimately show ?thesis using o owns_at [OF assms(7)] data_outcome_owns(2) [OF d(3) assms(6)] assms(2) d(2) by simp
qed (use assms in \<open>auto simp: handle_event_def on_accepted_def on_disconnected_def owns_def split: option.splits if_splits\<close>)

lemma run_project:
  assumes "run_handler actor es host = Some (Inr (), effects, host')" "host_decoder host = try_decode" "host_decoder host1 = try_decode"
    "owns (actor tok) sid host" "owns (actor tok) sid host1" "open_sessions host1 sid = open_sessions host sid"
    "\<And>e. e \<in> set es \<Longrightarrow> event_id e = sid \<longleftrightarrow> event_token e = tok" "inj actor"
  shows "\<exists>host1'. run_handler actor (filter (\<lambda>e. event_token e = tok) es) host1 = Some (Inr (), filter (touches (actor tok) sid) effects, host1') \<and>
     open_sessions host1' sid = open_sessions host' sid"
  using assms(1-7)
proof (induction es arbitrary: host host1 effects)
  case (Cons e es)
  from run_handler_Cons [OF Cons.prems(1)] obtain effects1 effects2 host2 where *:
    "handle_event actor e host = Some (Inr (), effects1, host2)" "run_handler actor es host2 = Some (Inr (), effects2, host')"
    "effects = effects1 @ effects2" by blast
  have decoder: "host_decoder host2 = try_decode" using handle_total [OF Cons.prems(2), of actor e] *(1) by auto
  show ?case
  proof (cases "event_token e = tok")
    case True
    then have "event_id e = sid" using Cons.prems(7) by simp
    from handle_same [OF Cons.prems(2,3) *(1) this _ Cons.prems(4-6)] True obtain host3 where
      same: "handle_event actor e host1 = Some (Inr (), effects1, host3)" "filter (touches (actor tok) sid) effects1 = effects1"
      "open_sessions host3 sid = open_sessions host2 sid" "owns (actor tok) sid host2" "owns (actor tok) sid host3" "host_decoder host3 = try_decode"
      by blast
    from Cons.IH [OF *(2) decoder same(6,4,5,3)] Cons.prems(7) same(1,2) True *(3) show ?thesis by auto
  next
    case False
    then have "event_id e \<noteq> sid" "actor (event_token e) \<noteq> actor tok" using Cons.prems(7) assms(8) by (auto simp: inj_eq)
    from handle_other [OF Cons.prems(2) *(1) this Cons.prems(4)]
    show ?thesis using Cons.IH [OF *(2) decoder Cons.prems(3) _ Cons.prems(5)] Cons.prems(6,7) False *(3) by simp
  qed
qed auto

text \<open>The calls about one connection from its beginning.\<close>

lemma run_life:
  assumes "host_decoder host = try_decode" "decode_stream try_decode (concat ds) = (ms, rest, bad)"
  shows "\<exists>posts host' buffer.
     run_handler actor (On_Accepted tok sid # map (On_Data tok sid) ds @ (if gone then [On_Disconnected tok sid] else [])) host =
       Some (Inr (), posts @ (if gone then [Kill_Actor (actor tok)] else []), host') \<and>
     open_sessions host' sid = (if gone then None else Some \<lparr>entry_actor = actor tok, inbound = buffer\<rparr>) \<and>
     (\<forall>a. Kill_Actor a \<notin> set posts) \<and> (\<not> bad \<longrightarrow> posts = map (Post_Actor (actor tok)) ms \<and> buffer = rest)"
proof -
  let ?entry = "\<lparr>entry_actor = actor tok, inbound = []\<rparr>" and ?t = "(open_sessions host)(sid \<mapsto> \<lparr>entry_actor = actor tok, inbound = []\<rparr>)"
  let ?host = "host\<lparr>open_sessions := ?t\<rparr>"
  obtain effects table buffer where reads: "on_reads try_decode sid ds ?t = Some (Inr (), effects, table)"
    "table sid = Some (?entry\<lparr>inbound := buffer\<rparr>)" "\<forall>e \<in> set effects. e = Close_Session sid \<or> (\<exists>m. e = Post_Actor (actor tok) m)"
    using on_reads_total [of sid ds ?t] by (auto simp: data_outcome_def)
  have stream: "effects = map (Post_Actor (actor tok)) ms \<and> buffer = rest" if "\<not> bad"
    using on_reads_stream [of ?t sid ?entry ds ms rest] that assms(2) reads(1,2)
    by (auto simp: decode_stream.simps [of _ "[]"] nothing_yet)
  have data: "run_handler actor (map (On_Data tok sid) ds) ?host = Some (Inr (), effects, host\<lparr>open_sessions := table\<rparr>)"
    using reads(1) assms(1) by (simp add: run_handler_data)
  have "run_handler actor (On_Accepted tok sid # map (On_Data tok sid) ds @ (if gone then [On_Disconnected tok sid] else [])) host =
    Some (Inr (), effects @ (if gone then [Kill_Actor (actor tok)] else []), host\<lparr>open_sessions := (if gone then table(sid := None) else table)\<rparr>)"
    using reads(2) by (simp add: handle_event_def on_accepted_def run_handler_append [OF data] on_disconnected_def)
  then show ?thesis using reads(2,3) stream by (intro exI conjI) auto
qed

end

section \<open>Sessions of a worker\<close>

text \<open>
  No two sessions of the worker have the same id: ids are 64-bit numbers counted up by the accepting worker.
\<close>

definition distinct_ids :: "'c reactor \<Rightarrow> bool" where
  "distinct_ids s \<longleftrightarrow> (\<forall>t1 t2 ses1 ses2. sessions s t1 = Some ses1 \<and> sessions s t2 = Some ses2 \<and> session_id ses1 = session_id ses2 \<longrightarrow> t1 = t2)"

lemma logged_session:
  assumes "session_inv s" "e \<in> set (handler_log s)"
  shows "\<exists>ses. sessions s (event_token e) = Some ses \<and> event_id e = session_id ses"
proof -
  have e: "e \<in> set (calls_for (event_token e) s)" using assms(2) by (simp add: calls_for_def)
  obtain ses ds where "sessions s (event_token e) = Some ses" "calls_for (event_token e) s = life (event_token e) ses ds"
    using sess_okI [OF assms(1), of "event_token e"] e by (auto simp: sess_ok_def split: option.splits)
  moreover have "event_id e = session_id ses" if "e \<in> set (life t ses ds)" for t
    using that by (auto simp: life_def split: if_splits)
  ultimately show ?thesis using e by auto
qed

lemma event_names_session:
  assumes "session_inv s" "distinct_ids s" "sessions s tok = Some ses" "e \<in> set (handler_log s)"
  shows "event_id e = session_id ses \<longleftrightarrow> event_token e = tok"
  using logged_session [OF assms(1,4)] assms(2,3) by (auto simp: distinct_ids_def)

section \<open>Properties\<close>

text \<open>
  C5: an actor gets exactly the frames of its connection, and is killed exactly when its session is disposed. Take any state a worker
  reaches, over any transport and with any interleaving of connections, senders and sockets, in which no two sessions have the same id (the ids come from one 64-bit counter), and give its handler calls to a
  session host with a length-prefixed decoder whose spawns all succeed, each with a reference of its own. The host neither panics nor loops. For every session of the worker, whatever the others receive: the calls on the session
  and its actor end with one kill if the session is disposed and contain no other, the host has an entry for the session exactly when it is not disposed,
  and as long as the received bytes are not corrupt the posts are the frames of these bytes in order and the entry keeps the incomplete rest.
\<close>

theorem session_actors_follow_connections:
  fixes dec :: "'m length_prefixed_decoder" and actor :: "nat \<Rightarrow> 'a"
  assumes "reactor_reach me s" "distinct_ids s" "inj actor"
  shows "\<exists>effects host. run_handler actor (handler_log s) (with_options (lp_try_decode dec) enc opts) = Some (Inr (), effects, host) \<and>
    (\<forall>tok ses ms rest bad. sessions s tok = Some ses \<and> decode_stream (lp_try_decode dec) (data_for tok s) = (ms, rest, bad) \<longrightarrow>
       (\<exists>posts buffer.
          filter (touches (actor tok) (session_id ses)) effects = posts @ (if disposed ses then [Kill_Actor (actor tok)] else []) \<and>
          (\<forall>a. Kill_Actor a \<notin> set posts) \<and>
          open_sessions host (session_id ses) = (if disposed ses then None else Some \<lparr>entry_actor = actor tok, inbound = buffer\<rparr>) \<and>
          (\<not> bad \<longrightarrow> posts = map (Post_Actor (actor tok)) ms \<and> buffer = rest)))"
proof -
  let ?host = "with_options (lp_try_decode dec) enc opts :: ('a, 'm) session_actor_host"
  have decoder: "host_decoder ?host = lp_try_decode dec" by (simp add: with_options_def)
  have owns: "owns a sid ?host" for a sid by (simp add: owns_def with_options_def)
  have inv: "session_inv s" using sess.reach_inv [OF assms(1)] .
  obtain effects host where run: "run_handler actor (handler_log s) ?host = Some (Inr (), effects, host)"
    using lp.run_total [OF decoder] by blast
  have "\<exists>posts buffer. filter (touches (actor tok) (session_id ses)) effects = posts @ (if disposed ses then [Kill_Actor (actor tok)] else []) \<and>
          (\<forall>a. Kill_Actor a \<notin> set posts) \<and>
          open_sessions host (session_id ses) = (if disposed ses then None else Some \<lparr>entry_actor = actor tok, inbound = buffer\<rparr>) \<and>
          (\<not> bad \<longrightarrow> posts = map (Post_Actor (actor tok)) ms \<and> buffer = rest)"
    if ses: "sessions s tok = Some ses" and stream: "decode_stream (lp_try_decode dec) (data_for tok s) = (ms, rest, bad)" for tok ses ms rest bad
  proof -
    obtain ds where ds: "calls_for tok s = life tok ses ds"
      using sess_okI [OF inv, of tok] ses by (auto simp: sess_ok_def)
    have "data_for tok s = concat ds" by (simp add: data_for_def ds life_def comp_def)
    then obtain posts host1 buffer where life: "run_handler actor (calls_for tok s) ?host =
        Some (Inr (), posts @ (if disposed ses then [Kill_Actor (actor tok)] else []), host1)"
      "open_sessions host1 (session_id ses) = (if disposed ses then None else Some \<lparr>entry_actor = actor tok, inbound = buffer\<rparr>)"
      "\<forall>a. Kill_Actor a \<notin> set posts" "\<not> bad \<longrightarrow> posts = map (Post_Actor (actor tok)) ms \<and> buffer = rest"
      using lp.run_life [OF decoder, of ds ms rest bad actor tok "session_id ses" "disposed ses"] stream ds by (auto simp: life_def)
    obtain host1' where "run_handler actor (calls_for tok s) ?host = Some (Inr (), filter (touches (actor tok) (session_id ses)) effects, host1')"
      "open_sessions host1' (session_id ses) = open_sessions host (session_id ses)"
      using lp.run_project [OF run decoder decoder owns owns refl event_names_session [OF inv assms(2) ses] assms(3)]
      unfolding calls_for_def by blast
    with life(1) have "open_sessions host (session_id ses) = open_sessions host1 (session_id ses)"
      "filter (touches (actor tok) (session_id ses)) effects = posts @ (if disposed ses then [Kill_Actor (actor tok)] else [])" by simp_all
    with life(2-4) show ?thesis by (intro exI [of _ posts] exI [of _ buffer]) simp
  qed
  with run show ?thesis by blast
qed

text \<open>The open connection of \<open>open_reactor\<close> has received a frame and the first byte of another.\<close>

definition fed_reactor :: "unit reactor" where
  "fed_reactor = worker_run [on_events [Ev_Conn 2 True False], on_events [],
     (on_events [])\<lparr>ans_reads := [Read_Data [0, 0, 0, 1, 9, 0], Read_WouldBlock]\<rparr>] open_reactor"

lemma fed_reactor_facts:
  "reactor_reach 0 fed_reactor" "handler_log fed_reactor = [On_Accepted 2 1, On_Data 2 1 [0, 0, 0, 1, 9, 0]]"
  "sessions fed_reactor = [2 \<mapsto> new_session 1 10]"
proof -
  show "reactor_reach 0 fed_reactor" unfolding fed_reactor_def by (intro runs_reach open_reactor_reach)
  show "handler_log fed_reactor = [On_Accepted 2 1, On_Data 2 1 [0, 0, 0, 1, 9, 0]]" "sessions fed_reactor = [2 \<mapsto> new_session 1 10]"
    by (simp_all add: fed_reactor_def open_reactor_eq reactor_simps read_def tcp_transport_def tcp_read.simps new_session_def READ_BUFFER_SIZE_def)
qed

theorem session_actors_follow_connections_witness:
  "\<exists>effects host. run_handler id (handler_log fed_reactor)
       (with_options (lp_try_decode (new_length_prefixed_decoder Some)) length_prefixed_encode default_session_options) = Some (Inr (), effects, host) \<and>
     filter (touches 2 1) effects = [Post_Actor 2 [9]] \<and> open_sessions host 1 = Some \<lparr>entry_actor = 2, inbound = [0]\<rparr>"
proof -
  let ?dec = "new_length_prefixed_decoder Some :: u8 list length_prefixed_decoder"
  have ids: "distinct_ids fed_reactor" by (auto simp: distinct_ids_def fed_reactor_facts(3) split: if_splits)
  have data: "data_for 2 fed_reactor = length_prefixed_frame [9] @ [0]"
    by (simp add: data_for_def calls_for_def fed_reactor_facts(2) length_prefixed_frame_def to_be_bytes_def)
  have "decode_stream (lp_try_decode ?dec) [0] = ([], [0], False)"
    by (simp add: decode_stream.simps lp_try_decode_def LENGTH_PREFIX_SIZE_def)
  then have stream: "decode_stream (lp_try_decode ?dec) (data_for 2 fed_reactor) = ([[9]], [0], False)"
    using lp_decode_stream_frames [of "[[9]]" ?dec "[0]"]
    by (simp add: data new_length_prefixed_decoder_def DEFAULT_MAX_FRAME_LEN_def map_filter_simps)
  show ?thesis
    using session_actors_follow_connections [OF fed_reactor_facts(1) ids inj_on_id, of ?dec length_prefixed_encode default_session_options]
      stream fed_reactor_facts(3) by (fastforce simp: new_session_def)
qed

end
