(* ===== verification/Spec2Isabelle.thy ===== *)
theory Spec2Isabelle
  imports Yield_Tasks Runner_Delivery Dead_Letters Session_Actors
begin

text \<open>
  A verification library for Dignus.ActorServer, an actor runtime (\<^verbatim>\<open>dignus-actor-core\<close>) with a network host on
  top of it (\<^verbatim>\<open>dignus-actor-network\<close>).

  \<^bold>\<open>The program.\<close> An actor has a runner with a bounded mailbox; its mail is received by the worker thread of
  one of several dispatchers. Messages reach a runner through a reference, which is a handle that the registry resolves.
  The actor system spawns actors, keeps their aliases, and shuts everything down. An ask posts a message with a
  reply reference and waits for the answer or a timeout that a sweeper thread delivers. The network
  host runs a pool of reactor workers; each owns connections, reads and writes their sockets, and calls a
  handler; the session host is the handler that gives every connection an actor, takes frames off what
  arrives and posts them as mail.

  \<^bold>\<open>Theories and sources.\<close> Paths are below \<^verbatim>\<open>src/dignus-actor-core/src\<close> and \<^verbatim>\<open>src/dignus-actor-network/src\<close>.

  \<^item> \<open>Prelude\<close>, \<open>State_System\<close>, \<open>Fifo_Spec\<close>: machine integers, panics as values, reachability, the locale
    \<open>invariant_system\<close>, and the abstract bounded FIFO and mailbox.
  \<^item> \<open>Mpsc_Queue\<close>, \<open>Mpsc_Concurrent\<close>: \<^verbatim>\<open>queues/mpsc_bounded_queue.rs\<close>, as one caller runs it, on wrapping 64-bit
    counters, and with any number of producers and one consumer, one step per atomic access. The first refines the bounded FIFO, the
    second is simulated by the mailbox; delivery order, exclusive slots, lock freedom.
  \<^item> \<open>Actor_Dispatcher\<close>: \<^verbatim>\<open>dispatcher/actor_dispatcher.rs\<close>, \<^verbatim>\<open>dispatcher/signal.rs\<close>. No lost wake-up, order, draining, the end after a stop.
  \<^item> \<open>Yield_Tasks\<close>: \<open>enqueue_continuation\<close> of the dispatcher, \<^verbatim>\<open>dispatcher/actor_yield_task.rs\<close>, \<^verbatim>\<open>object_pool/actor_yield_task_pool.rs\<close>. The dispatcher's machine
    extended by the tasks it runs: a continuation is called once and in order, a pooled task has one owner.
  \<^item> \<open>Poll_Driver\<close>: \<^verbatim>\<open>poll_driver.rs\<close>, a pending receive is completed once.
  \<^item> \<open>Runner_Machine\<close>, \<open>Runner_Exclusive\<close>, \<open>Runner_Delivery\<close>: \<^verbatim>\<open>internals/actor_runner.rs\<close>, any number of threads that post,
    kill and wake, and one worker per dispatcher that executes. Exclusive receives, mail in order, no mail left behind, \<open>on_kill\<close> at most once; and two
    defects: a kill can be lost, and a wake in an awkward place lets two dispatchers receive at once.
  \<^item> \<open>Registry\<close>: \<^verbatim>\<open>internals/registry.rs\<close> and the handle of \<^verbatim>\<open>internals/actor_ref.rs\<close>. A table from handles to runners with
    generations; counts; the poisoning of its mutex when the capacity is exceeded.
  \<^item> \<open>Ask_System\<close>: \<^verbatim>\<open>internals/ask_system.rs\<close>, \<^verbatim>\<open>internals/ask_awaiter.rs\<close>, \<^verbatim>\<open>internals/ask_reply_actor_ref.rs\<close>. One answer per
    ask, timeouts by the sweep; and two defects: the entry that a later ask overwrites, and the ask that is registered while the system stops.
  \<^item> \<open>Actor_Context\<close>: \<^verbatim>\<open>actor_base.rs\<close>, \<^verbatim>\<open>messages/actor_mail.rs\<close>, \<^verbatim>\<open>actor_await.rs\<close>. A context is bound once; a joined actor
    resumes on its own dispatcher.
  \<^item> \<open>Messaging\<close>: \<^verbatim>\<open>internals/actor_ref.rs\<close>, \<^verbatim>\<open>internals/ask_reply_actor_ref.rs\<close> and the calls of the registry that reach a runner. Registry, runners
    and ask system composed: the round trip of an ask, mail that is dropped, the kill of an idle actor.
  \<^item> \<open>Dead_Letters\<close>: \<^verbatim>\<open>dead_letter/*.rs\<close>. One dead letter per panic of user code.
  \<^item> \<open>Actor_System\<close>: \<^verbatim>\<open>actor_system.rs\<close>. Spawns, finalizations and shutdowns by any number of threads over the registry of
    \<open>Registry\<close>; the alias table is exact; what a spawn registers; what a shutdown kills and waits for; the slot a failed spawn leaks and
    the actor that outlives a \<open>dispose\<close>.
  \<^item> \<open>Transport\<close>: \<^verbatim>\<open>send_buffer.rs\<close>, \<^verbatim>\<open>transport.rs\<close>, \<^verbatim>\<open>transport_factory.rs\<close>, \<^verbatim>\<open>tcp_transport.rs\<close>. Order of the bytes written and read; the
    locales \<open>buffered_writer\<close> and \<open>reactor_transport\<close> are what the reactor relies on.
  \<^item> \<open>Tls_Transport\<close>, \<open>Tls_Reactor\<close>: \<^verbatim>\<open>tls_transport.rs\<close>, with the connection of rustls as a parameter, and the reactor over it. What the handler sees and
    what a session has sent is the plaintext of the TLS records read and written.
  \<^item> \<open>Reactor\<close>: \<^verbatim>\<open>session.rs\<close>, \<^verbatim>\<open>reactor.rs\<close>, over any transport. One worker against any number of callers: no lost request, no stranded byte, bytes in order,
    the life of a connection as the handler sees it, the end of a worker, by a stop or by an error.
  \<^item> \<open>Codec\<close>, \<open>Session_Host\<close>: \<^verbatim>\<open>codec.rs\<close>, \<^verbatim>\<open>frame_encoder.rs\<close>, \<^verbatim>\<open>length_prefixed_decoder.rs\<close>, \<^verbatim>\<open>session_actor_host.rs\<close>. Round trip, bounds, and
    framing that does not depend on how reads are cut; the locale \<open>frame_decoder\<close> is the contract of a decoder.
  \<^item> \<open>Network_Host\<close>: \<^verbatim>\<open>host_options.rs\<close>, \<^verbatim>\<open>tcp_host.rs\<close>, \<^verbatim>\<open>tls_host.rs\<close>, \<^verbatim>\<open>session_sender.rs\<close>, \<^verbatim>\<open>network_session_ref.rs\<close> and the spawn of the session host.
  \<^item> \<open>Session_Actors\<close>: the session host of \<open>Session_Host\<close> as the handler (\<^verbatim>\<open>handler.rs\<close>) of a worker of \<open>Reactor\<close>: an actor gets the frames of its
    connection and is killed when its session is disposed.

  \<^bold>\<open>How state and operations correspond.\<close> A struct is a record with a field per field of the source; an \<open>Arc\<close> is the object itself
  or a name for it. A concurrent component is a step function per thread role on a program point (\<open>worker_step\<close>,
  \<open>execute_step\<close>, \<open>spawn_step\<close>, \<open>run_step\<close>, \<dots>), and a step relation that lets any thread move. One step is one atomic access or
  one lock region. A panic is the value \<open>Inl\<close> of a result or a program point of its thread; a poisoned lock is a flag. Fields named as history
  variables are read by no step.

  \<^bold>\<open>Bounds and loops.\<close> A loop that the source could run for ever is a \<open>partial_function (option)\<close> or runs over a list of answers, and the theorems
  that it returns say so (\<open>new_queue_inv\<close>, \<open>drop_queue_empties\<close>, \<open>tcp_write_returns\<close>, \<open>length_prefixed_bounds\<close>). A spawn has at most
  seven steps, which is the number \<open>spawn_call\<close> makes; a post or kill has at most six, which \<open>runner_call\<close> makes. Handles repeat after \<open>2 ^ 31\<close> generations of a slot, which the theorem on handles states.
  Tokens and lengths are natural numbers, since neither \<open>2 ^ 64\<close> connections nor such a vector can exist.

  \<^bold>\<open>Assumptions.\<close> Interleavings are sequentially consistent. User code (receives, polls, factories, handlers, deserializers) is an
  arbitrary outcome or a parameter; \<open>on_kill\<close>, wakers and the handler are assumed to return. The theorems on exclusive receives speak of runs whose wakes
  are orderly (\<open>orderly_step\<close>): a waker is not called from another dispatcher during the poll it belongs to; \<open>receives_can_overlap\<close> shows that this
  is needed. Dispatchers may be stopped at any time (the step \<open>stop\<close>); that no mail is left behind is claimed of runs in which none is. An ask ends by its deadline if,
  as the contract of \<open>Future\<close> demands, no future is polled after its response; a round of the sweeper and the drain of a stop are one step each, the two halves of \<open>register\<close> and of \<open>stop\<close> are
  steps of their own. Rustls is known by \<open>rustls_contract\<close>. An error of the poller or the listener ends \<open>run\<close>, and the reactor it owns is dropped with its connections.
  The poller reports a signalled waker until a poll has returned it, and a refused change of interest is
  recorded.

  \<^bold>\<open>Not modelled.\<close> Trait declarations without code, formatting and \<open>Error\<close> implementations other than the texts of ask errors, benchmarks, examples and
  tests. The inside of rustls, of the poller and of the operating system. Weak memory effects and resource exhaustion (a mailbox capacity beyond what a vector can hold
  included) are outside the model.
\<close>

section \<open>From sender to actor\<close>

text \<open>
  C13: payloads cross the network unchanged, if each is within the frame limit of the receiver's decoder and shorter than \<open>2 ^ 32\<close> bytes (the sender does not check the former; a longer
  one is sent and then makes the receiver close the connection). Take a session of a TCP host whose accepted sends were the length-prefixed
  frames of such payloads and whose bytes have all been written, whatever senders, worker and sockets
  did in between. However the bytes on the wire are cut into reads, a session host on the other side posts
  exactly these payloads, deserialized, to the actor of its connection, in order, and keeps nothing buffered.
\<close>

theorem payloads_cross_the_network:
  assumes "reactor_reach me s" "transport_factory s = tcp_transport" "sessions s tok = Some ses" "\<not> has_pending (outbound ses)"
    and "accepted s tok = concat (map length_prefixed_encode payloads)"
    and "\<forall>p \<in> set payloads. length p \<le> max_frame_len dec \<and> length p < 2 ^ 32"
    and "concat reads = wire s tok" and "host sid = Some \<lparr>entry_actor = actor, inbound = []\<rparr>"
  shows "on_reads (lp_try_decode dec) sid reads host =
     Some (Inr (), map (Post_Actor actor) (List.map_filter (deserialize dec) payloads), host)"
proof -
  have "accepted s tok = wire s tok"
    using sess_okI [OF sess.reach_inv [OF assms(1)], of tok] assms(3,4) by (simp add: sess_ok_def has_pending_slice)
  then have "concat reads = concat (map length_prefixed_frame payloads)"
    using assms(5,7) by (simp add: length_prefixed_encode_def [abs_def])
  then have "decode_stream (lp_try_decode dec) (concat reads) = (List.map_filter (deserialize dec) payloads, [], False)"
    using lp_decode_stream_frames [OF assms(6), of "[]"] by (simp add: decode_stream.simps [of _ "[]"] lp.nothing_yet)
  then show ?thesis
    using lp.on_reads_stream [of host sid "\<lparr>entry_actor = actor, inbound = []\<rparr>" dec reads] assms(8)
    by (simp add: decode_stream.simps [of _ "[]"] lp.nothing_yet fun_upd_idem)
qed

text \<open>A frame sent over the open connection of \<open>open_reactor\<close> and flushed by the worker in two writes.\<close>

definition flushed_reactor :: "unit reactor" where
  "flushed_reactor = worker_run (on_events [Ev_Waker] # replicate 3 (on_events []) @
       [(on_events [])\<lparr>ans_writes := [Write_Count 2, Write_Interrupted, Write_Count 3]\<rparr>])
     (client_run 0 5 (client_at 0 (T_Send 2 [0, 0, 0, 1, 9]) open_reactor))"

lemma flushed_reactor_facts:
  "reactor_reach 0 flushed_reactor" "accepted flushed_reactor 2 = [0, 0, 0, 1, 9]" "wire flushed_reactor 2 = [0, 0, 0, 1, 9]"
  "sessions flushed_reactor 2 = Some (new_session 1 10)" "transport_factory flushed_reactor = tcp_transport"
proof -
  have "reactor_step 0 open_reactor (client_at 0 (T_Send 2 [0, 0, 0, 1, 9]) open_reactor)"
    by (rule reactor_step.start_send) (simp_all add: open_reactor_eq new_reactor_def)
  then show "reactor_reach 0 flushed_reactor"
    unfolding flushed_reactor_def by (intro runs_reach reach_step [OF open_reactor_reach])
  show "accepted flushed_reactor 2 = [0, 0, 0, 1, 9]" "wire flushed_reactor 2 = [0, 0, 0, 1, 9]"
    "sessions flushed_reactor 2 = Some (new_session 1 10)" "transport_factory flushed_reactor = tcp_transport"
    by (simp_all add: flushed_reactor_def open_reactor_eq reactor_simps new_session_def update_session_def can_write_def
        pending_len_def new_send_buffer_def sb_append_def flush_def tcp_write.simps has_pending_def sb_advance_def
        pending_slice_def tcp_wants_write_def tcp_transport_def)
qed

theorem payloads_cross_the_network_witness:
  "on_reads (lp_try_decode (new_length_prefixed_decoder Some)) 5 [[0, 0], [0, 1, 9]] [5 \<mapsto> \<lparr>entry_actor = ''a'', inbound = []\<rparr>] =
   Some (Inr (), [Post_Actor ''a'' [9]], [5 \<mapsto> \<lparr>entry_actor = ''a'', inbound = []\<rparr>])"
  using payloads_cross_the_network [OF flushed_reactor_facts(1,5,4), of "[[9]]" "new_length_prefixed_decoder Some"
      "[[0, 0], [0, 1, 9]]" "[5 \<mapsto> \<lparr>entry_actor = ''a'', inbound = []\<rparr>]" 5 "''a''"] flushed_reactor_facts(2,3)
  by (simp add: new_session_def new_send_buffer_def has_pending_def new_length_prefixed_decoder_def DEFAULT_MAX_FRAME_LEN_def
      length_prefixed_encode_def length_prefixed_frame_def to_be_bytes_def map_filter_simps)

end
